(* ===== verification/Penca_Prelude.thy ===== *)
theory Penca_Prelude
  imports Main "HOL-Library.Multiset"
begin

text \<open>
  Shared vocabulary of the development: the error type of the API layer, the
  result monad the fallible code is written in, the bounds of \<open>i64\<close> with the
  saturating operations the code uses, and the generic list facts the
  components share.
\<close>

named_theorems result_simps \<open>evaluation of the result monad\<close>
named_theorems slice_simps \<open>row ranges of a list of rows\<close>

section \<open>Errors and results\<close>

datatype api_error =
    MetadataErr string
  | HotStorageErr string
  | ColdStorageErr string
  | DlErr string
  | MergeErr string
  | FormatErr string
  | ArrowErr string
  | UuidErr string
  | AbortedErr string
  | InvalidRequest string
  | NotFound string
  | AlreadyExists string
  | FailedPrecondition string
  | Unimplemented string
  | QueryTimeout string
  | Internal string

type_synonym 'a result = "api_error + 'a"

definition rbind :: "'e + 'a \<Rightarrow> ('a \<Rightarrow> 'e + 'b) \<Rightarrow> 'e + 'b" where
  "rbind r f = (case r of Inl e \<Rightarrow> Inl e | Inr x \<Rightarrow> f x)"

definition is_ok :: "'e + 'a \<Rightarrow> bool" where
  "is_ok r = (case r of Inl _ \<Rightarrow> False | Inr _ \<Rightarrow> True)"

fun rmap :: "('a \<Rightarrow> 'e + 'b) \<Rightarrow> 'a list \<Rightarrow> 'e + 'b list" where
  "rmap f [] = Inr []"
| "rmap f (x # xs) = rbind (f x) (\<lambda>y. rbind (rmap f xs) (\<lambda>ys. Inr (y # ys)))"

fun rfold :: "('s \<Rightarrow> 'a \<Rightarrow> 'e + 's) \<Rightarrow> 's \<Rightarrow> 'a list \<Rightarrow> 'e + 's" where
  "rfold f s [] = Inr s"
| "rfold f s (x # xs) = rbind (f s x) (\<lambda>s'. rfold f s' xs)"

section \<open>64-bit bounds\<close>

definition i64_max :: int where "i64_max = 2 ^ 63 - 1"

definition i64_min :: int where "i64_min = - (2 ^ 63)"

definition i64_saturating_add :: "int \<Rightarrow> int \<Rightarrow> int" where
  "i64_saturating_add a b = max i64_min (min i64_max (a + b))"

section \<open>Row ranges\<close>

definition slice_rows :: "nat \<Rightarrow> nat \<Rightarrow> 'a list \<Rightarrow> 'a list" where
  "slice_rows off len xs = take len (drop off xs)"

section \<open>Facts about results\<close>

lemma rbind_Inr [simp, result_simps]: "rbind (Inr x) f = f x"
  by (simp add: rbind_def)

lemma rbind_Inl [simp, result_simps]: "rbind (Inl e) f = Inl e"
  by (simp add: rbind_def)

lemma rbind_eq_Inr [result_simps]:
  "(rbind r f = Inr y) = (\<exists>x. r = Inr x \<and> f x = Inr y)"
  by (cases r) auto

lemma rbind_eq_Inl:
  "(rbind r f = Inl e) = (r = Inl e \<or> (\<exists>x. r = Inr x \<and> f x = Inl e))"
  by (cases r) auto

lemma rbind_InrE:
  assumes "rbind r f = Inr y"
  obtains x where "r = Inr x" and "f x = Inr y"
  using assms by (auto simp: rbind_eq_Inr)

lemma rbind_assoc: "rbind (rbind r f) g = rbind r (\<lambda>x. rbind (f x) g)"
  by (cases r) auto

lemma rbind_Inr_right [simp]: "rbind r Inr = r"
  by (cases r) auto

lemma is_ok_simps [simp]: "is_ok (Inr x)" "\<not> is_ok (Inl e)"
  by (simp_all add: is_ok_def)

lemma is_ok_iff: "is_ok r = (\<exists>x. r = Inr x)"
  by (cases r) auto

lemma rmap_length: "rmap f xs = Inr ys \<Longrightarrow> length ys = length xs"
  by (induction xs arbitrary: ys) (auto simp: rbind_eq_Inr)

lemma rmap_append:
  "rmap f (xs @ ys) = rbind (rmap f xs) (\<lambda>us. rbind (rmap f ys) (\<lambda>vs. Inr (us @ vs)))"
  by (induction xs) (auto simp: rbind_assoc split: sum.splits simp: rbind_def)

lemma rfold_append: "rfold f s (xs @ ys) = rbind (rfold f s xs) (\<lambda>s'. rfold f s' ys)"
  by (induction xs arbitrary: s) (auto simp: rbind_assoc)

lemma rmap_map: "rmap f (map g xs) = rmap (\<lambda>x. f (g x)) xs"
  by (induction xs) auto

lemma rmap_cong [fundef_cong]:
  "xs = ys \<Longrightarrow> (\<And>x. x \<in> set ys \<Longrightarrow> f x = g x) \<Longrightarrow> rmap f xs = rmap g ys"
  by (induction ys arbitrary: xs) auto

lemma rmap_Inr_map: "rmap f xs = Inr ys \<Longrightarrow> (\<And>x y. f x = Inr y \<Longrightarrow> g x = y) \<Longrightarrow> ys = map g xs"
  by (induction xs arbitrary: ys) (auto simp: rbind_eq_Inr)

lemma rmap_pure: "(\<And>x. x \<in> set xs \<Longrightarrow> f x = Inr (g x)) \<Longrightarrow> rmap f xs = Inr (map g xs)"
  by (induction xs) auto

lemma rmap_nth: "rmap f xs = Inr ys \<Longrightarrow> k < length xs \<Longrightarrow> f (xs ! k) = Inr (ys ! k)"
  by (induction xs arbitrary: ys k) (auto simp: rbind_eq_Inr nth_Cons split: nat.splits)

lemma is_ok_rmap: "is_ok (rmap f xs) \<longleftrightarrow> (\<forall>x \<in> set xs. is_ok (f x))"
  by (induction xs) (auto simp: is_ok_iff rbind_eq_Inr)

lemma rmap_rbind:
  assumes "is_ok (rmap f xs)"
  shows "rbind (rmap f xs) (rmap g) = rmap (\<lambda>x. rbind (f x) g) xs"
  using assms by (induction xs) (auto simp: rbind_assoc rbind_def is_ok_def split: sum.splits)

lemma distinct_map_nth_inj:
  "distinct (map f xs) \<Longrightarrow> i < length xs \<Longrightarrow> j < length xs \<Longrightarrow> f (xs ! i) = f (xs ! j) \<Longrightarrow> i = j"
  by (metis length_map nth_eq_iff_index_eq nth_map)

section \<open>Facts about row ranges\<close>

lemma slice_of_concat:
  "k < length xss \<Longrightarrow> slice_rows (length (concat (take k xss))) (length (xss ! k)) (concat xss) = xss ! k"
proof (induction xss arbitrary: k)
  case (Cons xs xss)
  then show ?case by (cases k) (auto simp: slice_rows_def)
qed simp

lemma slice_rows_0 [simp, slice_simps]: "slice_rows 0 n xs = take n xs"
  by (simp add: slice_rows_def)

lemma slice_rows_all [simp, slice_simps]: "length xs \<le> n \<Longrightarrow> slice_rows 0 n xs = xs"
  by (simp add: slice_rows_def)

lemma slice_rows_length [slice_simps]:
  "off + len \<le> length xs \<Longrightarrow> length (slice_rows off len xs) = len"
  by (simp add: slice_rows_def)

lemma slice_rows_append_right [slice_simps]:
  "off = length xs \<Longrightarrow> slice_rows off len (xs @ ys) = take len ys"
  by (simp add: slice_rows_def)

lemma slice_rows_append_left [slice_simps]:
  "off + len \<le> length xs \<Longrightarrow> slice_rows off len (xs @ ys) = slice_rows off len xs"
  by (simp add: slice_rows_def)

end
