(* ===== verification/Naming.thy ===== *)
theory Naming
  imports Penca_Prelude
begin

text \<open>
  Identities and names (\<open>penca-core/src/naming\<close>): the deterministic UUIDs derived
  by hashing NUL-joined parts, the Postgres relation names built from them, and
  the URIs of cold files.  A UUID is its canonical hyphenated text; the hash
  (\<open>xxh3_128\<close> rendered as a UUID) is the parameter \<open>h\<close>.
\<close>

type_synonym uuid = string
type_synonym hash_fn = "string \<Rightarrow> uuid"

section \<open>Rendering\<close>

definition nul :: char where "nul = CHR 0x00"

fun join_nul :: "string list \<Rightarrow> string" where
  "join_nul [] = []"
| "join_nul [p] = p"
| "join_nul (p # q # ps) = p @ [nul] @ join_nul (q # ps)"

fun show_nat :: "nat \<Rightarrow> string" where
  "show_nat n = (if n < 10 then [char_of (48 + n)] else show_nat (n div 10) @ [char_of (48 + n mod 10)])"

declare show_nat.simps [simp del]

definition show_int :: "int \<Rightarrow> string" where
  "show_int i = (if i < 0 then CHR ''-'' # show_nat (nat (- i)) else show_nat (nat i))"

datatype log_kind = UpsertLog | DeleteLog

fun log_kind_as_str :: "log_kind \<Rightarrow> string" where
  "log_kind_as_str UpsertLog = ''upsert_log''"
| "log_kind_as_str DeleteLog = ''delete_log''"

section \<open>Deterministic UUIDs\<close>

definition deterministic_uuid_from :: "hash_fn \<Rightarrow> string list \<Rightarrow> uuid" where
  "deterministic_uuid_from h parts = h (join_nul parts)"

definition row_uuid_for_pk :: "hash_fn \<Rightarrow> uuid \<Rightarrow> string list \<Rightarrow> uuid" where
  "row_uuid_for_pk h table_uuid pk_values = deterministic_uuid_from h (table_uuid # pk_values)"

definition version_uuid :: "hash_fn \<Rightarrow> uuid \<Rightarrow> uuid \<Rightarrow> uuid" where
  "version_uuid h row_uuid tx_uuid = deterministic_uuid_from h [row_uuid, tx_uuid]"

definition genesis_tx_uuid :: "hash_fn \<Rightarrow> uuid \<Rightarrow> uuid" where
  "genesis_tx_uuid h catalog_uuid = deterministic_uuid_from h [catalog_uuid]"

definition SYSTEM_SCHEMA_NAME :: string where "SYSTEM_SCHEMA_NAME = ''__penca_system__''"

definition system_schema_uuid :: "hash_fn \<Rightarrow> uuid \<Rightarrow> uuid" where
  "system_schema_uuid h catalog_uuid = deterministic_uuid_from h [catalog_uuid, SYSTEM_SCHEMA_NAME]"

definition system_schemas_table_uuid :: "hash_fn \<Rightarrow> uuid \<Rightarrow> uuid" where
  "system_schemas_table_uuid h catalog_uuid =
     deterministic_uuid_from h [catalog_uuid, ''__penca_system__.schemas'']"

definition system_tables_table_uuid :: "hash_fn \<Rightarrow> uuid \<Rightarrow> uuid" where
  "system_tables_table_uuid h catalog_uuid =
     deterministic_uuid_from h [catalog_uuid, ''__penca_system__.tables'']"

definition system_indexes_table_uuid :: "hash_fn \<Rightarrow> uuid \<Rightarrow> uuid" where
  "system_indexes_table_uuid h catalog_uuid =
     deterministic_uuid_from h [catalog_uuid, ''__penca_system__.indexes'']"

definition system_name_index_uuid :: "hash_fn \<Rightarrow> uuid \<Rightarrow> uuid" where
  "system_name_index_uuid h system_table_uuid = row_uuid_for_pk h system_table_uuid [''name_index'']"

definition table_persist_uuid :: "hash_fn \<Rightarrow> uuid \<Rightarrow> uuid \<Rightarrow> uuid \<Rightarrow> int \<Rightarrow> log_kind \<Rightarrow> uuid" where
  "table_persist_uuid h catalog_uuid branch_uuid table_uuid persisted_at_micros kind =
     row_uuid_for_pk h catalog_uuid
       [branch_uuid, table_uuid, show_int persisted_at_micros, log_kind_as_str kind]"

definition table_purge_uuid :: "hash_fn \<Rightarrow> uuid \<Rightarrow> uuid \<Rightarrow> uuid \<Rightarrow> int \<Rightarrow> int \<Rightarrow> uuid" where
  "table_purge_uuid h catalog_uuid branch_uuid table_uuid pu_seq pa_seq =
     (let purge_anchor = deterministic_uuid_from h [catalog_uuid, ''purge''] in
      row_uuid_for_pk h purge_anchor [branch_uuid, table_uuid, show_int pu_seq, show_int pa_seq])"

definition table_persist_segment_uuid :: "hash_fn \<Rightarrow> uuid \<Rightarrow> nat \<Rightarrow> uuid" where
  "table_persist_segment_uuid h persist_uuid chunk_idx = row_uuid_for_pk h persist_uuid [show_nat chunk_idx]"

definition tx_log_persist_segment_uuid :: "hash_fn \<Rightarrow> uuid \<Rightarrow> uuid \<Rightarrow> int \<Rightarrow> uuid" where
  "tx_log_persist_segment_uuid h catalog_uuid branch_uuid max_commit_seq_num =
     (let anchor = deterministic_uuid_from h [catalog_uuid, ''tx_log_persist''] in
      row_uuid_for_pk h anchor [branch_uuid, show_int max_commit_seq_num])"

definition table_snapshot_uuid :: "hash_fn \<Rightarrow> uuid \<Rightarrow> uuid \<Rightarrow> uuid \<Rightarrow> int \<Rightarrow> uuid" where
  "table_snapshot_uuid h catalog_uuid branch_uuid table_uuid snapshotted_at_micros =
     row_uuid_for_pk h catalog_uuid [branch_uuid, table_uuid, show_int snapshotted_at_micros]"

definition table_snapshot_segment_uuid :: "hash_fn \<Rightarrow> uuid \<Rightarrow> nat \<Rightarrow> uuid" where
  "table_snapshot_segment_uuid h snapshot_uuid chunk_idx = row_uuid_for_pk h snapshot_uuid [show_nat chunk_idx]"

definition table_snapshot_index_uuid :: "hash_fn \<Rightarrow> uuid \<Rightarrow> uuid option \<Rightarrow> uuid" where
  "table_snapshot_index_uuid h snapshot_uuid index_uuid =
     row_uuid_for_pk h snapshot_uuid [case index_uuid of Some u \<Rightarrow> u | None \<Rightarrow> ''row_uuid'']"

record system_name_index =
  sni_index_uuid :: uuid
  sni_key_columns :: "string list"

definition system_name_index_spec :: "hash_fn \<Rightarrow> uuid \<Rightarrow> uuid \<Rightarrow> system_name_index option" where
  "system_name_index_spec h catalog_uuid table_uuid =
     (let with_keys = (\<lambda>ks. Some \<lparr>sni_index_uuid = system_name_index_uuid h table_uuid,
                                    sni_key_columns = ks\<rparr>) in
      if table_uuid = system_schemas_table_uuid h catalog_uuid then with_keys [''schema_name'']
      else if table_uuid = system_tables_table_uuid h catalog_uuid
        then with_keys [''schema_uuid'', ''table_name'']
      else if table_uuid = system_indexes_table_uuid h catalog_uuid
        then with_keys [''table_uuid'', ''index_name'']
      else None)"

section \<open>Relation names\<close>

text \<open>The fixed suffixes of the per-catalog relations, one per \<open>*_table\<close> helper, and
  those of the per-branch partitions, one per \<open>*_partition\<close> helper.\<close>

datatype catalog_relation =
    BranchStore | BeginTxLog | AbortTxLog | CommitTxLog | TxTableLog | CommitTxLogSeqNum | AbortSeqNum
  | TablePersistMetadata | TablePersistSegmentMetadata | TxLogPersistSegmentMetadata
  | TablePurgeMetadata | TableSnapshotMetadata | TableSnapshotSegmentMetadata
  | CompactSegmentMetadata | SegmentDeleteSet
  | TableSnapshotIndexMetadata | TableSnapshotSegmentIndexMetadata

fun relation_suffix :: "catalog_relation \<Rightarrow> string" where
  "relation_suffix BranchStore = ''branch_store''"
| "relation_suffix BeginTxLog = ''begin_tx_log''"
| "relation_suffix AbortTxLog = ''abort_tx_log''"
| "relation_suffix CommitTxLog = ''commit_tx_log''"
| "relation_suffix TxTableLog = ''tx_table_log''"
| "relation_suffix CommitTxLogSeqNum = ''commit_tx_log_seq_num''"
| "relation_suffix AbortSeqNum = ''abort_seq_num''"
| "relation_suffix TablePersistMetadata = ''table_persist_metadata''"
| "relation_suffix TablePersistSegmentMetadata = ''table_persist_segment_metadata''"
| "relation_suffix TxLogPersistSegmentMetadata = ''tx_log_persist_segment_metadata''"
| "relation_suffix TablePurgeMetadata = ''table_purge_metadata''"
| "relation_suffix TableSnapshotMetadata = ''table_snapshot_metadata''"
| "relation_suffix TableSnapshotSegmentMetadata = ''table_snapshot_segment_metadata''"
| "relation_suffix CompactSegmentMetadata = ''compact_segment_metadata''"
| "relation_suffix SegmentDeleteSet = ''segment_delete_set''"
| "relation_suffix TableSnapshotIndexMetadata = ''table_snapshot_index_metadata''"
| "relation_suffix TableSnapshotSegmentIndexMetadata = ''table_snapshot_segment_index_metadata''"

definition relation_table :: "catalog_relation \<Rightarrow> uuid \<Rightarrow> string" where
  "relation_table r catalog_uuid = catalog_uuid @ ''_'' @ relation_suffix r"

definition partition_name :: "hash_fn \<Rightarrow> uuid \<Rightarrow> uuid \<Rightarrow> string \<Rightarrow> string" where
  "partition_name h catalog_uuid branch_uuid tag =
     (let partition_uuid = row_uuid_for_pk h catalog_uuid [branch_uuid, tag] in
      partition_uuid @ ''_'' @ tag @ ''_partition'')"

definition data_object_prefix :: "hash_fn \<Rightarrow> uuid \<Rightarrow> uuid \<Rightarrow> uuid" where
  "data_object_prefix h table_uuid branch_uuid = row_uuid_for_pk h table_uuid [branch_uuid]"

definition data_log_table :: "hash_fn \<Rightarrow> uuid \<Rightarrow> uuid \<Rightarrow> log_kind \<Rightarrow> string" where
  "data_log_table h table_uuid branch_uuid kind =
     data_object_prefix h table_uuid branch_uuid @ ''_data_'' @ log_kind_as_str kind"

definition upsert_log_table :: "hash_fn \<Rightarrow> uuid \<Rightarrow> uuid \<Rightarrow> string" where
  "upsert_log_table h table_uuid branch_uuid = data_log_table h table_uuid branch_uuid UpsertLog"

definition delete_log_table :: "hash_fn \<Rightarrow> uuid \<Rightarrow> uuid \<Rightarrow> string" where
  "delete_log_table h table_uuid branch_uuid = data_log_table h table_uuid branch_uuid DeleteLog"

definition write_sequence :: "hash_fn \<Rightarrow> uuid \<Rightarrow> uuid \<Rightarrow> string" where
  "write_sequence h table_uuid branch_uuid = data_object_prefix h table_uuid branch_uuid @ ''_data_write_seq''"

section \<open>URIs of cold files\<close>

definition segment_uri :: "string \<Rightarrow> uuid \<Rightarrow> uuid \<Rightarrow> string \<Rightarrow> uuid \<Rightarrow> uuid \<Rightarrow> string \<Rightarrow> string" where
  "segment_uri base catalog_uuid branch_uuid kind parent_uuid segment_uuid extension =
     base @ ''/'' @ catalog_uuid @ ''/'' @ branch_uuid @ ''/'' @ kind @ ''/'' @ parent_uuid @ ''/'' @
     segment_uuid @ ''/data.'' @ extension"

definition persist_segment_uri :: "string \<Rightarrow> uuid \<Rightarrow> uuid \<Rightarrow> uuid \<Rightarrow> uuid \<Rightarrow> string \<Rightarrow> string" where
  "persist_segment_uri base catalog_uuid branch_uuid persist_uuid seg_uuid extension =
     segment_uri base catalog_uuid branch_uuid ''persist'' persist_uuid seg_uuid extension"

definition tx_log_persist_segment_uri :: "string \<Rightarrow> uuid \<Rightarrow> uuid \<Rightarrow> uuid \<Rightarrow> string \<Rightarrow> string" where
  "tx_log_persist_segment_uri base catalog_uuid branch_uuid seg_uuid extension =
     base @ ''/'' @ catalog_uuid @ ''/'' @ branch_uuid @ ''/tx_log/'' @ seg_uuid @ ''/data.'' @ extension"

definition snapshot_segment_uri :: "string \<Rightarrow> uuid \<Rightarrow> uuid \<Rightarrow> uuid \<Rightarrow> uuid \<Rightarrow> string \<Rightarrow> string" where
  "snapshot_segment_uri base catalog_uuid branch_uuid snapshot_uuid seg_uuid extension =
     segment_uri base catalog_uuid branch_uuid ''snapshot'' snapshot_uuid seg_uuid extension"

definition segment_index_uri :: "string \<Rightarrow> uuid \<Rightarrow> uuid \<Rightarrow> uuid \<Rightarrow> uuid \<Rightarrow> string \<Rightarrow> string \<Rightarrow> string" where
  "segment_index_uri base catalog_uuid branch_uuid snapshot_uuid seg_uuid slug extension =
     base @ ''/'' @ catalog_uuid @ ''/'' @ branch_uuid @ ''/snapshot/'' @ snapshot_uuid @ ''/'' @
     seg_uuid @ ''/idx_'' @ slug @ ''.'' @ extension"

text \<open>The partition of a relation for a branch, for the relations that have one, and
  Postgres' truncation of identifiers to 63 bytes.\<close>

definition relation_partition :: "hash_fn \<Rightarrow> catalog_relation \<Rightarrow> uuid \<Rightarrow> uuid \<Rightarrow> string" where
  "relation_partition h r catalog_uuid branch_uuid = partition_name h catalog_uuid branch_uuid (relation_suffix r)"

definition pg_identifier :: "string \<Rightarrow> string" where
  "pg_identifier name = take 63 name"

section \<open>Injectivity of the renderings\<close>

definition uuid_chars :: "char list" where "uuid_chars = ''0123456789abcdef-''"

definition wf_uuid :: "uuid \<Rightarrow> bool" where
  "wf_uuid u = (length u = 36 \<and> list_all (\<lambda>c. c \<in> set uuid_chars) u)"

lemma wf_uuid_length [simp]: "wf_uuid u \<Longrightarrow> length u = 36"
  by (simp add: wf_uuid_def)

lemma not_uuid_chars: "nul \<notin> set uuid_chars" "CHR ''_'' \<notin> set uuid_chars"
  by (simp_all add: uuid_chars_def nul_def)

lemma wf_uuid_nul: "wf_uuid u \<Longrightarrow> nul \<notin> set u"
  using not_uuid_chars(1) by (auto simp: wf_uuid_def list_all_iff)

lemma join_nul_Cons: "ps \<noteq> [] \<Longrightarrow> join_nul (p # ps) = p @ nul # join_nul ps"
  by (cases ps) auto

lemma split_at_nul:
  "nul \<notin> set p \<Longrightarrow> nul \<notin> set q \<Longrightarrow> p @ nul # xs = q @ nul # ys \<longleftrightarrow> p = q \<and> xs = ys"
proof (induction p arbitrary: q)
  case Nil
  then show ?case by (cases q) auto
next
  case (Cons c p)
  then show ?case by (cases q) auto
qed

lemma join_nul_inject:
  assumes "ps \<noteq> []" "qs \<noteq> []"
    and "\<forall>p \<in> set ps. nul \<notin> set p" "\<forall>q \<in> set qs. nul \<notin> set q"
  shows "join_nul ps = join_nul qs \<longleftrightarrow> ps = qs"
  using assms
proof (induction ps arbitrary: qs rule: join_nul.induct)
  case (2 p)
  then show ?case by (cases qs rule: join_nul.cases) auto
next
  case (3 p p' ps)
  then show ?case
    by (cases qs rule: join_nul.cases) (auto simp: split_at_nul)
qed simp

lemma digit_char:
  assumes "(d :: nat) < 10"
  shows "(char_of (48 + d) :: char) \<in> set ''0123456789''"
proof -
  have "d = 0 \<or> d = 1 \<or> d = 2 \<or> d = 3 \<or> d = 4 \<or> d = 5 \<or> d = 6 \<or> d = 7 \<or> d = 8 \<or> d = 9"
    using assms by arith
  then show ?thesis by (elim disjE) (simp_all add: char_of_def bit_Suc_0_iff)
qed

lemma digit_char_inject:
  assumes "(d :: nat) < 10" "e < 10" "(char_of (48 + d) :: char) = char_of (48 + e)"
  shows "d = e"
proof -
  have "of_char (char_of (48 + d) :: char) = (of_char (char_of (48 + e) :: char) :: nat)"
    using assms(3) by simp
  then show ?thesis using assms by simp
qed

lemma show_nat_digits: "set (show_nat n) \<subseteq> set ''0123456789''"
proof (induction n rule: show_nat.induct)
  case (1 n)
  then show ?case
    using digit_char[of n] digit_char[of "n mod 10"] by (subst show_nat.simps) auto
qed

lemma show_nat_nonempty [simp]: "show_nat n \<noteq> []"
  by (subst show_nat.simps) simp

lemma show_nat_inject [simp]: "show_nat m = show_nat n \<longleftrightarrow> m = n"
proof (induction m arbitrary: n rule: show_nat.induct)
  case (1 m)
  have short: "show_nat k = [char_of (48 + k)]" if "k < 10" for k
    using that by (subst show_nat.simps) simp
  have long: "show_nat k = show_nat (k div 10) @ [char_of (48 + k mod 10)]" if "\<not> k < 10" for k
    using that by (subst show_nat.simps) simp
  consider "m < 10" "n < 10" | "m < 10" "\<not> n < 10" | "\<not> m < 10" "n < 10" | "\<not> m < 10" "\<not> n < 10"
    by blast
  then show ?case
  proof cases
    case 4
    have "show_nat m = show_nat n \<longleftrightarrow> m div 10 = n div 10 \<and> m mod 10 = n mod 10"
      unfolding long[OF 4(1)] long[OF 4(2)]
      using 1[OF 4(1), of "n div 10"] digit_char_inject[of "m mod 10" "n mod 10"] by auto
    then show ?thesis using div_mult_mod_eq[of m 10] div_mult_mod_eq[of n 10] by metis
  next
    case 1
    then show ?thesis using digit_char_inject[of m n] by (auto simp: short)
  next
    case 2
    then have "length (show_nat m) \<noteq> length (show_nat n)"
      unfolding short[OF 2(1)] long[OF 2(2)] by simp
    then show ?thesis using 2 by auto
  next
    case 3
    then have "length (show_nat m) \<noteq> length (show_nat n)"
      unfolding short[OF 3(2)] long[OF 3(1)] by simp
    then show ?thesis using 3 by auto
  qed
qed

lemma show_nat_nul: "nul \<notin> set (show_nat n)"
  using show_nat_digits[of n] by (auto simp: nul_def)

lemma show_int_nul: "nul \<notin> set (show_int i)"
  using show_nat_nul by (auto simp: show_int_def nul_def)

lemma show_nat_no_sign: "show_nat n \<noteq> CHR ''-'' # xs"
  using show_nat_digits[of n] by auto

lemma show_int_inject [simp]: "show_int i = show_int j \<longleftrightarrow> i = j"
  using show_nat_no_sign[of "nat i" "show_nat (nat (- j))"] show_nat_no_sign[of "nat j" "show_nat (nat (- i))"]
  by (auto simp: show_int_def)

lemma log_kind_as_str_inject [simp]: "log_kind_as_str k = log_kind_as_str k' \<longleftrightarrow> k = k'"
  by (cases k; cases k') auto

lemma log_kind_as_str_nul: "nul \<notin> set (log_kind_as_str k)"
  by (cases k) (auto simp: nul_def)

lemma relation_suffix_nul: "nul \<notin> set (relation_suffix r)"
  by (cases r) (auto simp: nul_def)

definition all_relations :: "catalog_relation list" where
  "all_relations =
     [BranchStore, BeginTxLog, AbortTxLog, CommitTxLog, TxTableLog, CommitTxLogSeqNum, AbortSeqNum,
      TablePersistMetadata, TablePersistSegmentMetadata, TxLogPersistSegmentMetadata,
      TablePurgeMetadata, TableSnapshotMetadata, TableSnapshotSegmentMetadata,
      CompactSegmentMetadata, SegmentDeleteSet,
      TableSnapshotIndexMetadata, TableSnapshotSegmentIndexMetadata]"

lemma all_relations_set: "r \<in> set all_relations"
  by (cases r) (simp_all add: all_relations_def)

lemma distinct_truncated: "distinct (map (\<lambda>r. take 26 (relation_suffix r)) all_relations)"
  by code_simp

lemma relation_suffix_26_inject:
  "take 26 (relation_suffix r) = take 26 (relation_suffix r') \<longleftrightarrow> r = r'"
  using distinct_truncated all_relations_set by (auto simp: distinct_map dest: inj_onD)

section \<open>The catalog-rooted identities\<close>

datatype catalog_id =
    GenesisTx
  | SystemSchema | SystemSchemasTable | SystemTablesTable | SystemIndexesTable
  | PurgeAnchor | TxLogPersistAnchor
  | PartitionOf catalog_relation uuid
  | TableSnapshot uuid uuid int
  | TablePersist uuid uuid int log_kind

fun catalog_id_uuid :: "hash_fn \<Rightarrow> uuid \<Rightarrow> catalog_id \<Rightarrow> uuid" where
  "catalog_id_uuid h c GenesisTx = genesis_tx_uuid h c"
| "catalog_id_uuid h c SystemSchema = system_schema_uuid h c"
| "catalog_id_uuid h c SystemSchemasTable = system_schemas_table_uuid h c"
| "catalog_id_uuid h c SystemTablesTable = system_tables_table_uuid h c"
| "catalog_id_uuid h c SystemIndexesTable = system_indexes_table_uuid h c"
| "catalog_id_uuid h c PurgeAnchor = deterministic_uuid_from h [c, ''purge'']"
| "catalog_id_uuid h c TxLogPersistAnchor = deterministic_uuid_from h [c, ''tx_log_persist'']"
| "catalog_id_uuid h c (PartitionOf r b) = row_uuid_for_pk h c [b, relation_suffix r]"
| "catalog_id_uuid h c (TableSnapshot b t at) = table_snapshot_uuid h c b t at"
| "catalog_id_uuid h c (TablePersist b t at k) = table_persist_uuid h c b t at k"

fun catalog_id_parts :: "uuid \<Rightarrow> catalog_id \<Rightarrow> string list" where
  "catalog_id_parts c GenesisTx = [c]"
| "catalog_id_parts c SystemSchema = [c, SYSTEM_SCHEMA_NAME]"
| "catalog_id_parts c SystemSchemasTable = [c, ''__penca_system__.schemas'']"
| "catalog_id_parts c SystemTablesTable = [c, ''__penca_system__.tables'']"
| "catalog_id_parts c SystemIndexesTable = [c, ''__penca_system__.indexes'']"
| "catalog_id_parts c PurgeAnchor = [c, ''purge'']"
| "catalog_id_parts c TxLogPersistAnchor = [c, ''tx_log_persist'']"
| "catalog_id_parts c (PartitionOf r b) = [c, b, relation_suffix r]"
| "catalog_id_parts c (TableSnapshot b t at) = [c, b, t, show_int at]"
| "catalog_id_parts c (TablePersist b t at k) = [c, b, t, show_int at, log_kind_as_str k]"

fun wf_catalog_id :: "catalog_id \<Rightarrow> bool" where
  "wf_catalog_id (PartitionOf r b) = wf_uuid b"
| "wf_catalog_id (TableSnapshot b t at) = (wf_uuid b \<and> wf_uuid t)"
| "wf_catalog_id (TablePersist b t at k) = (wf_uuid b \<and> wf_uuid t)"
| "wf_catalog_id _ = True"

lemma catalog_id_uuid_parts: "catalog_id_uuid h c i = h (join_nul (catalog_id_parts c i))"
  by (cases i)
     (simp_all add: deterministic_uuid_from_def row_uuid_for_pk_def genesis_tx_uuid_def
       system_schema_uuid_def system_schemas_table_uuid_def system_tables_table_uuid_def
       system_indexes_table_uuid_def table_snapshot_uuid_def table_persist_uuid_def)

lemma catalog_id_parts_nul:
  assumes "wf_uuid c" "wf_catalog_id i"
  shows "\<forall>p \<in> set (catalog_id_parts c i). nul \<notin> set p"
  using assms
  by (cases i) (auto simp: wf_uuid_nul show_int_nul log_kind_as_str_nul relation_suffix_nul
      SYSTEM_SCHEMA_NAME_def, simp_all add: nul_def)

lemma catalog_id_parts_inject: "catalog_id_parts c i = catalog_id_parts c' i' \<longleftrightarrow> c = c' \<and> i = i'"
proof -
  have suffix: "relation_suffix r = relation_suffix r' \<longleftrightarrow> r = r'" for r r'
    using relation_suffix_26_inject[of r r'] by metis
  show ?thesis
    by (cases i; cases i') (auto simp: suffix SYSTEM_SCHEMA_NAME_def)
qed

lemma relation_table_truncated:
  assumes "wf_uuid c"
  shows "pg_identifier (relation_table r c) = c @ CHR ''_'' # take 26 (relation_suffix r)"
  using assms by (simp add: pg_identifier_def relation_table_def)

section \<open>Properties\<close>

text \<open>C16: the identities rooted at a catalog never alias.  Two of them (genesis
  transaction, system anchors, purge and transaction-log anchors, partitions,
  snapshots, persists), of the same or of different catalogs, get the same UUID
  only when they are the same identity, provided the hash does not collide on the
  two byte strings that are hashed for them.\<close>

theorem catalog_identities_disjoint:
  assumes "wf_uuid c" "wf_uuid c'" "wf_catalog_id i" "wf_catalog_id i'"
    and "inj_on h {join_nul (catalog_id_parts c i), join_nul (catalog_id_parts c' i')}"
  shows "catalog_id_uuid h c i = catalog_id_uuid h c' i' \<longleftrightarrow> c = c' \<and> i = i'"
proof -
  have ne: "catalog_id_parts d j \<noteq> []" for d j by (cases j) auto
  have "catalog_id_uuid h c i = catalog_id_uuid h c' i' \<longleftrightarrow>
        join_nul (catalog_id_parts c i) = join_nul (catalog_id_parts c' i')"
    unfolding catalog_id_uuid_parts by (rule inj_on_eq_iff[OF assms(5)]) blast+
  also have "\<dots> \<longleftrightarrow> catalog_id_parts c i = catalog_id_parts c' i'"
    using assms by (intro join_nul_inject ne catalog_id_parts_nul)
  finally show ?thesis by (simp add: catalog_id_parts_inject)
qed


text \<open>C18: under one base URI, the files of persist segments, transaction-log
  segments, snapshot segments and index sidecars never share a URI, and a persist or
  snapshot segment URI determines the catalog, branch, parent and segment it was
  built from.\<close>

theorem cold_uris_distinct:
  assumes "wf_uuid c" "wf_uuid b" "wf_uuid p" "wf_uuid s"
    and "wf_uuid c'" "wf_uuid b'" "wf_uuid p'" "wf_uuid s'"
  shows "(persist_segment_uri base c b p s e = persist_segment_uri base c' b' p' s' e' \<longleftrightarrow>
            (c, b, p, s, e) = (c', b', p', s', e')) \<and>
    (snapshot_segment_uri base c b p s e = snapshot_segment_uri base c' b' p' s' e' \<longleftrightarrow>
            (c, b, p, s, e) = (c', b', p', s', e')) \<and>
    persist_segment_uri base c b p s e \<noteq> snapshot_segment_uri base c' b' p' s' e' \<and>
    persist_segment_uri base c b p s e \<noteq> tx_log_persist_segment_uri base c' b' s' e' \<and>
    snapshot_segment_uri base c b p s e \<noteq> tx_log_persist_segment_uri base c' b' s' e' \<and>
    snapshot_segment_uri base c b p s e \<noteq> segment_index_uri base c' b' p' s' slug e' \<and>
    persist_segment_uri base c b p s e \<noteq> segment_index_uri base c' b' p' s' slug e'"
  using assms
  by (simp add: persist_segment_uri_def snapshot_segment_uri_def segment_uri_def
      tx_log_persist_segment_uri_def segment_index_uri_def append_eq_append_conv)

definition sample_uuid :: uuid where
  "sample_uuid = ''da79b0ca-d629-3c2d-ef98-a384b6fe9900''"

definition sample_uuid2 :: uuid where
  "sample_uuid2 = ''a7521c7f-adb4-0b78-8c9d-da7897469f17''"

lemma sample_uuids_wf: "wf_uuid sample_uuid" "wf_uuid sample_uuid2"
  by code_simp+

theorem catalog_identities_disjoint_witness:
  "catalog_id_uuid id sample_uuid (TableSnapshot sample_uuid2 sample_uuid2 5) \<noteq>
   catalog_id_uuid id sample_uuid (TablePersist sample_uuid2 sample_uuid2 5 UpsertLog)"
  using catalog_identities_disjoint[of sample_uuid sample_uuid
      "TableSnapshot sample_uuid2 sample_uuid2 5" "TablePersist sample_uuid2 sample_uuid2 5 UpsertLog" id]
    sample_uuids_wf by simp


theorem cold_uris_distinct_witness:
  "persist_segment_uri ''s3://b'' sample_uuid sample_uuid sample_uuid sample_uuid ''parquet'' \<noteq>
   snapshot_segment_uri ''s3://b'' sample_uuid sample_uuid sample_uuid sample_uuid ''parquet''"
  using cold_uris_distinct[OF sample_uuids_wf(1) sample_uuids_wf(1) sample_uuids_wf(1) sample_uuids_wf(1)
      sample_uuids_wf(1) sample_uuids_wf(1) sample_uuids_wf(1) sample_uuids_wf(1)] by simp

end
