(* ===== verification/Canonical_Types.thy ===== *)
theory Canonical_Types
  imports Penca_Prelude
begin

text \<open>
  The canonical column types (\<open>penca-core/src/types/mod.rs\<close>): the gate from
  Arrow's \<open>DataType\<close> into the supported set, its inverse, and the
  classification the chunker and the segment statistics dispatch on.  Arrow's
  \<open>DataType\<close> is represented by the variants the source names; every other
  variant is \<open>DtOther\<close> with its name.
\<close>

datatype time_unit = Second | Millisecond | Microsecond | Nanosecond

datatype data_type =
    DtInt8 | DtInt16 | DtInt32 | DtInt64
  | DtUInt8 | DtUInt16 | DtUInt32 | DtUInt64
  | DtFloat16 | DtFloat32 | DtFloat64
  | DtBoolean
  | DtUtf8 | DtLargeUtf8 | DtUtf8View
  | DtBinary | DtLargeBinary | DtBinaryView
  | DtDecimal128 nat int
  | DtDecimal256 nat int
  | DtDate32 | DtDate64
  | DtTime32 time_unit | DtTime64 time_unit
  | DtTimestamp time_unit "string option"
  | DtList afield
  | DtLargeList afield
  | DtFixedSizeList afield int
  | DtOther string
and afield = AField (field_name: string) (field_type: data_type) (field_nullable: bool)

datatype canonical_type =
    CInt8 | CInt16 | CInt32 | CInt64
  | CUInt8 | CUInt16 | CUInt32 | CUInt64
  | CFloat16 | CFloat32 | CFloat64
  | CBoolean
  | CUtf8 | CLargeUtf8 | CUtf8View
  | CBinary | CLargeBinary | CBinaryView
  | CDecimal128 (precision128: nat) (scale128: int)
  | CDecimal256 (precision256: nat) (scale256: int)
  | CDate32 | CDate64
  | CTime32 time_unit | CTime64 time_unit
  | CTimestamp time_unit "string option"
  | CList canonical_type
  | CLargeList canonical_type
  | CFixedSizeList canonical_type int

datatype unsupported_type = UnsupportedType data_type

fun is_scalar :: "canonical_type \<Rightarrow> bool" where
  "is_scalar (CList _) = False"
| "is_scalar (CLargeList _) = False"
| "is_scalar (CFixedSizeList _ _) = False"
| "is_scalar _ = True"

fun from_arrow :: "data_type \<Rightarrow> unsupported_type + canonical_type"
  and scalar_child :: "afield \<Rightarrow> data_type \<Rightarrow> unsupported_type + canonical_type" where
  "from_arrow DtInt8 = Inr CInt8"
| "from_arrow DtInt16 = Inr CInt16"
| "from_arrow DtInt32 = Inr CInt32"
| "from_arrow DtInt64 = Inr CInt64"
| "from_arrow DtUInt8 = Inr CUInt8"
| "from_arrow DtUInt16 = Inr CUInt16"
| "from_arrow DtUInt32 = Inr CUInt32"
| "from_arrow DtUInt64 = Inr CUInt64"
| "from_arrow DtFloat16 = Inr CFloat16"
| "from_arrow DtFloat32 = Inr CFloat32"
| "from_arrow DtFloat64 = Inr CFloat64"
| "from_arrow DtBoolean = Inr CBoolean"
| "from_arrow DtUtf8 = Inr CUtf8"
| "from_arrow DtLargeUtf8 = Inr CLargeUtf8"
| "from_arrow DtUtf8View = Inr CUtf8View"
| "from_arrow DtBinary = Inr CBinary"
| "from_arrow DtLargeBinary = Inr CLargeBinary"
| "from_arrow DtBinaryView = Inr CBinaryView"
| "from_arrow (DtDecimal128 p s) =
     (if 1 \<le> p \<and> p \<le> 38 then Inr (CDecimal128 p s) else Inl (UnsupportedType (DtDecimal128 p s)))"
| "from_arrow (DtDecimal256 p s) =
     (if 1 \<le> p \<and> p \<le> 76 then Inr (CDecimal256 p s) else Inl (UnsupportedType (DtDecimal256 p s)))"
| "from_arrow DtDate32 = Inr CDate32"
| "from_arrow DtDate64 = Inr CDate64"
| "from_arrow (DtTime32 u) = Inr (CTime32 u)"
| "from_arrow (DtTime64 u) = Inr (CTime64 u)"
| "from_arrow (DtTimestamp u tz) = Inr (CTimestamp u tz)"
| "from_arrow (DtList field) =
     rbind (scalar_child field (DtList field)) (\<lambda>c. Inr (CList c))"
| "from_arrow (DtLargeList field) =
     rbind (scalar_child field (DtLargeList field)) (\<lambda>c. Inr (CLargeList c))"
| "from_arrow (DtFixedSizeList field len) =
     rbind (scalar_child field (DtFixedSizeList field len)) (\<lambda>c. Inr (CFixedSizeList c len))"
| "from_arrow (DtOther n) = Inl (UnsupportedType (DtOther n))"
| "scalar_child (AField n t b) parent =
     (case from_arrow t of
        Inl _ \<Rightarrow> Inl (UnsupportedType parent)
      | Inr child \<Rightarrow> if \<not> is_scalar child then Inl (UnsupportedType parent) else Inr child)"

fun to_arrow :: "canonical_type \<Rightarrow> data_type" and item_field :: "canonical_type \<Rightarrow> afield" where
  "to_arrow CInt8 = DtInt8"
| "to_arrow CInt16 = DtInt16"
| "to_arrow CInt32 = DtInt32"
| "to_arrow CInt64 = DtInt64"
| "to_arrow CUInt8 = DtUInt8"
| "to_arrow CUInt16 = DtUInt16"
| "to_arrow CUInt32 = DtUInt32"
| "to_arrow CUInt64 = DtUInt64"
| "to_arrow CFloat16 = DtFloat16"
| "to_arrow CFloat32 = DtFloat32"
| "to_arrow CFloat64 = DtFloat64"
| "to_arrow CBoolean = DtBoolean"
| "to_arrow CUtf8 = DtUtf8"
| "to_arrow CLargeUtf8 = DtLargeUtf8"
| "to_arrow CUtf8View = DtUtf8View"
| "to_arrow CBinary = DtBinary"
| "to_arrow CLargeBinary = DtLargeBinary"
| "to_arrow CBinaryView = DtBinaryView"
| "to_arrow (CDecimal128 p s) = DtDecimal128 p s"
| "to_arrow (CDecimal256 p s) = DtDecimal256 p s"
| "to_arrow CDate32 = DtDate32"
| "to_arrow CDate64 = DtDate64"
| "to_arrow (CTime32 u) = DtTime32 u"
| "to_arrow (CTime64 u) = DtTime64 u"
| "to_arrow (CTimestamp u tz) = DtTimestamp u tz"
| "to_arrow (CList c) = DtList (item_field c)"
| "to_arrow (CLargeList c) = DtLargeList (item_field c)"
| "to_arrow (CFixedSizeList c len) = DtFixedSizeList (item_field c) len"
| "item_field c = AField ''item'' (to_arrow c) True"

fun is_prunable :: "canonical_type \<Rightarrow> bool" where
  "is_prunable CLargeUtf8 = False"
| "is_prunable CUtf8View = False"
| "is_prunable CBinary = False"
| "is_prunable CLargeBinary = False"
| "is_prunable CBinaryView = False"
| "is_prunable (CList _) = False"
| "is_prunable (CLargeList _) = False"
| "is_prunable (CFixedSizeList _ _) = False"
| "is_prunable _ = True"

fun fixed_width_payload :: "canonical_type \<Rightarrow> int option" where
  "fixed_width_payload CBoolean = Some 1"
| "fixed_width_payload CInt8 = Some 1"
| "fixed_width_payload CUInt8 = Some 1"
| "fixed_width_payload CInt16 = Some 2"
| "fixed_width_payload CUInt16 = Some 2"
| "fixed_width_payload CFloat16 = Some 2"
| "fixed_width_payload CInt32 = Some 4"
| "fixed_width_payload CUInt32 = Some 4"
| "fixed_width_payload CFloat32 = Some 4"
| "fixed_width_payload CDate32 = Some 4"
| "fixed_width_payload (CTime32 _) = Some 4"
| "fixed_width_payload CInt64 = Some 8"
| "fixed_width_payload CUInt64 = Some 8"
| "fixed_width_payload CFloat64 = Some 8"
| "fixed_width_payload CDate64 = Some 8"
| "fixed_width_payload (CTime64 _) = Some 8"
| "fixed_width_payload (CTimestamp _ _) = Some 8"
| "fixed_width_payload (CDecimal128 _ _) = Some 16"
| "fixed_width_payload (CDecimal256 _ _) = Some 32"
| "fixed_width_payload _ = None"

definition fixed_width_bytes :: "canonical_type \<Rightarrow> int option" where
  "fixed_width_bytes ct = map_option (\<lambda>payload. payload + 1) (fixed_width_payload ct)"

text \<open>The types the gate lets through: precisions in Arrow's range and no
  container below a container.\<close>

fun supported :: "canonical_type \<Rightarrow> bool" where
  "supported (CDecimal128 p s) = (1 \<le> p \<and> p \<le> 38)"
| "supported (CDecimal256 p s) = (1 \<le> p \<and> p \<le> 76)"
| "supported (CList c) = (is_scalar c \<and> supported c)"
| "supported (CLargeList c) = (is_scalar c \<and> supported c)"
| "supported (CFixedSizeList c len) = (is_scalar c \<and> supported c)"
| "supported _ = True"

section \<open>The gate\<close>

lemma scalar_child_eq_Inr:
  "scalar_child f p = Inr c \<longleftrightarrow> from_arrow (field_type f) = Inr c \<and> is_scalar c"
  by (cases f) (auto split: sum.splits if_splits)

lemma scalar_child_eq_Inl:
  "scalar_child f p = Inl e \<Longrightarrow> e = UnsupportedType p"
  by (cases f) (auto split: sum.splits if_splits)

lemma scalar_child_scalar: "scalar_child f p = Inr c \<Longrightarrow> is_scalar c"
  by (simp add: scalar_child_eq_Inr)

lemma from_arrow_supported:
  "from_arrow dt = Inr c \<Longrightarrow> supported c"
  "scalar_child f p = Inr c \<Longrightarrow> supported c"
  by (induction dt and f p arbitrary: c and c rule: from_arrow_scalar_child.induct)
     (auto simp: rbind_eq_Inr dest: scalar_child_scalar split: if_splits sum.splits)

lemma to_arrow_from_arrow_scalar: "from_arrow dt = Inr c \<Longrightarrow> is_scalar c \<Longrightarrow> to_arrow c = dt"
  by (cases dt) (auto simp: rbind_eq_Inr split: if_splits)

lemma from_arrow_error_names_column:
  "from_arrow dt = Inl e \<Longrightarrow> e = UnsupportedType dt"
  by (cases dt) (auto simp: rbind_eq_Inl dest: scalar_child_eq_Inl split: if_splits)

lemma from_arrow_to_arrow_supported: "supported c \<Longrightarrow> from_arrow (to_arrow c) = Inr c"
  by (induction c rule: supported.induct) auto

lemma fixed_width_scalar: "fixed_width_bytes c = Some w \<Longrightarrow> is_scalar c"
  by (cases c) (auto simp: fixed_width_bytes_def)

lemma fixed_width_pos: "fixed_width_bytes c = Some w \<Longrightarrow> 2 \<le> w"
  by (cases c) (auto simp: fixed_width_bytes_def)

end
