(* ===== verification/Chunker.thy ===== *)
theory Chunker
  imports Canonical_Types
begin

text \<open>
  The record batches of the lifecycle code and the per-row byte-width chunker
  (\<open>penca-api/src/lifecycle/chunker.rs\<close>).  A batch is its schema with its rows;
  a column is its type with one cell per row.  A cell keeps its physical
  payload beside the validity bit, because the chunker costs the payload of
  null slots as well.  \<open>int\<close> stands for \<open>i64\<close> footprints.
\<close>

datatype cell = Cell (cell_valid: bool) (cell_data: cell_data)
and cell_data = VInt int | VBytes string | VItems "cell list"

type_synonym row = "cell list"

record record_batch =
  schema :: "afield list"
  rows :: "row list"

definition num_rows :: "record_batch \<Rightarrow> nat" where
  "num_rows b = length (rows b)"

definition batch_slice :: "record_batch \<Rightarrow> nat \<Rightarrow> nat \<Rightarrow> record_batch" where
  "batch_slice b off len = b\<lparr>rows := slice_rows off len (rows b)\<rparr>"

definition columns :: "record_batch \<Rightarrow> (data_type \<times> cell list) list" where
  "columns b = map (\<lambda>(i, f). (field_type f, map (\<lambda>r. r ! i) (rows b))) (enumerate 0 (schema b))"

definition fixed_width_byte_width :: "data_type \<Rightarrow> int option" where
  "fixed_width_byte_width dtype =
     (case from_arrow dtype of Inl _ \<Rightarrow> None | Inr ct \<Rightarrow> fixed_width_bytes ct)"

function (sequential) variable_width_row_bytes :: "data_type \<Rightarrow> cell \<Rightarrow> int result"
  and child_sum :: "data_type \<Rightarrow> cell list \<Rightarrow> int result" where
  "variable_width_row_bytes DtUtf8 c =
     (case cell_data c of VBytes s \<Rightarrow> Inr (int (length s) + 4 + 1)
      | _ \<Rightarrow> Inl (InvalidRequest ''Utf8 column is not a StringArray''))"
| "variable_width_row_bytes DtBinary c =
     (case cell_data c of VBytes s \<Rightarrow> Inr (int (length s) + 4 + 1)
      | _ \<Rightarrow> Inl (InvalidRequest ''Binary column is not a BinaryArray''))"
| "variable_width_row_bytes DtLargeUtf8 c =
     (case cell_data c of VBytes s \<Rightarrow> Inr (int (length s) + 8 + 1)
      | _ \<Rightarrow> Inl (InvalidRequest ''LargeUtf8 column is not a LargeStringArray''))"
| "variable_width_row_bytes DtLargeBinary c =
     (case cell_data c of VBytes s \<Rightarrow> Inr (int (length s) + 8 + 1)
      | _ \<Rightarrow> Inl (InvalidRequest ''LargeBinary column is not a LargeBinaryArray''))"
| "variable_width_row_bytes DtUtf8View c =
     (case cell_data c of VBytes s \<Rightarrow> Inr (int (length s) + 16 + 1)
      | _ \<Rightarrow> Inl (InvalidRequest ''Utf8View column is not a StringViewArray''))"
| "variable_width_row_bytes DtBinaryView c =
     (case cell_data c of VBytes s \<Rightarrow> Inr (int (length s) + 16 + 1)
      | _ \<Rightarrow> Inl (InvalidRequest ''BinaryView column is not a BinaryViewArray''))"
| "variable_width_row_bytes (DtList (AField n t b)) c =
     (case cell_data c of VItems cs \<Rightarrow> rbind (child_sum t cs) (\<lambda>s. Inr (s + 4 + 1))
      | _ \<Rightarrow> Inl (InvalidRequest ''List column is not a ListArray''))"
| "variable_width_row_bytes (DtLargeList (AField n t b)) c =
     (case cell_data c of VItems cs \<Rightarrow> rbind (child_sum t cs) (\<lambda>s. Inr (s + 8 + 1))
      | _ \<Rightarrow> Inl (InvalidRequest ''LargeList column is not a LargeListArray''))"
| "variable_width_row_bytes (DtFixedSizeList (AField n t b) len) c =
     (case cell_data c of VItems cs \<Rightarrow> rbind (child_sum t cs) (\<lambda>s. Inr (s + 1))
      | _ \<Rightarrow> Inl (InvalidRequest ''FixedSizeList column is not a FixedSizeListArray''))"
| "variable_width_row_bytes _ c = Inl (InvalidRequest ''chunker: unsupported column DataType'')"
| "child_sum t [] = Inr 0"
| "child_sum t (c # cs) =
     rbind (case fixed_width_byte_width t of Some w \<Rightarrow> Inr w
            | None \<Rightarrow> variable_width_row_bytes t c)
       (\<lambda>w. rbind (child_sum t cs) (\<lambda>s. Inr (w + s)))"
  by pat_completeness auto
termination
  by (relation "measures [\<lambda>x. case x of Inl (t, c) \<Rightarrow> size t | Inr (t, cs) \<Rightarrow> size t,
                          \<lambda>x. case x of Inl (t, c) \<Rightarrow> 0 | Inr (t, cs) \<Rightarrow> Suc (length cs)]") auto

record row_cost_model =
  fixed_per_row :: int
  variable_cols :: "(data_type \<times> cell list) list"

fun build_cols :: "(data_type \<times> cell list) list \<Rightarrow> row_cost_model \<Rightarrow> row_cost_model" where
  "build_cols [] m = m"
| "build_cols (col # cols) m =
     build_cols cols
       (case fixed_width_byte_width (fst col) of
          Some w \<Rightarrow> m\<lparr>fixed_per_row := fixed_per_row m + w\<rparr>
        | None \<Rightarrow> m\<lparr>variable_cols := variable_cols m @ [col]\<rparr>)"

definition build :: "record_batch \<Rightarrow> row_cost_model" where
  "build b = build_cols (columns b) \<lparr>fixed_per_row = 0, variable_cols = []\<rparr>"

definition row_bytes :: "row_cost_model \<Rightarrow> nat \<Rightarrow> int result" where
  "row_bytes m idx =
     rfold (\<lambda>acc col. rbind (variable_width_row_bytes (fst col) (snd col ! idx)) (\<lambda>w. Inr (acc + w)))
       (fixed_per_row m) (variable_cols m)"

fun chunk_row_loop :: "row_cost_model \<Rightarrow> int \<Rightarrow> nat list \<Rightarrow> nat \<Rightarrow> int \<Rightarrow>
    (nat \<times> nat \<times> int) list \<Rightarrow> (nat \<times> int \<times> (nat \<times> nat \<times> int) list) result" where
  "chunk_row_loop m max_bytes [] chunk_start running ranges = Inr (chunk_start, running, ranges)"
| "chunk_row_loop m max_bytes (i # is) chunk_start running ranges =
     rbind (row_bytes m i) (\<lambda>rb.
       if running + rb > max_bytes \<and> i > chunk_start
       then chunk_row_loop m max_bytes is i (0 + rb)
              (ranges @ [(chunk_start, i - chunk_start, running)])
       else chunk_row_loop m max_bytes is chunk_start (running + rb) ranges)"

definition chunk_row_ranges :: "record_batch \<Rightarrow> int \<Rightarrow> (nat \<times> nat \<times> int) list result" where
  "chunk_row_ranges b max_bytes =
     (let n = num_rows b in
      if n = 0 then Inr []
      else rbind (chunk_row_loop (build b) max_bytes [0..<n] 0 0 [])
             (\<lambda>(chunk_start, running, ranges). Inr (ranges @ [(chunk_start, n - chunk_start, running)])))"

definition batch_in_memory_bytes :: "record_batch \<Rightarrow> int result" where
  "batch_in_memory_bytes b =
     rfold (\<lambda>total i. rbind (row_bytes (build b) i) (\<lambda>w. Inr (total + w))) 0 [0..<num_rows b]"

section \<open>Reference definitions\<close>

text \<open>The cost of one row read off its cells, and the greedy split of a list of
  row costs: \<open>s\<close>, \<open>l\<close> and \<open>r\<close> are the start, length and footprint of the chunk
  being filled.\<close>

definition cell_cost :: "data_type \<Rightarrow> cell \<Rightarrow> int result" where
  "cell_cost t c =
     (case fixed_width_byte_width t of Some w \<Rightarrow> Inr w | None \<Rightarrow> variable_width_row_bytes t c)"

definition row_cost :: "afield list \<Rightarrow> row \<Rightarrow> int result" where
  "row_cost sch r =
     rbind (rmap (\<lambda>fc. cell_cost (field_type (fst fc)) (snd fc)) (zip sch r)) (\<lambda>ws. Inr (sum_list ws))"

fun greedy :: "int \<Rightarrow> nat \<Rightarrow> nat \<Rightarrow> int \<Rightarrow> int list \<Rightarrow> (nat \<times> nat \<times> int) list" where
  "greedy cap s l r [] = [(s, l, r)]"
| "greedy cap s l r (w # ws) =
     (if r + w > cap \<and> l > 0 then (s, l, r) # greedy cap (s + l) 1 w ws
      else greedy cap s (Suc l) (r + w) ws)"

text \<open>The same split on the rows themselves, for any weight of a row, and the
  weight a schema gives.\<close>

definition weight_of :: "('r \<Rightarrow> int) \<Rightarrow> 'r list \<Rightarrow> int" where
  "weight_of w rs = sum_list (map w rs)"

fun split_rows :: "('r \<Rightarrow> int) \<Rightarrow> int \<Rightarrow> 'r list \<Rightarrow> 'r list \<Rightarrow> 'r list list" where
  "split_rows w cap acc [] = [acc]"
| "split_rows w cap acc (r # rs) =
     (if weight_of w acc + w r > cap \<and> acc \<noteq> [] then acc # split_rows w cap [r] rs
      else split_rows w cap (acc @ [r]) rs)"

definition row_weight :: "afield list \<Rightarrow> row \<Rightarrow> int" where
  "row_weight sch r = (case row_cost sch r of Inl _ \<Rightarrow> 0 | Inr w \<Rightarrow> w)"

definition costable :: "afield list \<Rightarrow> row list \<Rightarrow> bool" where
  "costable sch rs = (\<forall>r \<in> set rs. is_ok (row_cost sch r))"

text \<open>A cell whose physical payload is the one its column type has.\<close>

fun well_typed :: "data_type \<Rightarrow> cell \<Rightarrow> bool" where
  "well_typed (DtList (AField n t b)) c =
     (case cell_data c of VItems cs \<Rightarrow> list_all (well_typed t) cs | _ \<Rightarrow> False)"
| "well_typed (DtLargeList (AField n t b)) c =
     (case cell_data c of VItems cs \<Rightarrow> list_all (well_typed t) cs | _ \<Rightarrow> False)"
| "well_typed (DtFixedSizeList (AField n t b) len) c =
     (case cell_data c of VItems cs \<Rightarrow> int (length cs) = len \<and> list_all (well_typed t) cs | _ \<Rightarrow> False)"
| "well_typed t c =
     (if t \<in> {DtUtf8, DtLargeUtf8, DtUtf8View, DtBinary, DtLargeBinary, DtBinaryView}
      then (case cell_data c of VBytes _ \<Rightarrow> True | _ \<Rightarrow> False)
      else (case cell_data c of VInt _ \<Rightarrow> True | _ \<Rightarrow> False))"

definition typed_batch :: "record_batch \<Rightarrow> bool" where
  "typed_batch b = list_all (\<lambda>r. list_all2 (\<lambda>f c. well_typed (field_type f) c) (schema b) r) (rows b)"

definition wf_batch :: "record_batch \<Rightarrow> bool" where
  "wf_batch b = (\<forall>r \<in> set (rows b). length r = length (schema b))"

section \<open>Row costs\<close>

lemma fixed_width_byte_width_pos: "fixed_width_byte_width t = Some w \<Longrightarrow> 0 \<le> w"
  by (auto simp: fixed_width_byte_width_def dest: fixed_width_pos split: sum.splits)

lemma child_cost_nonneg:
  "variable_width_row_bytes t c = Inr w \<Longrightarrow> 0 \<le> w"
  "child_sum t cs = Inr w \<Longrightarrow> 0 \<le> w"
proof (induction t c and t cs arbitrary: w and w rule: variable_width_row_bytes_child_sum.induct)
  case (12 t c cs)
  from \<open>child_sum t (c # cs) = Inr w\<close> show ?case
    by (auto simp: rbind_eq_Inr split: option.splits
        dest: fixed_width_byte_width_pos 12(1,2) intro!: add_nonneg_nonneg)
qed (auto simp: rbind_eq_Inr split: cell_data.splits)

lemma cell_cost_nonneg: "cell_cost t c = Inr w \<Longrightarrow> 0 \<le> w"
  by (auto simp: cell_cost_def split: option.splits
      dest: fixed_width_byte_width_pos child_cost_nonneg)

lemma rmap_all: "rmap f xs = Inr ys \<Longrightarrow> (\<And>x y. f x = Inr y \<Longrightarrow> P y) \<Longrightarrow> y \<in> set ys \<Longrightarrow> P y"
  by (induction xs arbitrary: ys) (auto simp: rbind_eq_Inr)

lemma row_cost_nonneg:
  assumes "row_cost sch r = Inr w" shows "0 \<le> w"
proof -
  obtain ws where ws: "rmap (\<lambda>fc. cell_cost (field_type (fst fc)) (snd fc)) (zip sch r) = Inr ws"
    and w: "w = sum_list ws"
    using assms by (auto simp: row_cost_def rbind_eq_Inr)
  have "0 \<le> x" if "x \<in> set ws" for x
    using rmap_all[OF ws _ that, of "\<lambda>x. 0 \<le> x"] cell_cost_nonneg by blast
  then show ?thesis unfolding w by (simp add: sum_list_nonneg)
qed

lemma rfold_shift:
  "rfold (\<lambda>acc x. rbind (f x) (\<lambda>w. Inr (acc + w))) (a + (b :: int)) xs =
   rbind (rfold (\<lambda>acc x. rbind (f x) (\<lambda>w. Inr (acc + w))) a xs) (\<lambda>y. Inr (y + b))"
proof (induction xs arbitrary: a)
  case (Cons x xs)
  show ?case
  proof (cases "f x")
    case (Inr w)
    then show ?thesis using Cons.IH[of "a + w"] by (simp add: algebra_simps)
  qed simp
qed simp

lemma rfold_sum:
  "rfold (\<lambda>acc x. rbind (f x) (\<lambda>w. Inr (acc + w))) (a :: int) xs =
   rbind (rmap f xs) (\<lambda>ws. Inr (a + sum_list ws))"
proof (induction xs arbitrary: a)
  case (Cons x xs)
  then show ?case by (cases "f x") (simp_all add: rbind_assoc algebra_simps)
qed simp

lemma row_bytes_add_variable:
  "row_bytes (m\<lparr>variable_cols := variable_cols m @ [col]\<rparr>) i =
   rbind (row_bytes m i) (\<lambda>a. rbind (variable_width_row_bytes (fst col) (snd col ! i)) (\<lambda>w. Inr (a + w)))"
  by (simp add: row_bytes_def rfold_append rbind_assoc)

lemma row_bytes_add_fixed:
  "row_bytes (m\<lparr>fixed_per_row := fixed_per_row m + w\<rparr>) i = rbind (row_bytes m i) (\<lambda>a. Inr (a + w))"
  by (simp add: row_bytes_def rfold_shift)

lemma row_bytes_build_cols:
  "row_bytes (build_cols cols m) i =
   rbind (row_bytes m i) (\<lambda>a. rbind (rmap (\<lambda>col. cell_cost (fst col) (snd col ! i)) cols)
     (\<lambda>ws. Inr (a + sum_list ws)))"
proof (induction cols arbitrary: m)
  case Nil
  then show ?case by (cases "row_bytes m i") auto
next
  case (Cons col cols)
  then show ?case
    by (cases "fixed_width_byte_width (fst col)")
       (simp_all add: cell_cost_def row_bytes_add_variable row_bytes_add_fixed rbind_assoc add.assoc)
qed

lemma row_bytes_build:
  assumes "wf_batch b" "i < num_rows b"
  shows "row_bytes (build b) i = row_cost (schema b) (rows b ! i)"
proof -
  have len: "length (rows b ! i) = length (schema b)"
    using assms by (simp add: wf_batch_def num_rows_def)
  have cols: "columns b =
      map (\<lambda>j. (field_type (schema b ! j), map (\<lambda>r. r ! j) (rows b))) [0..<length (schema b)]"
    by (rule nth_equalityI) (auto simp: columns_def nth_enumerate_eq)
  have zip: "zip (schema b) (rows b ! i) =
      map (\<lambda>j. (schema b ! j, rows b ! i ! j)) [0..<length (schema b)]"
    by (rule nth_equalityI) (auto simp: len)
  show ?thesis
    using assms(2)
    by (simp add: build_def row_bytes_build_cols row_cost_def cols zip rmap_map num_rows_def)
       (simp add: row_bytes_def)
qed

lemma rmap_row_bytes:
  assumes "wf_batch b"
  shows "rmap (row_bytes (build b)) [0..<num_rows b] = rmap (row_cost (schema b)) (rows b)"
proof -
  have "rmap (row_bytes (build b)) [0..<num_rows b] =
        rmap (\<lambda>i. row_cost (schema b) (rows b ! i)) [0..<num_rows b]"
    using assms by (intro rmap_cong) (auto simp: row_bytes_build)
  also have "\<dots> = rmap (row_cost (schema b)) (map (\<lambda>i. rows b ! i) [0..<num_rows b])"
    by (simp add: rmap_map)
  finally show ?thesis by (simp add: num_rows_def map_nth)
qed

lemma batch_in_memory_bytes_eq:
  assumes "wf_batch b"
  shows "batch_in_memory_bytes b =
    rbind (rmap (row_cost (schema b)) (rows b)) (\<lambda>ws. Inr (sum_list ws))"
  using assms by (simp add: batch_in_memory_bytes_def rfold_sum rmap_row_bytes)

section \<open>The greedy split\<close>

lemma greedy_nonempty [simp]: "greedy cap s l r ws \<noteq> []"
  by (induction cap s l r ws rule: greedy.induct) auto

lemma greedy_last:
  "last (greedy cap s l r ws) = (s', l', r') \<Longrightarrow> s' + l' = s + l + length ws"
  by (induction cap s l r ws rule: greedy.induct) (auto split: if_splits)

lemma greedy_append:
  "greedy cap s l r (us @ vs) =
   butlast (greedy cap s l r us) @
     (case last (greedy cap s l r us) of (s', l', r') \<Rightarrow> greedy cap s' l' r' vs)"
  by (induction cap s l r us rule: greedy.induct) auto

lemma chunk_row_loop_eq:
  assumes "start \<le> k"
  shows "chunk_row_loop m cap [k..<k + n] start running ranges =
    rbind (rmap (row_bytes m) [k..<k + n]) (\<lambda>ws.
      case last (greedy cap start (k - start) running ws) of
        (s, l, r) \<Rightarrow> Inr (s, r, ranges @ butlast (greedy cap start (k - start) running ws)))"
  using assms
proof (induction n arbitrary: k start running ranges)
  case (Suc n)
  have range: "[k..<k + Suc n] = k # [Suc k..<Suc k + n]"
    by (simp add: upt_rec)
  show ?case
  proof (cases "row_bytes m k")
    case (Inr w)
    show ?thesis
    proof (cases "running + w > cap \<and> start < k")
      case True
      then show ?thesis
        unfolding range using Inr Suc.prems Suc.IH[of k "Suc k" w "ranges @ [(start, k - start, running)]"]
        by (simp add: rbind_assoc del: upt_Suc)
    next
      case False
      then have "\<not> (running + w > cap \<and> 0 < k - start)" by auto
      then show ?thesis
        unfolding range using Inr Suc.prems Suc.IH[of start "Suc k" "running + w" ranges] False
        by (auto simp add: rbind_assoc Suc_diff_le simp del: upt_Suc)
    qed
  next
    case (Inl e)
    then show ?thesis unfolding range by simp
  qed
qed simp

lemma chunk_row_ranges_eq:
  assumes "wf_batch b"
  shows "chunk_row_ranges b cap =
    (if rows b = [] then Inr []
     else rbind (rmap (row_cost (schema b)) (rows b)) (\<lambda>ws. Inr (greedy cap 0 0 0 ws)))"
proof (cases "rows b = []")
  case False
  have "rbind (chunk_row_loop (build b) cap [0..<num_rows b] 0 0 [])
          (\<lambda>(s, r, rs). Inr (rs @ [(s, num_rows b - s, r)])) =
        rbind (rmap (row_cost (schema b)) (rows b)) (\<lambda>ws. Inr (greedy cap 0 0 0 ws))"
  proof (cases "rmap (row_cost (schema b)) (rows b)")
    case (Inr ws)
    obtain s l r where last: "last (greedy cap 0 0 0 ws) = (s, l, r)"
      by (cases "last (greedy cap 0 0 0 ws)") auto
    have "l = num_rows b - s"
      using greedy_last[OF last] rmap_length[OF Inr] by (simp add: num_rows_def)
    then have "butlast (greedy cap 0 0 0 ws) @ [(s, num_rows b - s, r)] = greedy cap 0 0 0 ws"
      using append_butlast_last_id[OF greedy_nonempty[of cap 0 0 0 ws]] last by simp
    then show ?thesis
      using chunk_row_loop_eq[of 0 0 "build b" cap "num_rows b"] Inr last assms
      by (simp add: rmap_row_bytes)
  qed (use chunk_row_loop_eq[of 0 0 "build b" cap "num_rows b"] assms in \<open>simp add: rmap_row_bytes\<close>)
  then show ?thesis using False by (simp add: chunk_row_ranges_def num_rows_def Let_def)
qed (simp add: chunk_row_ranges_def num_rows_def)

section \<open>The split of rows\<close>

lemma weight_of_simps [simp]:
  "weight_of w [] = 0" "weight_of w (r # rs) = w r + weight_of w rs"
  "weight_of w (rs @ ss) = weight_of w rs + weight_of w ss"
  by (simp_all add: weight_of_def)

lemma split_rows_nonempty [simp]: "split_rows w cap acc rs \<noteq> []"
  by (induction w cap acc rs rule: split_rows.induct) auto

lemma concat_split_rows [simp]: "concat (split_rows w cap acc rs) = acc @ rs"
  by (induction w cap acc rs rule: split_rows.induct) auto

lemma split_rows_append:
  "split_rows w cap acc (us @ vs) =
   butlast (split_rows w cap acc us) @ split_rows w cap (last (split_rows w cap acc us)) vs"
  by (induction w cap acc us rule: split_rows.induct) auto

lemma split_rows_chunk_nonempty:
  "c \<in> set (split_rows w cap acc rs) \<Longrightarrow> acc \<noteq> [] \<or> rs \<noteq> [] \<Longrightarrow> c \<noteq> []"
  by (induction w cap acc rs rule: split_rows.induct) (auto split: if_splits)

lemma split_rows_cap:
  "c \<in> set (split_rows w cap acc rs) \<Longrightarrow> weight_of w acc \<le> cap \<or> length acc \<le> 1 \<Longrightarrow>
   weight_of w c \<le> cap \<or> length c \<le> 1"
  by (induction w cap acc rs rule: split_rows.induct) (auto split: if_splits)

text \<open>A chunk fed back into the split stays whole: this is what makes the walk
  prefix-stable.\<close>

lemma split_rows_stable:
  "c \<in> set (split_rows w cap acc rs) \<Longrightarrow> split_rows w cap [] acc = [acc] \<Longrightarrow>
   split_rows w cap [] c = [c]"
proof (induction w cap acc rs rule: split_rows.induct)
  case (2 w cap acc r rs)
  show ?case
  proof (cases "weight_of w acc + w r > cap \<and> acc \<noteq> []")
    case False
    then have "split_rows w cap [] (acc @ [r]) = [acc @ [r]]"
      using 2 by (simp add: split_rows_append)
    then show ?thesis using 2 False by auto
  qed (use 2 in auto)
qed simp

lemma split_rows_restart:
  assumes "split_rows w cap [] acc = [acc]"
  shows "split_rows w cap [] (acc @ rs) = split_rows w cap acc rs"
  using assms by (simp add: split_rows_append)

lemma greedy_split_rows:
  "map (\<lambda>(s, l, r). (slice_rows s l (pre @ acc @ rs), l, r))
     (greedy cap (length pre) (length acc) (weight_of w acc) (map w rs)) =
   map (\<lambda>c. (c, length c, weight_of w c)) (split_rows w cap acc rs)"
proof (induction w cap acc rs arbitrary: pre rule: split_rows.induct)
  case (1 w cap acc)
  then show ?case by (simp add: slice_rows_append_right)
next
  case (2 w cap acc r rs)
  show ?case
  proof (cases "weight_of w acc + w r > cap \<and> acc \<noteq> []")
    case True
    then show ?thesis
      using 2(1)[OF True, of "pre @ acc"] by (simp add: slice_rows_append_right)
  next
    case False
    then show ?thesis
      using 2(2)[OF False, of pre] by (auto simp: add.commute)
  qed
qed

text \<open>Facts that need the weights to be non-negative, stated once for any weight
  and used for the row costs of a schema.\<close>

locale costed_rows =
  fixes weight :: "'r \<Rightarrow> int"
  assumes weight_nonneg: "0 \<le> weight r"
begin

lemma weight_of_nonneg: "0 \<le> weight_of weight rs"
  by (induction rs) (auto simp: weight_nonneg)

lemma split_rows_under_cap:
  "weight_of weight (acc @ rs) \<le> cap \<Longrightarrow> split_rows weight cap acc rs = [acc @ rs]"
proof (induction rs arbitrary: acc)
  case (Cons r rs)
  then show ?case using weight_of_nonneg[of rs] by (auto simp: algebra_simps)
qed simp

lemma split_rows_many_over_cap:
  "1 < length (split_rows weight cap [] rs) \<Longrightarrow> cap < weight_of weight rs"
  using split_rows_under_cap[of "[]" rs cap] by (cases "weight_of weight rs \<le> cap") auto

lemma split_rows_mono:
  assumes "weight_of weight acc' \<le> weight_of weight acc" "acc = [] \<Longrightarrow> acc' = []"
  shows "length (split_rows weight cap acc' rs) \<le> length (split_rows weight cap acc rs)"
    and "length (split_rows weight cap acc rs) \<le> Suc (length (split_rows weight cap acc' rs))"
  using assms
proof (induction rs arbitrary: acc acc')
  case (Cons r rs)
  {
    case 1
    show ?case
      using 1 Cons.IH(1)[of "acc' @ [r]" "acc @ [r]"] Cons.IH(2)[of "[r]" "acc' @ [r]"]
        weight_of_nonneg[of acc'] by auto
  next
    case 2
    show ?case
      using 2 Cons.IH(2)[of "acc' @ [r]" "acc @ [r]"] Cons.IH(1)[of "[r]" "acc' @ [r]"]
        weight_of_nonneg[of acc'] by auto
  }
qed simp_all

lemma split_rows_whole:
  "weight_of weight c \<le> cap \<or> length c \<le> 1 \<Longrightarrow> split_rows weight cap [] c = [c]"
  using split_rows_under_cap[of "[]" c cap] by (cases c rule: list.exhaust) (auto simp: length_Suc_conv)

lemma split_rows_fewest:
  assumes "rs \<noteq> []" "concat cs = rs" "\<forall>c \<in> set cs. weight_of weight c \<le> cap \<or> length c \<le> 1"
  shows "length (split_rows weight cap [] rs) \<le> length cs"
  using assms
proof (induction cs arbitrary: rs)
  case (Cons c cs)
  have whole: "split_rows weight cap [] (c @ concat cs) = split_rows weight cap c (concat cs)"
    using Cons.prems by (intro split_rows_restart split_rows_whole) auto
  show ?case
  proof (cases "concat cs = []")
    case False
    have "length (split_rows weight cap c (concat cs)) \<le> Suc (length (split_rows weight cap [] (concat cs)))"
      using split_rows_mono(2)[of "[]" c] weight_of_nonneg[of c] by simp
    also have "\<dots> \<le> Suc (length cs)" using Cons.IH[OF False] Cons.prems by simp
    finally show ?thesis using whole Cons.prems by simp
  next
    case True
    then show ?thesis using whole Cons.prems(2) by (simp del: concat_eq_Nil_conv)
  qed
qed simp

end

lemma row_weight_nonneg: "0 \<le> row_weight sch r"
  by (auto simp: row_weight_def dest: row_cost_nonneg split: sum.splits)

interpretation rw: costed_rows "row_weight sch" for sch
  by unfold_locales (rule row_weight_nonneg)

lemma costable_simps [simp]:
  "costable sch []" "costable sch (r # rs) = (is_ok (row_cost sch r) \<and> costable sch rs)"
  "costable sch (rs @ ss) = (costable sch rs \<and> costable sch ss)"
  by (auto simp: costable_def)

lemma rmap_row_cost:
  "rmap (row_cost sch) rs = Inr ws \<longleftrightarrow> costable sch rs \<and> ws = map (row_weight sch) rs"
  by (induction rs arbitrary: ws) (auto simp: rbind_eq_Inr row_weight_def is_ok_iff)

lemma batch_in_memory_bytes_costable:
  "wf_batch b \<Longrightarrow> batch_in_memory_bytes b = Inr n \<longleftrightarrow>
   costable (schema b) (rows b) \<and> n = weight_of (row_weight (schema b)) (rows b)"
  by (auto simp: batch_in_memory_bytes_eq rbind_eq_Inr rmap_row_cost weight_of_def)

lemma chunk_row_ranges_costable:
  assumes "wf_batch b" "rows b \<noteq> []"
  shows "chunk_row_ranges b cap = Inr rs \<longleftrightarrow>
    costable (schema b) (rows b) \<and> rs = greedy cap 0 0 0 (map (row_weight (schema b)) (rows b))"
  using assms by (auto simp: chunk_row_ranges_eq rbind_eq_Inr rmap_row_cost)

lemma chunk_row_ranges_split:
  assumes "wf_batch b" "rows b \<noteq> []" "chunk_row_ranges b cap = Inr rs"
  shows "map (\<lambda>(s, l, r). (slice_rows s l (rows b), l, r)) rs =
    map (\<lambda>c. (c, length c, weight_of (row_weight (schema b)) c)) (split_rows (row_weight (schema b)) cap [] (rows b))"
  using greedy_split_rows[of "[]" "[]" "rows b" cap "row_weight (schema b)"] assms
  by (simp add: chunk_row_ranges_costable)

section \<open>Coverage of the canonical types\<close>

lemma scalar_cell_cost_ok:
  assumes "from_arrow t = Inr ct" "is_scalar ct" "well_typed t c"
  shows "is_ok (cell_cost t c)"
  using assms
  by (cases t)
     (auto simp: cell_cost_def fixed_width_byte_width_def fixed_width_bytes_def rbind_eq_Inr
       split: cell_data.splits if_splits)

lemma child_sum_ok:
  assumes "from_arrow t = Inr ct" "is_scalar ct" "list_all (well_typed t) cs"
  shows "is_ok (child_sum t cs)"
  using assms(3)
proof (induction cs)
  case (Cons c cs)
  obtain w where "cell_cost t c = Inr w"
    using scalar_cell_cost_ok[OF assms(1,2), of c] Cons.prems by (auto simp: is_ok_iff)
  moreover obtain s where "child_sum t cs = Inr s"
    using Cons by (auto simp: is_ok_iff)
  ultimately show ?case by (simp add: cell_cost_def)
qed simp

lemma cell_cost_ok:
  assumes "from_arrow t = Inr ct" "well_typed t c"
  shows "is_ok (cell_cost t c)"
proof (cases "is_scalar ct")
  case False
  then obtain f where t: "t = DtList f \<or> t = DtLargeList f \<or> (\<exists>len. t = DtFixedSizeList f len)"
    using assms(1) by (cases t) (auto split: if_splits)
  obtain n ft b where f: "f = AField n ft b" by (cases f)
  obtain child where child: "from_arrow ft = Inr child" "is_scalar child"
    using t assms(1) f by (auto simp: rbind_eq_Inr split: sum.splits if_splits)
  obtain cs where cs: "cell_data c = VItems cs" "list_all (well_typed ft) cs"
    using t assms(2) f by (auto split: cell_data.splits)
  obtain s where "child_sum ft cs = Inr s"
    using child_sum_ok[OF child cs(2)] by (auto simp: is_ok_iff)
  moreover have "fixed_width_byte_width t = None"
    using t f child by (auto simp: fixed_width_byte_width_def fixed_width_bytes_def)
  ultimately show ?thesis using t f cs by (auto simp: cell_cost_def)
qed (use assms scalar_cell_cost_ok in blast)

lemma rmap_ok: "(\<forall>x \<in> set xs. is_ok (f x)) \<Longrightarrow> is_ok (rmap f xs)"
  by (induction xs) (auto simp: is_ok_iff)

lemma typed_batch_costable:
  assumes "typed_batch b" "\<forall>f \<in> set (schema b). is_ok (from_arrow (field_type f))"
  shows "costable (schema b) (rows b)"
  unfolding costable_def
proof
  fix r assume "r \<in> set (rows b)"
  then have typed: "list_all2 (\<lambda>f c. well_typed (field_type f) c) (schema b) r"
    using assms(1) by (simp add: typed_batch_def list_all_iff)
  have "is_ok (cell_cost (field_type f) c)" if "(f, c) \<in> set (zip (schema b) r)" for f c
    using that typed assms(2) cell_cost_ok[of "field_type f" _ c]
    by (fastforce simp: list_all2_iff is_ok_iff dest: set_zip_leftD)
  then have "is_ok (rmap (\<lambda>fc. cell_cost (field_type (fst fc)) (snd fc)) (zip (schema b) r))"
    by (intro rmap_ok) auto
  then show "is_ok (row_cost (schema b) r)" by (auto simp: row_cost_def is_ok_iff)
qed

lemma typed_batch_wf: "typed_batch b \<Longrightarrow> wf_batch b"
  by (fastforce simp: typed_batch_def wf_batch_def list_all_iff list_all2_iff)

lemma costable_subset: "costable sch rs \<Longrightarrow> set ss \<subseteq> set rs \<Longrightarrow> costable sch ss"
  by (auto simp: costable_def)

lemma set_slice_rows: "set (slice_rows off len xs) \<subseteq> set xs"
  by (auto simp: slice_rows_def dest: in_set_takeD in_set_dropD)

lemma wf_batch_rows: "wf_batch b \<Longrightarrow> set rs \<subseteq> set (rows b) \<Longrightarrow> wf_batch (b\<lparr>rows := rs\<rparr>)"
  by (auto simp: wf_batch_def)

lemma chunk_row_ranges_entry:
  assumes "wf_batch b" "chunk_row_ranges b cap = Inr rs" "(off, len, bytes) \<in> set rs"
  obtains c where "c \<in> set (split_rows (row_weight (schema b)) cap [] (rows b))"
    "rows (batch_slice b off len) = c" "len = length c"
    "bytes = weight_of (row_weight (schema b)) c" "costable (schema b) (rows b)" "rows b \<noteq> []"
proof -
  have ne: "rows b \<noteq> []"
    using assms by (auto simp: chunk_row_ranges_eq)
  have "(slice_rows off len (rows b), len, bytes) \<in>
      set (map (\<lambda>(s, l, r). (slice_rows s l (rows b), l, r)) rs)"
    using assms(3) by force
  then have "(slice_rows off len (rows b), len, bytes) \<in>
      set (map (\<lambda>c. (c, length c, weight_of (row_weight (schema b)) c))
        (split_rows (row_weight (schema b)) cap [] (rows b)))"
    using chunk_row_ranges_split[OF assms(1) ne assms(2)] by simp
  then show thesis
    using that assms(1,2) ne by (auto simp: batch_slice_def chunk_row_ranges_costable)
qed

section \<open>Properties\<close>

text \<open>C13: the ranges \<open>chunk_row_ranges\<close> returns tile the batch: the slices they
  denote, concatenated, are exactly the rows of the batch, no range is empty,
  the footprint recorded for a range is what \<open>batch_in_memory_bytes\<close> gives for that
  slice, and it exceeds the cap only for a range of a single row.\<close>

theorem chunk_row_ranges_tile:
  assumes "wf_batch b" "chunk_row_ranges b cap = Inr rs"
  shows "concat (map (\<lambda>(off, len, _). rows (batch_slice b off len)) rs) = rows b \<and>
    (\<forall>(off, len, bytes) \<in> set rs.
      0 < len \<and> num_rows (batch_slice b off len) = len \<and>
      batch_in_memory_bytes (batch_slice b off len) = Inr bytes \<and> (bytes \<le> cap \<or> len = 1))"
proof (cases "rows b = []")
  case False
  have "map (\<lambda>(off, len, _). rows (batch_slice b off len)) rs =
        map fst (map (\<lambda>(s, l, r). (slice_rows s l (rows b), l, r)) rs)"
    by (auto simp: batch_slice_def)
  also have "\<dots> = split_rows (row_weight (schema b)) cap [] (rows b)"
    unfolding chunk_row_ranges_split[OF assms(1) False assms(2)] by (simp add: comp_def)
  finally have tile: "concat (map (\<lambda>(off, len, _). rows (batch_slice b off len)) rs) = rows b"
    by simp
  have "0 < len \<and> num_rows (batch_slice b off len) = len \<and>
      batch_in_memory_bytes (batch_slice b off len) = Inr bytes \<and> (bytes \<le> cap \<or> len = 1)"
    if in_rs: "(off, len, bytes) \<in> set rs" for off len bytes
  proof -
    obtain c where c: "c \<in> set (split_rows (row_weight (schema b)) cap [] (rows b))"
      "rows (batch_slice b off len) = c" "len = length c"
      "bytes = weight_of (row_weight (schema b)) c" "costable (schema b) (rows b)"
      using chunk_row_ranges_entry[OF assms in_rs] by metis
    have sub: "set c \<subseteq> set (rows b)"
      using c(2) set_slice_rows[of off len "rows b"] by (auto simp: batch_slice_def)
    have "wf_batch (batch_slice b off len)" "schema (batch_slice b off len) = schema b"
      using wf_batch_rows[OF assms(1) set_slice_rows] by (auto simp: batch_slice_def)
    moreover have "c \<noteq> []" using split_rows_chunk_nonempty[OF c(1)] False by simp
    moreover have "bytes \<le> cap \<or> length c \<le> 1" using split_rows_cap[OF c(1)] c(4) by simp
    ultimately show ?thesis
      using c costable_subset[OF c(5) sub]
      by (auto simp: batch_in_memory_bytes_costable num_rows_def le_Suc_eq)
  qed
  with tile show ?thesis by auto
qed (use assms in \<open>simp add: chunk_row_ranges_eq\<close>)

text \<open>C14: no split of the batch into consecutive runs that respect the cap (or
  consist of one row) has fewer runs than \<open>chunk_row_ranges\<close> returns.\<close>

theorem chunk_row_ranges_fewest:
  assumes "wf_batch b" "chunk_row_ranges b cap = Inr rs"
    and "concat parts = rows b"
    and "\<forall>p \<in> set parts. \<exists>n. batch_in_memory_bytes (b\<lparr>rows := p\<rparr>) = Inr n \<and> (n \<le> cap \<or> length p \<le> 1)"
  shows "length rs \<le> length parts"
proof (cases "rows b = []")
  case False
  have "weight_of (row_weight (schema b)) p \<le> cap \<or> length p \<le> 1" if p: "p \<in> set parts" for p
  proof -
    have "set p \<subseteq> set (rows b)" unfolding assms(3)[symmetric] using p by auto
    then have "wf_batch (b\<lparr>rows := p\<rparr>)" by (rule wf_batch_rows[OF assms(1)])
    then show ?thesis using assms(4) p by (auto simp: batch_in_memory_bytes_costable)
  qed
  then have "length (split_rows (row_weight (schema b)) cap [] (rows b)) \<le> length parts"
    by (intro rw.split_rows_fewest[OF False assms(3)]) blast
  moreover have "length rs = length (split_rows (row_weight (schema b)) cap [] (rows b))"
    using arg_cong[OF chunk_row_ranges_split[OF assms(1) False assms(2)], of length] by simp
  ultimately show ?thesis by simp
qed (use assms in \<open>simp add: chunk_row_ranges_eq\<close>)

text \<open>C15: the chunker covers the canonical types: on a batch whose cells match
  their column types and whose column types all pass \<open>from_arrow\<close>, neither the split
  nor the footprint fails.\<close>

theorem chunker_total_on_canonical:
  assumes "typed_batch b" "\<forall>f \<in> set (schema b). is_ok (from_arrow (field_type f))"
  shows "is_ok (chunk_row_ranges b cap) \<and> is_ok (batch_in_memory_bytes b)"
proof -
  have "costable (schema b) (rows b)" "wf_batch b"
    using assms typed_batch_costable typed_batch_wf by auto
  then show ?thesis
    using chunk_row_ranges_costable[of b cap] batch_in_memory_bytes_costable[of b]
    by (cases "rows b = []") (auto simp: is_ok_iff chunk_row_ranges_eq)
qed

definition sample_batch :: record_batch where
  "sample_batch = \<lparr>schema = [AField ''id'' DtInt64 False, AField ''name'' DtUtf8 True],
     rows = [[Cell True (VInt 1), Cell True (VBytes ''a'')],
             [Cell True (VInt 2), Cell False (VBytes [])],
             [Cell True (VInt 3), Cell True (VBytes ''abcdefghijklmnopqrst'')],
             [Cell True (VInt 4), Cell True (VBytes ''b'')]]\<rparr>"

lemma sample_batch_typed: "typed_batch sample_batch"
  by (simp add: sample_batch_def typed_batch_def)

lemmas chunk_eval =
  chunk_row_ranges_def batch_in_memory_bytes_def num_rows_def build_def columns_def
  fixed_width_byte_width_def fixed_width_bytes_def row_bytes_def upt_rec enumerate_eq_zip

lemma sample_batch_chunks:
  "chunk_row_ranges sample_batch 31 = Inr [(0, 2, 29), (2, 1, 34), (3, 1, 15)]"
  by (simp add: sample_batch_def chunk_eval)

theorem chunk_row_ranges_tile_witness:
  "concat (map (\<lambda>(off, len, _). rows (batch_slice sample_batch off len))
     [(0, 2, 29 :: int), (2, 1, 34), (3, 1, 15)]) = rows sample_batch"
  using chunk_row_ranges_tile[OF typed_batch_wf[OF sample_batch_typed] sample_batch_chunks] by simp

theorem chunk_row_ranges_fewest_witness:
  "length [(0 :: nat, 2 :: nat, 29 :: int), (2, 1, 34), (3, 1, 15)] \<le> length (map (\<lambda>r. [r]) (rows sample_batch))"
proof (rule chunk_row_ranges_fewest[OF typed_batch_wf[OF sample_batch_typed] sample_batch_chunks])
  have "costable (schema sample_batch) (rows sample_batch)"
    by (rule typed_batch_costable[OF sample_batch_typed]) (simp add: sample_batch_def)
  then have "costable (schema sample_batch) [r]" if "r \<in> set (rows sample_batch)" for r
    using that by (auto simp: costable_def)
  moreover have "wf_batch (sample_batch\<lparr>rows := [r]\<rparr>)" if "r \<in> set (rows sample_batch)" for r
    using that by (intro wf_batch_rows typed_batch_wf sample_batch_typed) simp
  ultimately show "\<forall>p \<in> set (map (\<lambda>r. [r]) (rows sample_batch)).
      \<exists>n. batch_in_memory_bytes (sample_batch\<lparr>rows := p\<rparr>) = Inr n \<and> (n \<le> 31 \<or> length p \<le> 1)"
    by (fastforce simp: batch_in_memory_bytes_costable)
qed (simp add: sample_batch_def)

theorem chunker_total_on_canonical_witness:
  "is_ok (chunk_row_ranges sample_batch 0) \<and> is_ok (batch_in_memory_bytes sample_batch)"
  by (rule chunker_total_on_canonical[OF sample_batch_typed]) (simp add: sample_batch_def)

end
