(* ===== verification/Batch_Util.thy ===== *)
theory Batch_Util
  imports Chunker "HOL-Library.Char_ord" "HOL-Library.List_Lexorder" "HOL-Library.Option_ord"
    "HOL-Library.Product_Lexorder"
begin

text \<open>
  Arrow batch utilities of the lifecycle code
  (\<open>penca-api/src/lifecycle/batch_util.rs\<close>): column bounds, the hot and cold
  layouts, partition labels and their typed order, the partition split and the
  clustering sort.  The Arrow kernels whose code is not part of the repository
  are the fields of \<open>arrow_lib\<close>: rendering a value, JSON, the row encoder
  (whose rows compare bytewise) and the lexicographic sort.
\<close>

type_synonym owned_row = string

record arrow_lib =
  array_value_to_string :: "data_type \<Rightarrow> cell \<Rightarrow> string result"
  json_to_string :: "string list \<Rightarrow> string result"
  row_converter_new :: "data_type list \<Rightarrow> (cell list \<Rightarrow> owned_row result) result"
  lexsort_to_indices :: "(data_type \<times> cell list) list \<Rightarrow> nat list result"

section \<open>Batches by column\<close>

fun index_of_from :: "nat \<Rightarrow> afield list \<Rightarrow> string \<Rightarrow> nat option" where
  "index_of_from i [] key = None"
| "index_of_from i (f # fs) key = (if field_name f = key then Some i else index_of_from (Suc i) fs key)"

definition index_of :: "afield list \<Rightarrow> string \<Rightarrow> nat option" where
  "index_of sch key = index_of_from 0 sch key"

definition resolve_keys :: "(string \<Rightarrow> api_error) \<Rightarrow> afield list \<Rightarrow> string list \<Rightarrow> nat list result" where
  "resolve_keys err sch keys =
     rmap (\<lambda>key. case index_of sch key of None \<Rightarrow> Inl (err key) | Some idx \<Rightarrow> Inr idx) keys"

definition key_types :: "afield list \<Rightarrow> nat list \<Rightarrow> data_type list" where
  "key_types sch idxs = map (\<lambda>i. field_type (sch ! i)) idxs"

definition key_cells :: "nat list \<Rightarrow> row \<Rightarrow> cell list" where
  "key_cells idxs r = map (\<lambda>i. r ! i) idxs"

definition take_rows :: "record_batch \<Rightarrow> nat list \<Rightarrow> record_batch" where
  "take_rows b indices = b\<lparr>rows := map (\<lambda>i. rows b ! i) indices\<rparr>"

definition concat_batches :: "afield list \<Rightarrow> record_batch list \<Rightarrow> record_batch result" where
  "concat_batches sch bs =
     (if list_all (\<lambda>b. schema b = sch) bs
      then Inr \<lparr>schema = sch, rows = concat (map rows bs)\<rparr>
      else Inl (ArrowErr ''concat requires batches of the same schema''))"

section \<open>Column bounds\<close>

fun int64_bounds :: "cell list \<Rightarrow> int \<Rightarrow> int \<Rightarrow> int \<times> int" where
  "int64_bounds [] mn mx = (mn, mx)"
| "int64_bounds (c # cs) mn mx =
     (case (cell_valid c, cell_data c) of
        (True, VInt v) \<Rightarrow> int64_bounds cs (if v < mn then v else mn) (if v > mx then v else mx)
      | _ \<Rightarrow> int64_bounds cs mn mx)"

definition batch_int64_col_bounds :: "record_batch \<Rightarrow> string \<Rightarrow> (int \<times> int) result" where
  "batch_int64_col_bounds b col_name =
     (case index_of (schema b) col_name of
        None \<Rightarrow> Inl (InvalidRequest (''missing '' @ col_name))
      | Some idx \<Rightarrow>
          if field_type (schema b ! idx) \<noteq> DtInt64
          then Inl (InvalidRequest (col_name @ '' not int64''))
          else Inr (int64_bounds (map (\<lambda>r. r ! idx) (rows b)) i64_max i64_min))"

definition batch_committed_at_bounds :: "record_batch \<Rightarrow> (int \<times> int) result" where
  "batch_committed_at_bounds b = batch_int64_col_bounds b ''commit_micros''"

definition batch_commit_seq_num_bounds :: "record_batch \<Rightarrow> (int \<times> int) result" where
  "batch_commit_seq_num_bounds b = batch_int64_col_bounds b ''commit_seq_num''"

section \<open>Hot and cold layouts\<close>

definition hot_upsert_read_schema :: "afield list \<Rightarrow> afield list" where
  "hot_upsert_read_schema user_schema =
     [AField ''version_uuid'' DtUtf8 False, AField ''row_uuid'' DtUtf8 False, AField ''tx_uuid'' DtUtf8 False] @
     user_schema @ [AField ''write_seq_num'' DtInt64 False]"

definition project :: "record_batch \<Rightarrow> nat list \<Rightarrow> record_batch" where
  "project b indices =
     \<lparr>schema = map (\<lambda>i. schema b ! i) indices, rows = map (\<lambda>r. map (\<lambda>i. r ! i) indices) (rows b)\<rparr>"

definition project_to_cold_layout :: "record_batch \<Rightarrow> record_batch" where
  "project_to_cold_layout b =
     project b (filter (\<lambda>i. field_name (schema b ! i) \<noteq> ''version_uuid'' \<and>
                            field_name (schema b ! i) \<noteq> ''tx_uuid'') [0..<length (schema b)])"

section \<open>Partition identity and typed order\<close>

definition partition_label :: "arrow_lib \<Rightarrow> data_type list \<Rightarrow> cell list \<Rightarrow> string result" where
  "partition_label lib types cells =
     rbind (rmap (\<lambda>tc. array_value_to_string lib (fst tc) (snd tc)) (zip types cells))
       (\<lambda>parts. if length cells = 1 then Inr (case parts of [] \<Rightarrow> [] | p # _ \<Rightarrow> p)
                else json_to_string lib parts)"

definition partition_sort_fields :: "afield list \<Rightarrow> string list \<Rightarrow> data_type list result" where
  "partition_sort_fields sch keys =
     rbind (resolve_keys (\<lambda>key. Internal (''partition/sort key '' @ key @ '' not in schema'')) sch keys)
       (\<lambda>idxs. Inr (key_types sch idxs))"

datatype partition_order_key = PartitionOrderKey (sort_row: "owned_row option") (label: "string option")

instantiation partition_order_key :: linorder
begin

definition less_eq_partition_order_key :: "partition_order_key \<Rightarrow> partition_order_key \<Rightarrow> bool" where
  "less_eq_partition_order_key k l = ((sort_row k, label k) \<le> (sort_row l, label l))"

definition less_partition_order_key :: "partition_order_key \<Rightarrow> partition_order_key \<Rightarrow> bool" where
  "less_partition_order_key k l = ((sort_row k, label k) < (sort_row l, label l))"

instance
proof
  fix x y z :: partition_order_key
  show "x < y \<longleftrightarrow> x \<le> y \<and> \<not> y \<le> x"
    unfolding less_eq_partition_order_key_def less_partition_order_key_def by (rule less_le_not_le)
  show "x \<le> x" unfolding less_eq_partition_order_key_def by simp
  show "x \<le> y \<Longrightarrow> y \<le> z \<Longrightarrow> x \<le> z"
    unfolding less_eq_partition_order_key_def by (rule order_trans)
  show "x \<le> y \<Longrightarrow> y \<le> x \<Longrightarrow> x = y"
    unfolding less_eq_partition_order_key_def
    by (metis antisym partition_order_key.exhaust_sel prod.inject)
  show "x \<le> y \<or> y \<le> x" unfolding less_eq_partition_order_key_def by (rule linear)
qed

end

record partition_ordering =
  po_keys :: "string list"
  po_converter :: "(cell list \<Rightarrow> owned_row result) option"

definition partition_ordering_new :: "arrow_lib \<Rightarrow> afield list \<Rightarrow> string list \<Rightarrow> partition_ordering result" where
  "partition_ordering_new lib sch keys =
     (if keys = [] then Inr \<lparr>po_keys = keys, po_converter = None\<rparr>
      else rbind (partition_sort_fields sch keys) (\<lambda>types.
           rbind (row_converter_new lib types) (\<lambda>conv.
           Inr \<lparr>po_keys = keys, po_converter = Some conv\<rparr>)))"

definition order_key_from_key_arrays :: "partition_ordering \<Rightarrow> cell list \<Rightarrow> string option \<Rightarrow>
    partition_order_key result" where
  "order_key_from_key_arrays po cells lbl =
     (case po_converter po of
        None \<Rightarrow> Inr (PartitionOrderKey None lbl)
      | Some conv \<Rightarrow> rbind (conv cells) (\<lambda>enc. Inr (PartitionOrderKey (Some enc) lbl)))"

definition order_key_at :: "partition_ordering \<Rightarrow> nat list \<Rightarrow> record_batch \<Rightarrow> nat \<Rightarrow> string option \<Rightarrow>
    partition_order_key result" where
  "order_key_at po key_columns b row lbl =
     order_key_from_key_arrays po (key_cells key_columns (rows b ! row)) lbl"

section \<open>Partition split and clustering sort\<close>

definition partition_record_batch :: "arrow_lib \<Rightarrow> record_batch \<Rightarrow> string list \<Rightarrow>
    (string option \<times> record_batch) list result" where
  "partition_record_batch lib b partition_keys =
     (if partition_keys = [] then Inr [(None, b)]
      else
        rbind (resolve_keys (\<lambda>key. InvalidRequest (''partition key '' @ key @ '' not in schema''))
                 (schema b) partition_keys) (\<lambda>idxs.
        rbind (rmap (\<lambda>r. partition_label lib (key_types (schema b) idxs) (key_cells idxs r)) (rows b)) (\<lambda>labels.
        rbind (partition_ordering_new lib (schema b) partition_keys) (\<lambda>po.
        rbind (rmap (\<lambda>lbl.
                 let part_batch = take_rows b (filter (\<lambda>i. labels ! i = lbl) [0..<num_rows b]) in
                 rbind (order_key_from_key_arrays po (key_cells idxs (rows part_batch ! 0)) (Some lbl))
                   (\<lambda>order_key. Inr (order_key, Some lbl, part_batch)))
               (sort (remdups labels))) (\<lambda>out.
        Inr (map snd (sort_key fst out)))))))"

definition sort_record_batch_by_keys :: "arrow_lib \<Rightarrow> record_batch \<Rightarrow> string list \<Rightarrow> record_batch result" where
  "sort_record_batch_by_keys lib b keys =
     (if keys = [] \<or> num_rows b = 0 then Inr b
      else
        rbind (resolve_keys (\<lambda>key. Internal (''clustering key '' @ key @ '' not in schema''))
                 (schema b) keys) (\<lambda>idxs.
        rbind (lexsort_to_indices lib (map (\<lambda>i. (field_type (schema b ! i), map (\<lambda>r. r ! i) (rows b))) idxs))
          (\<lambda>indices. Inr (take_rows b indices))))"

section \<open>Facts about column lookup\<close>

lemma index_of_from_Some:
  "index_of_from k sch name = Some i \<Longrightarrow> k \<le> i \<and> i - k < length sch \<and> field_name (sch ! (i - k)) = name"
  by (induction k sch name rule: index_of_from.induct) (auto split: if_splits simp: Suc_diff_le nth_Cons')

lemma index_of_Some: "index_of sch name = Some i \<Longrightarrow> i < length sch \<and> field_name (sch ! i) = name"
  unfolding index_of_def by (drule index_of_from_Some) simp

lemma index_of_from_None: "index_of_from k sch name = None \<longleftrightarrow> name \<notin> field_name ` set sch"
  by (induction k sch name rule: index_of_from.induct) auto

lemma index_of_None: "index_of sch name = None \<longleftrightarrow> name \<notin> field_name ` set sch"
  by (simp add: index_of_def index_of_from_None)

lemma index_of_nth:
  assumes "distinct (map field_name sch)" "i < length sch"
  shows "index_of sch (field_name (sch ! i)) = Some i"
proof (cases "index_of sch (field_name (sch ! i))")
  case None
  then show ?thesis using assms(2) by (auto simp: index_of_None)
next
  case (Some j)
  then have "j < length sch" "map field_name sch ! j = map field_name sch ! i"
    using index_of_Some[OF Some] assms(2) by auto
  then show ?thesis using assms Some by (simp only: nth_eq_iff_index_eq length_map)
qed

end
