(* ===== verification/Segment_Packer.thy ===== *)
theory Segment_Packer
  imports Batch_Util Naming
begin

text \<open>
  Whole-partition packing of snapshot segment files, first half of
  \<open>penca-api/src/lifecycle/packer.rs\<close>: the segment packer with its
  whole-partition and streaming entry points.  \<open>pack_lib\<close> holds what the packer
  calls outside this theory: the Arrow kernels, the UUID hash, the segment
  statistics and the content digest.  The packer is shown to be a queue of rows:
  rows leave it in the order they entered, under dense chunk indices, in files
  that respect the byte cap.
\<close>

record pack_lib =
  arrow :: arrow_lib
  uuid_hash :: hash_fn
  compute_segment_statistics :: "record_batch \<Rightarrow> string"
  segment_content_hash :: "record_batch \<Rightarrow> uuid result"

record segment_row_spec =
  sr_seg_uuid :: uuid
  sr_chunk_idx :: nat
  sr_partition_value :: "string option"
  sr_offset :: int
  sr_length :: int
  sr_size_bytes :: int
  sr_statistics :: string
  sr_content_hash :: uuid

record snapshot_file_step =
  fs_snap_uuid :: uuid
  fs_uri :: string
  fs_file_batch :: record_batch
  fs_segment_rows :: "segment_row_spec list"

record carried_segment_spec =
  cs_new_seg_uuid :: uuid
  cs_chunk_idx :: nat
  cs_prior_seg_uuid :: uuid

datatype pack_step = PackFile snapshot_file_step | PackCarried "carried_segment_spec list"

record open_partition =
  op_label :: "string option"
  op_acc :: "record_batch list"
  op_acc_rows :: int
  op_emitted_any :: bool

record packer =
  pk_snap_uuid :: uuid
  pk_catalog_uuid :: uuid
  pk_branch_uuid :: uuid
  pk_base_uri :: string
  pk_storage_format :: string
  pk_max_segment_bytes :: int
  pk_buffered :: "(string option \<times> record_batch) list"
  pk_buffered_bytes :: int
  pk_chunk_idx :: nat
  pk_open :: "open_partition option"

section \<open>The segment packer\<close>

definition packer_new :: "uuid \<Rightarrow> uuid \<Rightarrow> uuid \<Rightarrow> string \<Rightarrow> string \<Rightarrow> int \<Rightarrow> packer" where
  "packer_new snap catalog branch base fmt cap =
     \<lparr>pk_snap_uuid = snap, pk_catalog_uuid = catalog, pk_branch_uuid = branch, pk_base_uri = base,
      pk_storage_format = fmt, pk_max_segment_bytes = cap, pk_buffered = [], pk_buffered_bytes = 0,
      pk_chunk_idx = 0, pk_open = None\<rparr>"

definition uri_for :: "packer \<Rightarrow> uuid \<Rightarrow> string" where
  "uri_for p file_seg_uuid =
     snapshot_segment_uri (pk_base_uri p) (pk_catalog_uuid p) (pk_branch_uuid p) (pk_snap_uuid p)
       file_seg_uuid (pk_storage_format p)"

text \<open>The loop of \<open>flush\<close>: one segment row per buffered partition, with the running
  row offset and the dense chunk index.\<close>

fun flush_rows :: "pack_lib \<Rightarrow> uuid \<Rightarrow> nat \<Rightarrow> int \<Rightarrow> (string option \<times> record_batch) list \<Rightarrow>
    (segment_row_spec list \<times> nat) result" where
  "flush_rows lib snap idx offset [] = Inr ([], idx)"
| "flush_rows lib snap idx offset ((lbl, batch) # parts) =
     rbind (batch_in_memory_bytes batch) (\<lambda>size.
     rbind (segment_content_hash lib batch) (\<lambda>hash.
     rbind (flush_rows lib snap (Suc idx) (offset + int (num_rows batch)) parts) (\<lambda>(specs, idx').
     Inr (\<lparr>sr_seg_uuid = table_snapshot_segment_uuid (uuid_hash lib) snap idx, sr_chunk_idx = idx,
           sr_partition_value = lbl, sr_offset = offset, sr_length = int (num_rows batch),
           sr_size_bytes = size, sr_statistics = compute_segment_statistics lib batch,
           sr_content_hash = hash\<rparr> # specs, idx'))))"

definition flush :: "pack_lib \<Rightarrow> packer \<Rightarrow> (packer \<times> snapshot_file_step list) result" where
  "flush lib p =
     (case pk_buffered p of
        [] \<Rightarrow> Inr (p, [])
      | (lbl, first_batch) # rest \<Rightarrow>
          rbind (concat_batches (schema first_batch) (map snd (pk_buffered p))) (\<lambda>file_batch.
          rbind (flush_rows lib (pk_snap_uuid p) (pk_chunk_idx p) 0 (pk_buffered p)) (\<lambda>(specs, idx').
          Inr (p\<lparr>pk_buffered := [], pk_buffered_bytes := 0, pk_chunk_idx := idx'\<rparr>,
               [\<lparr>fs_snap_uuid = pk_snap_uuid p,
                 fs_uri = uri_for p (table_snapshot_segment_uuid (uuid_hash lib) (pk_snap_uuid p) (pk_chunk_idx p)),
                 fs_file_batch = file_batch, fs_segment_rows = specs\<rparr>]))))"

definition single_partition_file :: "pack_lib \<Rightarrow> packer \<Rightarrow> string option \<Rightarrow> record_batch \<Rightarrow> int \<Rightarrow>
    (packer \<times> snapshot_file_step) result" where
  "single_partition_file lib p lbl chunk chunk_bytes =
     (let seg = table_snapshot_segment_uuid (uuid_hash lib) (pk_snap_uuid p) (pk_chunk_idx p) in
      rbind (segment_content_hash lib chunk) (\<lambda>hash.
      Inr (p\<lparr>pk_chunk_idx := Suc (pk_chunk_idx p)\<rparr>,
           \<lparr>fs_snap_uuid = pk_snap_uuid p, fs_uri = uri_for p seg, fs_file_batch = chunk,
            fs_segment_rows =
              [\<lparr>sr_seg_uuid = seg, sr_chunk_idx = pk_chunk_idx p, sr_partition_value = lbl,
                sr_offset = 0, sr_length = int (num_rows chunk), sr_size_bytes = chunk_bytes,
                sr_statistics = compute_segment_statistics lib chunk, sr_content_hash = hash\<rparr>]\<rparr>)))"

fun emit_ranges :: "pack_lib \<Rightarrow> packer \<Rightarrow> string option \<Rightarrow> record_batch \<Rightarrow> (nat \<times> nat \<times> int) list \<Rightarrow>
    (packer \<times> snapshot_file_step list) result" where
  "emit_ranges lib p lbl batch [] = Inr (p, [])"
| "emit_ranges lib p lbl batch ((offset, len, chunk_bytes) # ranges) =
     rbind (single_partition_file lib p lbl (batch_slice batch offset len) chunk_bytes) (\<lambda>(p1, step).
     rbind (emit_ranges lib p1 lbl batch ranges) (\<lambda>(p2, steps). Inr (p2, step # steps)))"

definition push_partition :: "pack_lib \<Rightarrow> packer \<Rightarrow> string option \<Rightarrow> record_batch \<Rightarrow>
    (packer \<times> snapshot_file_step list) result" where
  "push_partition lib p lbl clustered =
     (if num_rows clustered = 0 then Inr (p, [])
      else rbind (batch_in_memory_bytes clustered) (\<lambda>part_bytes.
        if part_bytes > pk_max_segment_bytes p then
          rbind (flush lib p) (\<lambda>(p1, out1).
          rbind (chunk_row_ranges clustered (pk_max_segment_bytes p1)) (\<lambda>ranges.
          rbind (emit_ranges lib p1 lbl clustered ranges) (\<lambda>(p2, out2). Inr (p2, out1 @ out2))))
        else
          rbind (if pk_buffered p \<noteq> [] \<and> pk_buffered_bytes p + part_bytes > pk_max_segment_bytes p
                 then flush lib p else Inr (p, [])) (\<lambda>(p1, out1).
          Inr (p1\<lparr>pk_buffered := pk_buffered p1 @ [(lbl, clustered)],
                  pk_buffered_bytes := pk_buffered_bytes p1 + part_bytes\<rparr>, out1))))"

definition push_partition_chunk :: "pack_lib \<Rightarrow> packer \<Rightarrow> string option \<Rightarrow> record_batch \<Rightarrow>
    (packer \<times> snapshot_file_step list) result" where
  "push_partition_chunk lib p lbl batch =
     (if num_rows batch = 0 then Inr (p, [])
      else
        (let opened = (case pk_open p of
               Some op \<Rightarrow> op
             | None \<Rightarrow> \<lparr>op_label = lbl, op_acc = [], op_acc_rows = 0, op_emitted_any = False\<rparr>);
             op1 = opened\<lparr>op_acc := op_acc opened @ [batch],
                          op_acc_rows := op_acc_rows opened + int (num_rows batch)\<rparr>
         in
         rbind (concat_batches (schema (hd (op_acc op1))) (op_acc op1)) (\<lambda>combined.
         rbind (chunk_row_ranges combined (pk_max_segment_bytes p)) (\<lambda>ranges.
         if length ranges \<le> 1 then Inr (p\<lparr>pk_open := Some (op1\<lparr>op_acc := [combined]\<rparr>)\<rparr>, [])
         else
           rbind (if \<not> op_emitted_any op1 then flush lib (p\<lparr>pk_open := Some op1\<rparr>)
                  else Inr (p\<lparr>pk_open := Some op1\<rparr>, [])) (\<lambda>(p1, out1).
           rbind (emit_ranges lib p1 lbl combined (butlast ranges)) (\<lambda>(p2, out2).
           case last ranges of (last_offset, last_len, _) \<Rightarrow>
             let tail = batch_slice combined last_offset last_len in
             Inr (p2\<lparr>pk_open := Some (op1\<lparr>op_acc_rows := int (num_rows tail), op_acc := [tail],
                                          op_emitted_any := True\<rparr>)\<rparr>, out1 @ out2)))))))"

definition finish_partition :: "pack_lib \<Rightarrow> packer \<Rightarrow> (packer \<times> snapshot_file_step list) result" where
  "finish_partition lib p =
     (case pk_open p of
        None \<Rightarrow> Inr (p, [])
      | Some op \<Rightarrow>
          (let p0 = p\<lparr>pk_open := None\<rparr> in
           if op_acc_rows op = 0 then Inr (p0, [])
           else
             rbind (concat_batches (schema (hd (op_acc op))) (op_acc op)) (\<lambda>combined.
             if \<not> op_emitted_any op then push_partition lib p0 (op_label op) combined
             else
               rbind (chunk_row_ranges combined (pk_max_segment_bytes p0)) (\<lambda>ranges.
               emit_ranges lib p0 (op_label op) combined ranges))))"

definition packer_finish :: "pack_lib \<Rightarrow> packer \<Rightarrow> snapshot_file_step list result" where
  "packer_finish lib p = rbind (flush lib p) (\<lambda>(p1, out). Inr out)"

fun claim_carried :: "pack_lib \<Rightarrow> packer \<Rightarrow> uuid list \<Rightarrow> packer \<times> carried_segment_spec list" where
  "claim_carried lib p [] = (p, [])"
| "claim_carried lib p (prior # priors) =
     (let idx = pk_chunk_idx p;
          spec = \<lparr>cs_new_seg_uuid = table_snapshot_segment_uuid (uuid_hash lib) (pk_snap_uuid p) idx,
                  cs_chunk_idx = idx, cs_prior_seg_uuid = prior\<rparr>
      in case claim_carried lib (p\<lparr>pk_chunk_idx := Suc idx\<rparr>) priors of
           (p', specs) \<Rightarrow> (p', spec # specs))"

section \<open>What a file and a step carry\<close>

definition file_idxs :: "snapshot_file_step list \<Rightarrow> nat list" where
  "file_idxs fs = concat (map (\<lambda>f. map sr_chunk_idx (fs_segment_rows f)) fs)"

definition file_rows :: "snapshot_file_step list \<Rightarrow> row list" where
  "file_rows fs = concat (map (\<lambda>f. rows (fs_file_batch f)) fs)"

fun step_idxs :: "pack_step \<Rightarrow> nat list" where
  "step_idxs (PackFile f) = map sr_chunk_idx (fs_segment_rows f)"
| "step_idxs (PackCarried cs) = map cs_chunk_idx cs"

fun step_rows :: "pack_step \<Rightarrow> row list" where
  "step_rows (PackFile f) = rows (fs_file_batch f)"
| "step_rows (PackCarried cs) = []"

text \<open>The segment rows of a file tile its batch: consecutive non-empty row ranges, each
  with the footprint of its slice; a file over the cap holds a single row.\<close>

fun rows_tile :: "afield list \<Rightarrow> segment_row_spec list \<Rightarrow> int \<Rightarrow> row list \<Rightarrow> bool" where
  "rows_tile sch [] offset rs = (rs = [])"
| "rows_tile sch (s # specs) offset rs =
     (sr_offset s = offset \<and> 0 < sr_length s \<and> nat (sr_length s) \<le> length rs \<and>
      sr_size_bytes s = weight_of (row_weight sch) (take (nat (sr_length s)) rs) \<and>
      rows_tile sch specs (offset + sr_length s) (drop (nat (sr_length s)) rs))"

definition file_ok :: "afield list \<Rightarrow> int \<Rightarrow> snapshot_file_step \<Rightarrow> bool" where
  "file_ok sch cap f =
     (schema (fs_file_batch f) = sch \<and> rows (fs_file_batch f) \<noteq> [] \<and>
      rows_tile sch (fs_segment_rows f) 0 (rows (fs_file_batch f)) \<and>
      (weight_of (row_weight sch) (rows (fs_file_batch f)) \<le> cap \<or> length (rows (fs_file_batch f)) = 1))"

definition buffered_rows :: "packer \<Rightarrow> row list" where
  "buffered_rows p = concat (map (\<lambda>(l, b). rows b) (pk_buffered p))"

definition open_rows :: "packer \<Rightarrow> row list" where
  "open_rows p = (case pk_open p of None \<Rightarrow> [] | Some op \<Rightarrow> concat (map rows (op_acc op)))"

definition packer_rows :: "packer \<Rightarrow> row list" where
  "packer_rows p = buffered_rows p @ open_rows p"

definition batch_ok :: "afield list \<Rightarrow> record_batch \<Rightarrow> bool" where
  "batch_ok sch b = (schema b = sch \<and> wf_batch b)"

definition open_inv :: "afield list \<Rightarrow> int \<Rightarrow> open_partition \<Rightarrow> bool" where
  "open_inv sch cap op =
     (op_acc op \<noteq> [] \<and> list_all (batch_ok sch) (op_acc op) \<and>
      op_acc_rows op = int (length (concat (map rows (op_acc op)))) \<and> concat (map rows (op_acc op)) \<noteq> [] \<and>
      split_rows (row_weight sch) cap [] (concat (map rows (op_acc op))) = [concat (map rows (op_acc op))])"

definition buffer_inv :: "afield list \<Rightarrow> packer \<Rightarrow> bool" where
  "buffer_inv sch p =
     (list_all (\<lambda>(l, b). batch_ok sch b \<and> rows b \<noteq> []) (pk_buffered p) \<and>
      pk_buffered_bytes p = weight_of (row_weight sch) (buffered_rows p) \<and>
      (pk_buffered p = [] \<or> pk_buffered_bytes p \<le> pk_max_segment_bytes p))"

definition packer_inv :: "afield list \<Rightarrow> packer \<Rightarrow> bool" where
  "packer_inv sch p =
     (buffer_inv sch p \<and>
      (case pk_open p of None \<Rightarrow> True
       | Some op \<Rightarrow> open_inv sch (pk_max_segment_bytes p) op \<and> (op_emitted_any op \<longrightarrow> pk_buffered p = [])))"

lemma file_simps [simp]:
  "file_idxs [] = []" "file_idxs (f # fs) = map sr_chunk_idx (fs_segment_rows f) @ file_idxs fs"
  "file_idxs (fs @ gs) = file_idxs fs @ file_idxs gs"
  "file_rows [] = []" "file_rows (f # fs) = rows (fs_file_batch f) @ file_rows fs"
  "file_rows (fs @ gs) = file_rows fs @ file_rows gs"
  by (simp_all add: file_idxs_def file_rows_def)

lemma step_file_simps [simp]:
  "concat (map step_idxs (map PackFile fs)) = file_idxs fs"
  "concat (map step_rows (map PackFile fs)) = file_rows fs"
  by (simp_all add: file_idxs_def file_rows_def comp_def)

lemma flush_rows_idxs:
  "flush_rows lib snap idx offset parts = Inr (specs, idx') \<Longrightarrow>
   idx' = idx + length parts \<and> map sr_chunk_idx specs = [idx..<idx'] \<and>
   map sr_partition_value specs = map fst parts"
proof (induction parts arbitrary: idx offset specs idx')
  case (Cons part parts)
  obtain lbl batch where part: "part = (lbl, batch)" by (cases part)
  with Cons.prems obtain s specs0 where
    rest: "flush_rows lib snap (Suc idx) (offset + int (num_rows batch)) parts = Inr (specs0, idx')"
    and specs: "specs = s # specs0" "sr_chunk_idx s = idx" "sr_partition_value s = lbl"
    by (auto simp: rbind_eq_Inr)
  show ?case using Cons.IH[OF rest] specs part by (simp add: upt_conv_Cons del: upt_Suc)
qed simp

lemma flush_rows_tile:
  "flush_rows lib snap idx offset parts = Inr (specs, idx') \<Longrightarrow>
   list_all (\<lambda>(l, b). batch_ok sch b \<and> rows b \<noteq> []) parts \<Longrightarrow>
   rows_tile sch specs offset (concat (map (\<lambda>(l, b). rows b) parts))"
proof (induction parts arbitrary: idx offset specs idx')
  case (Cons part parts)
  obtain lbl batch where part: "part = (lbl, batch)" by (cases part)
  with Cons.prems obtain size specs0 where size: "batch_in_memory_bytes batch = Inr size"
    and rest: "flush_rows lib snap (Suc idx) (offset + int (num_rows batch)) parts = Inr (specs0, idx')"
    and specs: "\<exists>s. specs = s # specs0 \<and> sr_offset s = offset \<and> sr_length s = int (num_rows batch) \<and>
      sr_size_bytes s = size"
    by (auto simp: rbind_eq_Inr)
  have "size = weight_of (row_weight sch) (rows batch)" "rows batch \<noteq> []"
    using size Cons.prems(2) part by (auto simp: batch_ok_def batch_in_memory_bytes_costable)
  moreover have "rows_tile sch specs0 (offset + int (num_rows batch)) (concat (map (\<lambda>(l, b). rows b) parts))"
    using Cons.IH[OF rest] Cons.prems(2) by simp
  ultimately show ?case using specs part by (auto simp: num_rows_def)
qed simp

section \<open>The packer as a queue of rows\<close>

definition same_config :: "packer \<Rightarrow> packer \<Rightarrow> bool" where
  "same_config p p' =
     (pk_snap_uuid p' = pk_snap_uuid p \<and> pk_catalog_uuid p' = pk_catalog_uuid p \<and>
      pk_branch_uuid p' = pk_branch_uuid p \<and> pk_base_uri p' = pk_base_uri p \<and>
      pk_storage_format p' = pk_storage_format p \<and> pk_max_segment_bytes p' = pk_max_segment_bytes p)"

text \<open>The contract of a packer operation that feeds the rows \<open>fed\<close>: what comes out
  followed by what is still held is what was held followed by \<open>fed\<close>, the emitted
  segment rows take the next chunk indices in order, and every file is well formed.\<close>

definition packs :: "afield list \<Rightarrow> packer \<Rightarrow> row list \<Rightarrow> packer \<Rightarrow> snapshot_file_step list \<Rightarrow> bool" where
  "packs sch p fed p' out =
     (packer_inv sch p' \<and> same_config p p' \<and> pk_chunk_idx p \<le> pk_chunk_idx p' \<and>
      file_rows out @ packer_rows p' = packer_rows p @ fed \<and>
      file_idxs out = [pk_chunk_idx p..<pk_chunk_idx p'] \<and>
      list_all (file_ok sch (pk_max_segment_bytes p)) out)"

lemma packs_refl: "packer_inv sch p \<Longrightarrow> packs sch p [] p []"
  by (simp add: packs_def same_config_def)

lemma packs_trans:
  assumes "packs sch p fed p1 out1" "packs sch p1 fed' p2 out2"
  shows "packs sch p (fed @ fed') p2 (out1 @ out2)"
proof -
  have "file_rows out1 @ file_rows out2 @ packer_rows p2 = packer_rows p @ fed @ fed'"
    using assms unfolding packs_def by (metis append.assoc)
  moreover have "[pk_chunk_idx p..<pk_chunk_idx p1] @ [pk_chunk_idx p1..<pk_chunk_idx p2] =
      [pk_chunk_idx p..<pk_chunk_idx p2]"
    using assms by (auto simp: packs_def upt_add_eq_append[symmetric] le_iff_add)
  ultimately show ?thesis using assms by (auto simp: packs_def same_config_def)
qed

lemma concat_batches_ok:
  "list_all (batch_ok sch) bs \<Longrightarrow> concat_batches sch bs = Inr \<lparr>schema = sch, rows = concat (map rows bs)\<rparr>"
  by (auto simp: concat_batches_def batch_ok_def list_all_iff)

lemma batch_ok_concat:
  "list_all (batch_ok sch) bs \<Longrightarrow> batch_ok sch \<lparr>schema = sch, rows = concat (map rows bs)\<rparr>"
  by (induction bs) (auto simp: batch_ok_def wf_batch_def)

lemma concat_batches_hd:
  assumes "list_all (batch_ok sch) bs" "bs \<noteq> []"
  shows "concat_batches (schema (hd bs)) bs = Inr \<lparr>schema = sch, rows = concat (map rows bs)\<rparr>"
proof -
  have "schema (hd bs) = sch" using assms by (cases bs) (auto simp: batch_ok_def)
  then show ?thesis using concat_batches_ok[OF assms(1)] by simp
qed

lemma buffered_rows_Nil [simp]: "pk_buffered p = [] \<Longrightarrow> buffered_rows p = []"
  by (simp add: buffered_rows_def)

lemma flush_spec:
  assumes "buffer_inv sch p" "flush lib p = Inr (p', out)"
  shows "buffer_inv sch p'" "pk_buffered p' = []" "pk_open p' = pk_open p" "same_config p p'"
    and "file_rows out = buffered_rows p" "list_all (file_ok sch (pk_max_segment_bytes p)) out"
    and "pk_chunk_idx p \<le> pk_chunk_idx p'" "file_idxs out = [pk_chunk_idx p..<pk_chunk_idx p']"
proof -
  have "buffer_inv sch p' \<and> pk_buffered p' = [] \<and> pk_open p' = pk_open p \<and> same_config p p' \<and>
    file_rows out = buffered_rows p \<and> list_all (file_ok sch (pk_max_segment_bytes p)) out \<and>
    pk_chunk_idx p \<le> pk_chunk_idx p' \<and> file_idxs out = [pk_chunk_idx p..<pk_chunk_idx p']"
  proof (cases "pk_buffered p")
    case Nil
    then show ?thesis using assms by (auto simp: flush_def same_config_def buffered_rows_def)
  next
    case (Cons part parts)
    obtain lbl batch where part: "part = (lbl, batch)" by (cases part)
    have ok: "list_all (\<lambda>(l, b). batch_ok sch b \<and> rows b \<noteq> []) (pk_buffered p)"
      using assms(1) by (simp add: buffer_inv_def)
    then have ok': "list_all (batch_ok sch) (map snd (pk_buffered p))"
      by (auto simp: list_all_iff)
    have rows_eq: "concat (map rows (map snd (pk_buffered p))) = buffered_rows p"
      by (simp add: buffered_rows_def comp_def split_def)
    have cat: "concat_batches (schema batch) (map snd (pk_buffered p)) =
        Inr \<lparr>schema = sch, rows = buffered_rows p\<rparr>"
      using concat_batches_hd[OF ok'] rows_eq Cons part by simp
    from assms(2) Cons part cat obtain specs idx' where
      specs: "flush_rows lib (pk_snap_uuid p) (pk_chunk_idx p) 0 (pk_buffered p) = Inr (specs, idx')"
      and p': "p' = p\<lparr>pk_buffered := [], pk_buffered_bytes := 0, pk_chunk_idx := idx'\<rparr>"
      and out: "\<exists>f. out = [f] \<and> fs_file_batch f = \<lparr>schema = sch, rows = buffered_rows p\<rparr> \<and> fs_segment_rows f = specs"
      by (auto simp: flush_def rbind_eq_Inr)
    have "rows_tile sch specs 0 (buffered_rows p)"
      using flush_rows_tile[OF specs ok] by (simp add: buffered_rows_def)
    moreover have "buffered_rows p \<noteq> []" using ok Cons part by (auto simp: buffered_rows_def)
    moreover have "weight_of (row_weight sch) (buffered_rows p) \<le> pk_max_segment_bytes p"
      using assms(1) Cons by (auto simp: buffer_inv_def)
    ultimately show ?thesis
      using flush_rows_idxs[OF specs] out p'
      by (auto simp: buffer_inv_def same_config_def file_ok_def)
  qed
  then show "buffer_inv sch p'" "pk_buffered p' = []" "pk_open p' = pk_open p" "same_config p p'"
    "file_rows out = buffered_rows p" "list_all (file_ok sch (pk_max_segment_bytes p)) out"
    "pk_chunk_idx p \<le> pk_chunk_idx p'" "file_idxs out = [pk_chunk_idx p..<pk_chunk_idx p']"
    by blast+
qed

lemma flush_packs:
  assumes "packer_inv sch p" "flush lib p = Inr (p', out)"
  shows "packs sch p [] p' out" "pk_buffered p' = []" "pk_open p' = pk_open p"
proof -
  have inv: "buffer_inv sch p" using assms(1) by (simp add: packer_inv_def)
  note spec = flush_spec[OF inv assms(2)]
  show "pk_buffered p' = []" "pk_open p' = pk_open p" using spec by auto
  show "packs sch p [] p' out"
    using spec assms(1)
    by (auto simp: packs_def packer_inv_def same_config_def packer_rows_def buffered_rows_def open_rows_def
        split: option.splits)
qed

text \<open>The chunk files of one partition: one file per range, in order.\<close>

lemma emit_ranges_spec:
  assumes "emit_ranges lib p lbl b ranges = Inr (p', out)"
  shows "p' = p\<lparr>pk_chunk_idx := pk_chunk_idx p + length ranges\<rparr>"
    and "file_idxs out = [pk_chunk_idx p..<pk_chunk_idx p']"
    and "map fs_file_batch out = map (\<lambda>(s, l, r). batch_slice b s l) ranges"
    and "list_all2 (\<lambda>f (s, l, r). \<exists>spec. fs_segment_rows f = [spec] \<and> sr_offset spec = 0 \<and>
      sr_length spec = int (num_rows (batch_slice b s l)) \<and> sr_size_bytes spec = r \<and>
      sr_partition_value spec = lbl) out ranges"
proof -
  have "p' = p\<lparr>pk_chunk_idx := pk_chunk_idx p + length ranges\<rparr> \<and>
    file_idxs out = [pk_chunk_idx p..<pk_chunk_idx p'] \<and>
    map fs_file_batch out = map (\<lambda>(s, l, r). batch_slice b s l) ranges \<and>
    list_all2 (\<lambda>f (s, l, r). \<exists>spec. fs_segment_rows f = [spec] \<and> sr_offset spec = 0 \<and>
      sr_length spec = int (num_rows (batch_slice b s l)) \<and> sr_size_bytes spec = r \<and>
      sr_partition_value spec = lbl) out ranges"
    using assms
  proof (induction ranges arbitrary: p out)
    case (Cons range ranges)
    obtain s l r where range: "range = (s, l, r)" by (cases range)
    with Cons.prems obtain p1 step steps where
      step: "single_partition_file lib p lbl (batch_slice b s l) r = Inr (p1, step)"
      and rest: "emit_ranges lib p1 lbl b ranges = Inr (p', steps)" and out: "out = step # steps"
      by (auto simp: rbind_eq_Inr)
    have p1: "p1 = p\<lparr>pk_chunk_idx := Suc (pk_chunk_idx p)\<rparr>" "fs_file_batch step = batch_slice b s l"
      "\<exists>spec. fs_segment_rows step = [spec] \<and> sr_chunk_idx spec = pk_chunk_idx p \<and> sr_offset spec = 0 \<and>
      sr_length spec = int (num_rows (batch_slice b s l)) \<and> sr_size_bytes spec = r \<and>
      sr_partition_value spec = lbl"
      using step by (auto simp: single_partition_file_def Let_def rbind_eq_Inr)
    show ?case
      using Cons.IH[OF rest] p1 out range by (auto simp: upt_conv_Cons simp del: upt_Suc)
  qed simp
  then show "p' = p\<lparr>pk_chunk_idx := pk_chunk_idx p + length ranges\<rparr>"
    "file_idxs out = [pk_chunk_idx p..<pk_chunk_idx p']"
    "map fs_file_batch out = map (\<lambda>(s, l, r). batch_slice b s l) ranges"
    "list_all2 (\<lambda>f (s, l, r). \<exists>spec. fs_segment_rows f = [spec] \<and> sr_offset spec = 0 \<and>
      sr_length spec = int (num_rows (batch_slice b s l)) \<and> sr_size_bytes spec = r \<and>
      sr_partition_value spec = lbl) out ranges"
    by blast+
qed

lemma emit_ranges_chunks:
  assumes "batch_ok sch b" "rows b \<noteq> []" "chunk_row_ranges b cap = Inr ranges"
    and "emit_ranges lib p lbl b rs = Inr (p', out)" "set rs \<subseteq> set ranges"
  shows "list_all (file_ok sch cap) out"
    and "file_rows out = concat (map (\<lambda>(s, l, r). slice_rows s l (rows b)) rs)"
proof -
  have wf: "wf_batch b" "schema b = sch" using assms(1) by (auto simp: batch_ok_def)
  have ok: "file_ok sch cap f"
    if batch: "fs_file_batch f = batch_slice b s l" and in_rs: "(s, l, r) \<in> set rs"
      and spec: "fs_segment_rows f = [spec]" "sr_offset spec = 0"
        "sr_length spec = int (num_rows (batch_slice b s l))" "sr_size_bytes spec = r" for f s l r spec
  proof -
    obtain c where c: "c \<in> set (split_rows (row_weight sch) cap [] (rows b))"
      "rows (batch_slice b s l) = c" "l = length c" "r = weight_of (row_weight sch) c"
      using chunk_row_ranges_entry[OF wf(1) assms(3)] in_rs assms(5) wf(2) by (metis subsetD)
    have "c \<noteq> []" using split_rows_chunk_nonempty[OF c(1)] assms(2) by simp
    moreover have "weight_of (row_weight sch) c \<le> cap \<or> length c \<le> 1"
      using split_rows_cap[OF c(1)] by simp
    moreover have "schema (batch_slice b s l) = sch" using wf(2) by (simp add: batch_slice_def)
    ultimately show ?thesis
      using c spec batch by (auto simp: file_ok_def num_rows_def le_Suc_eq)
  qed
  have len: "length out = length rs" using emit_ranges_spec(4)[OF assms(4)] by (rule list_all2_lengthD)
  have "file_ok sch cap (out ! i)" if "i < length out" for i
  proof -
    obtain s l r where rs: "rs ! i = (s, l, r)" by (cases "rs ! i")
    have "fs_file_batch (out ! i) = batch_slice b s l"
      using arg_cong[OF emit_ranges_spec(3)[OF assms(4)], of "\<lambda>xs. xs ! i"] that len rs by simp
    then show ?thesis
      using list_all2_nthD[OF emit_ranges_spec(4)[OF assms(4)] that] ok[of "out ! i" s l r] that len rs
      by (auto simp: in_set_conv_nth)
  qed
  then show "list_all (file_ok sch cap) out" by (simp add: list_all_length)
  have "map (\<lambda>f. rows (fs_file_batch f)) out = map rows (map fs_file_batch out)" by simp
  also have "\<dots> = map (\<lambda>(s, l, r). slice_rows s l (rows b)) rs"
    unfolding emit_ranges_spec(3)[OF assms(4)] by (auto simp: batch_slice_def)
  finally show "file_rows out = concat (map (\<lambda>(s, l, r). slice_rows s l (rows b)) rs)"
    by (simp add: file_rows_def)
qed

text \<open>The rows of a batch cut at the chunk ranges: all but the last range, and the
  last.\<close>

lemma chunk_ranges_rows:
  assumes "batch_ok sch b" "rows b \<noteq> []" "chunk_row_ranges b cap = Inr ranges"
  shows "map (\<lambda>(s, l, r). slice_rows s l (rows b)) ranges = split_rows (row_weight sch) cap [] (rows b)"
    and "ranges \<noteq> []"
proof -
  have wf: "wf_batch b" "schema b = sch" using assms(1) by (auto simp: batch_ok_def)
  have "map (\<lambda>(s, l, r). slice_rows s l (rows b)) ranges =
        map fst (map (\<lambda>(s, l, r). (slice_rows s l (rows b), l, r)) ranges)" by auto
  also have "\<dots> = split_rows (row_weight sch) cap [] (rows b)"
    unfolding chunk_row_ranges_split[OF wf(1) assms(2,3)] wf(2) by (simp add: comp_def)
  finally show "map (\<lambda>(s, l, r). slice_rows s l (rows b)) ranges =
    split_rows (row_weight sch) cap [] (rows b)" .
  then show "ranges \<noteq> []" by (metis list.simps(8) split_rows_nonempty)
qed

lemma push_partition_packs:
  assumes inv: "packer_inv sch p" and closed: "pk_open p = None" and ok: "batch_ok sch b"
    and push: "push_partition lib p lbl b = Inr (p', out)"
  shows "packs sch p (rows b) p' out" "pk_open p' = None"
proof -
  have "packs sch p (rows b) p' out \<and> pk_open p' = None"
  proof (cases "rows b = []")
    case True
    then show ?thesis using push packs_refl[OF inv] closed by (auto simp: push_partition_def num_rows_def)
  next
    case False
    obtain bytes where bytes: "batch_in_memory_bytes b = Inr bytes"
      using push False by (auto simp: push_partition_def num_rows_def rbind_eq_Inr)
    have weight: "bytes = weight_of (row_weight sch) (rows b)"
      using bytes ok by (simp add: batch_ok_def batch_in_memory_bytes_costable)
    show ?thesis
    proof (cases "bytes > pk_max_segment_bytes p")
      case True
      from push False bytes True obtain p1 out1 ranges out2 where
        fl: "flush lib p = Inr (p1, out1)"
        and ranges: "chunk_row_ranges b (pk_max_segment_bytes p1) = Inr ranges"
        and emit: "emit_ranges lib p1 lbl b ranges = Inr (p', out2)" and out: "out = out1 @ out2"
        by (auto simp: push_partition_def num_rows_def rbind_eq_Inr)
      note flushed = flush_packs[OF inv fl]
      have cap: "pk_max_segment_bytes p1 = pk_max_segment_bytes p" and inv1: "packer_inv sch p1"
        using flushed(1) by (auto simp: packs_def same_config_def)
      have "file_rows out2 = rows b"
        using emit_ranges_chunks(2)[OF ok False ranges emit] chunk_ranges_rows(1)[OF ok False ranges] by simp
      then have "packs sch p1 (rows b) p' out2"
        using emit_ranges_chunks(1)[OF ok False ranges emit] emit_ranges_spec(1,2)[OF emit] flushed(2,3) inv1 closed
        by (auto simp: packs_def same_config_def packer_inv_def buffer_inv_def packer_rows_def buffered_rows_def
            open_rows_def)
      from packs_trans[OF flushed(1) this] show ?thesis
        using out emit_ranges_spec(1)[OF emit] flushed(3) closed by auto
    next
      case fits: False
      from push False bytes fits obtain p1 out1 where
        fl: "(if pk_buffered p \<noteq> [] \<and> pk_buffered_bytes p + bytes > pk_max_segment_bytes p
              then flush lib p else Inr (p, [])) = Inr (p1, out)"
        and p': "p' = p1\<lparr>pk_buffered := pk_buffered p1 @ [(lbl, b)],
                          pk_buffered_bytes := pk_buffered_bytes p1 + bytes\<rparr>"
        by (auto simp: push_partition_def num_rows_def rbind_eq_Inr split del: if_split)
      have pre: "packs sch p [] p1 out" "pk_open p1 = None"
        "pk_buffered p1 = [] \<or> pk_buffered_bytes p1 + bytes \<le> pk_max_segment_bytes p1"
        using fl flush_packs[OF inv] packs_refl[OF inv] closed by (auto split: if_splits)
      have "packs sch p1 (rows b) p' []"
        using pre p' weight fits False ok
        by (auto simp: packs_def packer_inv_def buffer_inv_def same_config_def packer_rows_def buffered_rows_def
            open_rows_def)
      from packs_trans[OF pre(1) this] show ?thesis using p' pre(2) by auto
    qed
  qed
  then show "packs sch p (rows b) p' out" "pk_open p' = None" by auto
qed

definition opened_for :: "packer \<Rightarrow> string option \<Rightarrow> open_partition" where
  "opened_for p lbl =
     (case pk_open p of Some op \<Rightarrow> op
      | None \<Rightarrow> \<lparr>op_label = lbl, op_acc = [], op_acc_rows = 0, op_emitted_any = False\<rparr>)"

lemma opened_for_facts:
  assumes "packer_inv sch p"
  shows "list_all (batch_ok sch) (op_acc (opened_for p lbl))"
    and "concat (map rows (op_acc (opened_for p lbl))) = open_rows p"
    and "op_acc_rows (opened_for p lbl) = int (length (open_rows p))"
    and "op_emitted_any (opened_for p lbl) \<Longrightarrow> pk_buffered p = []"
  using assms by (auto simp: opened_for_def open_rows_def packer_inv_def open_inv_def split: option.splits)

text \<open>What \<open>push_partition_chunk\<close> computes on a non-empty batch, with the
  accumulated rows in one piece.\<close>

lemma push_partition_chunk_cases:
  fixes p :: packer
  assumes inv: "packer_inv sch p" and ok: "batch_ok sch b" and ne: "rows b \<noteq> []"
    and push: "push_partition_chunk lib p lbl b = Inr (p', out)"
  defines "combined \<equiv> \<lparr>schema = sch, rows = open_rows p @ rows b\<rparr>"
  obtains
    (grow) ranges where
      "chunk_row_ranges combined (pk_max_segment_bytes p) = Inr ranges" "length ranges \<le> 1" "out = []"
      "p' = p\<lparr>pk_open := Some ((opened_for p lbl)\<lparr>op_acc := [combined],
                op_acc_rows := int (length (rows combined))\<rparr>)\<rparr>"
  | (spill) ranges op1 p1 out1 p2 out2 tail where
      "chunk_row_ranges combined (pk_max_segment_bytes p) = Inr ranges" "1 < length ranges"
      "op_emitted_any op1 = op_emitted_any (opened_for p lbl)" "op_label op1 = op_label (opened_for p lbl)"
      "(if \<not> op_emitted_any op1 then flush lib (p\<lparr>pk_open := Some op1\<rparr>)
        else Inr (p\<lparr>pk_open := Some op1\<rparr>, [])) = Inr (p1, out1)"
      "emit_ranges lib p1 lbl combined (butlast ranges) = Inr (p2, out2)"
      "tail = (case last ranges of (s, l, r) \<Rightarrow> batch_slice combined s l)"
      "p' = p2\<lparr>pk_open := Some (op1\<lparr>op_acc_rows := int (num_rows tail), op_acc := [tail],
                 op_emitted_any := True\<rparr>)\<rparr>"
      "out = out1 @ out2"
proof -
  define op1 where "op1 = (opened_for p lbl)\<lparr>op_acc := op_acc (opened_for p lbl) @ [b],
    op_acc_rows := op_acc_rows (opened_for p lbl) + int (num_rows b)\<rparr>"
  have accs: "list_all (batch_ok sch) (op_acc op1)" "op_acc op1 \<noteq> []"
    "concat (map rows (op_acc op1)) = open_rows p @ rows b"
    "op_acc_rows op1 = int (length (rows combined))"
    using opened_for_facts[OF inv, of lbl] ok by (auto simp: op1_def combined_def num_rows_def)
  have cat: "concat_batches (schema (hd (op_acc op1))) (op_acc op1) = Inr combined"
    using concat_batches_hd[OF accs(1,2)] accs(3) by (simp add: combined_def)
  have eq: "push_partition_chunk lib p lbl b =
      rbind (chunk_row_ranges combined (pk_max_segment_bytes p)) (\<lambda>ranges.
         if length ranges \<le> 1 then Inr (p\<lparr>pk_open := Some (op1\<lparr>op_acc := [combined]\<rparr>)\<rparr>, [])
         else
           rbind (if \<not> op_emitted_any op1 then flush lib (p\<lparr>pk_open := Some op1\<rparr>)
                  else Inr (p\<lparr>pk_open := Some op1\<rparr>, [])) (\<lambda>(p1, out1).
           rbind (emit_ranges lib p1 lbl combined (butlast ranges)) (\<lambda>(p2, out2).
           case last ranges of (last_offset, last_len, _) \<Rightarrow>
             let tail = batch_slice combined last_offset last_len in
             Inr (p2\<lparr>pk_open := Some (op1\<lparr>op_acc_rows := int (num_rows tail), op_acc := [tail],
                                          op_emitted_any := True\<rparr>)\<rparr>, out1 @ out2))))"
    using ne cat unfolding push_partition_chunk_def opened_for_def[symmetric] op1_def[symmetric] Let_def
    by (simp add: num_rows_def op1_def[symmetric])
  from push[unfolded eq] obtain ranges where
    ranges: "chunk_row_ranges combined (pk_max_segment_bytes p) = Inr ranges"
    by (auto simp: rbind_eq_Inr)
  show thesis
  proof (cases "length ranges \<le> 1")
    case True
    have "op1\<lparr>op_acc := [combined]\<rparr> =
        (opened_for p lbl)\<lparr>op_acc := [combined], op_acc_rows := int (length (rows combined))\<rparr>"
      using accs(4) by (simp add: op1_def)
    then show thesis using grow[OF ranges True] push[unfolded eq] ranges True by simp
  next
    case False
    obtain s l r where last: "last ranges = (s, l, r)" by (cases "last ranges")
    from push[unfolded eq] ranges False last obtain p1 out1 p2 out2 where spilled:
      "(if \<not> op_emitted_any op1 then flush lib (p\<lparr>pk_open := Some op1\<rparr>)
        else Inr (p\<lparr>pk_open := Some op1\<rparr>, [])) = Inr (p1, out1)"
      "emit_ranges lib p1 lbl combined (butlast ranges) = Inr (p2, out2)"
      "p' = p2\<lparr>pk_open := Some (op1\<lparr>op_acc_rows := int (num_rows (batch_slice combined s l)),
                 op_acc := [batch_slice combined s l], op_emitted_any := True\<rparr>)\<rparr>"
      "out = out1 @ out2"
      by (auto simp: rbind_eq_Inr Let_def split del: if_split)
    have "op_emitted_any op1 = op_emitted_any (opened_for p lbl)" "op_label op1 = op_label (opened_for p lbl)"
      by (simp_all add: op1_def)
    from spill[OF ranges _ this spilled(1,2) _ _ spilled(4)] show thesis
      using False last spilled(3) by simp
  qed
qed

lemma split_rows_single:
  assumes "length (split_rows w cap acc rs) \<le> 1"
  shows "split_rows w cap acc rs = [acc @ rs]"
proof -
  obtain c where c: "split_rows w cap acc rs = [c]"
    using assms by (cases "split_rows w cap acc rs") auto
  then have "concat [c] = acc @ rs" by (metis concat_split_rows)
  then show ?thesis using c by simp
qed

lemma open_combined_inv:
  assumes "batch_ok sch c" "rows c \<noteq> []" "split_rows (row_weight sch) cap [] (rows c) = [rows c]"
  shows "open_inv sch cap (op\<lparr>op_acc := [c], op_acc_rows := int (length (rows c))\<rparr>)"
  using assms by (simp add: open_inv_def)

lemma push_partition_chunk_packs:
  assumes inv: "packer_inv sch p" and ok: "batch_ok sch b"
    and push: "push_partition_chunk lib p lbl b = Inr (p', out)"
  shows "packs sch p (rows b) p' out"
proof (cases "rows b = []")
  case True
  then show ?thesis using push packs_refl[OF inv] by (simp add: push_partition_chunk_def num_rows_def)
next
  case False
  define cap where "cap = pk_max_segment_bytes p"
  define w where "w = row_weight sch"
  let ?c = "\<lparr>schema = sch, rows = open_rows p @ rows b\<rparr>"
  have c_ok: "batch_ok sch ?c" and c_ne: "rows ?c \<noteq> []"
    using opened_for_facts[OF inv, of lbl] ok batch_ok_concat[of sch "op_acc (opened_for p lbl) @ [b]"] False
    by auto
  have buf: "buffer_inv sch (p\<lparr>pk_open := op\<rparr>)" for op
    using inv by (auto simp: packer_inv_def buffer_inv_def buffered_rows_def)
  from inv ok False push show ?thesis
  proof (cases rule: push_partition_chunk_cases)
    case (grow ranges)
    have "length (split_rows w cap [] (rows ?c)) \<le> 1"
      using arg_cong[OF chunk_ranges_rows(1)[OF c_ok c_ne grow(1)], of length] grow(2)
      by (simp add: w_def cap_def)
    then have "split_rows w cap [] (rows ?c) = [rows ?c]"
      using split_rows_single[of w cap "[]"] by simp
    then have "open_inv sch cap ((opened_for p lbl)\<lparr>op_acc := [?c], op_acc_rows := int (length (rows ?c))\<rparr>)"
      using c_ok c_ne by (intro open_combined_inv) (auto simp: w_def)
    then show ?thesis
      using grow(3,4) buf opened_for_facts(4)[OF inv, of lbl]
      by (auto simp: packs_def packer_inv_def same_config_def packer_rows_def open_rows_def buffered_rows_def cap_def)
  next
    case (spill ranges op1 p1 out1 p2 out2 tail)
    let ?p0 = "p\<lparr>pk_open := Some op1\<rparr>"
    have flushed: "buffer_inv sch p1" "pk_buffered p1 = []" "same_config ?p0 p1" "file_rows out1 = buffered_rows p"
      "list_all (file_ok sch cap) out1" "pk_chunk_idx p \<le> pk_chunk_idx p1"
      "file_idxs out1 = [pk_chunk_idx p..<pk_chunk_idx p1]"
      using spill(3,5) flush_spec[OF buf[of "Some op1"], of lib p1 out1] buf opened_for_facts(4)[OF inv, of lbl]
      by (auto simp: same_config_def cap_def buffered_rows_def split: if_splits)
    note emitted = emit_ranges_spec[OF spill(6)]
    have files2: "list_all (file_ok sch cap) out2"
      "file_rows out2 = concat (map (\<lambda>(s, l, r). slice_rows s l (rows ?c)) (butlast ranges))"
      using emit_ranges_chunks[OF c_ok c_ne spill(1) spill(6)] by (auto simp: cap_def dest: in_set_butlastD)
    have slices: "map (\<lambda>(s, l, r). slice_rows s l (rows ?c)) ranges = split_rows w cap [] (rows ?c)"
      "ranges \<noteq> []"
      using chunk_ranges_rows[OF c_ok c_ne spill(1)] by (auto simp: w_def cap_def)
    have tail: "rows tail = last (split_rows w cap [] (rows ?c))" "schema tail = sch"
      unfolding slices(1)[symmetric] using slices(2) spill(7)
      by (auto simp: last_map batch_slice_def split: prod.splits)
    have in_split: "rows tail \<in> set (split_rows w cap [] (rows ?c))" using tail by simp
    have tail_ok: "batch_ok sch tail" "rows tail \<noteq> []" "split_rows w cap [] (rows tail) = [rows tail]"
    proof -
      have "set (rows tail) \<subseteq> set (rows ?c)"
        using in_split concat_split_rows[of w cap "[]" "rows ?c"] by (metis append_Nil set_concat UN_upper)
      then show "batch_ok sch tail" using c_ok tail(2) by (auto simp: batch_ok_def wf_batch_def)
      show "rows tail \<noteq> []" using split_rows_chunk_nonempty[OF in_split] c_ne by simp
      show "split_rows w cap [] (rows tail) = [rows tail]" using split_rows_stable[OF in_split] by simp
    qed
    have "file_rows out2 = concat (butlast (split_rows w cap [] (rows ?c)))"
      unfolding files2(2) slices(1)[symmetric] by (simp add: map_butlast)
    then have "file_rows out2 @ rows tail = concat (split_rows w cap [] (rows ?c))"
      unfolding tail(1) by (metis append_butlast_last_id concat_append concat.simps append_Nil2 split_rows_nonempty)
    then have "file_rows out2 @ rows tail = rows ?c" by simp
    moreover have "open_inv sch cap (op1\<lparr>op_acc_rows := int (num_rows tail), op_acc := [tail], op_emitted_any := True\<rparr>)"
      using tail_ok by (simp add: open_inv_def num_rows_def w_def)
    moreover have "[pk_chunk_idx p..<pk_chunk_idx p1] @ [pk_chunk_idx p1..<pk_chunk_idx p2] = [pk_chunk_idx p..<pk_chunk_idx p2]"
      using flushed(6) emitted(1) by (simp add: upt_add_eq_append[symmetric] le_iff_add)
    ultimately show ?thesis
      using flushed emitted(1,2) files2(1) spill(8,9)
      by (auto simp: packs_def packer_inv_def same_config_def packer_rows_def open_rows_def buffer_inv_def
          buffered_rows_def cap_def)
  qed
qed

lemma finish_partition_packs:
  assumes inv: "packer_inv sch p" and fin: "finish_partition lib p = Inr (p', out)"
  shows "packs sch p [] p' out" "pk_open p' = None"
proof -
  have "packs sch p [] p' out \<and> pk_open p' = None"
  proof (cases "pk_open p")
    case None
    then show ?thesis using fin packs_refl[OF inv] by (simp add: finish_partition_def)
  next
    case (Some op)
    let ?p0 = "p\<lparr>pk_open := None\<rparr>"
    let ?c = "\<lparr>schema = sch, rows = open_rows p\<rparr>"
    have acc: "list_all (batch_ok sch) (op_acc op)" "op_acc op \<noteq> []" "concat (map rows (op_acc op)) = open_rows p"
      "op_acc_rows op = int (length (open_rows p))" "open_rows p \<noteq> []"
      "op_emitted_any op \<Longrightarrow> pk_buffered p = []"
      using inv Some by (auto simp: packer_inv_def open_inv_def open_rows_def)
    have cat: "concat_batches (schema (hd (op_acc op))) (op_acc op) = Inr ?c"
      using concat_batches_hd[OF acc(1,2)] acc(3) by simp
    have c_ok: "batch_ok sch ?c" "rows ?c \<noteq> []"
      using batch_ok_concat[OF acc(1)] acc(3,5) by simp_all
    have inv0: "packer_inv sch ?p0"
      using inv by (auto simp: packer_inv_def buffer_inv_def buffered_rows_def)
    have rows0: "packer_rows p = packer_rows ?p0 @ open_rows p"
      by (simp add: packer_rows_def buffered_rows_def open_rows_def)
    have lift: "packs sch p [] p' out" if "packs sch ?p0 (open_rows p) p' out"
      using that rows0 by (simp add: packs_def same_config_def)
    show ?thesis
    proof (cases "op_emitted_any op")
      case False
      then have push: "push_partition lib ?p0 (op_label op) ?c = Inr (p', out)"
        using fin Some acc(4,5) cat by (simp add: finish_partition_def Let_def)
      from push_partition_packs[OF inv0 _ c_ok(1) push] lift show ?thesis by simp
    next
      case True
      then obtain ranges where ranges: "chunk_row_ranges ?c (pk_max_segment_bytes ?p0) = Inr ranges"
        and emit: "emit_ranges lib ?p0 (op_label op) ?c ranges = Inr (p', out)"
        using fin Some acc(4,5) cat by (auto simp: finish_partition_def Let_def rbind_eq_Inr)
      have "file_rows out = open_rows p"
        using emit_ranges_chunks(2)[OF c_ok ranges emit] chunk_ranges_rows(1)[OF c_ok ranges] by simp
      then have "packs sch ?p0 (open_rows p) p' out"
        using emit_ranges_chunks(1)[OF c_ok ranges emit] emit_ranges_spec(1,2)[OF emit] inv0 acc(6)[OF True]
        by (auto simp: packs_def same_config_def packer_inv_def buffer_inv_def packer_rows_def open_rows_def)
      then show ?thesis using lift emit_ranges_spec(1)[OF emit] by simp
    qed
  qed
  then show "packs sch p [] p' out" "pk_open p' = None" by auto
qed

text \<open>A sequence of operations, and the contract for it proved once for every
  operation that keeps the queue law.\<close>

fun run_ops :: "('s \<Rightarrow> 'a \<Rightarrow> ('s \<times> 'f list) result) \<Rightarrow> 's \<Rightarrow> 'a list \<Rightarrow> ('s \<times> 'f list) result" where
  "run_ops f s [] = Inr (s, [])"
| "run_ops f s (a # as) =
     rbind (f s a) (\<lambda>(s1, out1). rbind (run_ops f s1 as) (\<lambda>(s2, out2). Inr (s2, out1 @ out2)))"

lemma run_ops_append:
  "run_ops f s (as @ bs) =
   rbind (run_ops f s as) (\<lambda>(s1, out1). rbind (run_ops f s1 bs) (\<lambda>(s2, out2). Inr (s2, out1 @ out2)))"
  by (induction as arbitrary: s) (auto simp: rbind_assoc split_def)

locale row_fifo =
  fixes sch :: "afield list"
    and push :: "packer \<Rightarrow> 'a \<Rightarrow> (packer \<times> snapshot_file_step list) result"
    and fed :: "'a \<Rightarrow> row list"
    and admits :: "packer \<Rightarrow> 'a \<Rightarrow> bool"
  assumes push_packs: "packer_inv sch p \<Longrightarrow> admits p a \<Longrightarrow> push p a = Inr (p', out) \<Longrightarrow> packs sch p (fed a) p' out"
    and push_admits: "packer_inv sch p \<Longrightarrow> admits p a \<Longrightarrow> push p a = Inr (p', out) \<Longrightarrow> admits p b \<Longrightarrow> admits p' b"
begin

lemma run_packs:
  "packer_inv sch p \<Longrightarrow> \<forall>a \<in> set as. admits p a \<Longrightarrow> run_ops push p as = Inr (p', out) \<Longrightarrow>
   packs sch p (concat (map fed as)) p' out"
proof (induction as arbitrary: p out)
  case Nil
  then show ?case by (simp add: packs_refl)
next
  case (Cons a as)
  then obtain p1 out1 out2 where one: "push p a = Inr (p1, out1)"
    and rest: "run_ops push p1 as = Inr (p', out2)" and out: "out = out1 @ out2"
    by (auto simp: rbind_eq_Inr)
  have first: "packs sch p (fed a) p1 out1" using push_packs Cons.prems one by simp
  have "packs sch p1 (concat (map fed as)) p' out2"
    using Cons.IH[OF _ _ rest] first push_admits[OF Cons.prems(1) _ one] Cons.prems(2) by (simp add: packs_def)
  then show ?case using packs_trans[OF first] out by simp
qed

end

interpretation whole: row_fifo sch "\<lambda>p (lbl, b). push_partition lib p lbl b" "\<lambda>(lbl, b). rows b"
    "\<lambda>p (lbl, b). pk_open p = None \<and> batch_ok sch b" for sch lib
  by unfold_locales (auto dest: push_partition_packs)

interpretation chunked: row_fifo sch "\<lambda>p (lbl, b). push_partition_chunk lib p lbl b" "\<lambda>(lbl, b). rows b"
    "\<lambda>p (lbl, b). batch_ok sch b" for sch lib
  by unfold_locales (auto dest: push_partition_chunk_packs)

section \<open>Streaming a partition is packing it whole\<close>

fun emit_slices :: "pack_lib \<Rightarrow> packer \<Rightarrow> string option \<Rightarrow> (record_batch \<times> int) list \<Rightarrow>
    (packer \<times> snapshot_file_step list) result" where
  "emit_slices lib p lbl [] = Inr (p, [])"
| "emit_slices lib p lbl ((c, bytes) # cs) =
     rbind (single_partition_file lib p lbl c bytes) (\<lambda>(p1, step).
     rbind (emit_slices lib p1 lbl cs) (\<lambda>(p2, steps). Inr (p2, step # steps)))"

definition weighed :: "afield list \<Rightarrow> row list \<Rightarrow> record_batch \<times> int" where
  "weighed sch c = (\<lparr>schema = sch, rows = c\<rparr>, weight_of (row_weight sch) c)"

lemma emit_ranges_slices:
  "emit_ranges lib p lbl b ranges = emit_slices lib p lbl (map (\<lambda>(s, l, r). (batch_slice b s l, r)) ranges)"
  by (induction lib p lbl b ranges rule: emit_ranges.induct)
     (auto intro!: arg_cong2[where f = rbind] simp: fun_eq_iff)

lemma emit_slices_append:
  "emit_slices lib p lbl (cs @ ds) =
   rbind (emit_slices lib p lbl cs) (\<lambda>(p1, out1). rbind (emit_slices lib p1 lbl ds) (\<lambda>(p2, out2). Inr (p2, out1 @ out2)))"
  by (induction lib p lbl cs rule: emit_slices.induct) (auto simp: rbind_assoc split_def)

lemma emit_slices_open:
  "emit_slices lib (p\<lparr>pk_open := op\<rparr>) lbl cs =
   rbind (emit_slices lib p lbl cs) (\<lambda>(p1, out). Inr (p1\<lparr>pk_open := op\<rparr>, out))"
proof (induction cs arbitrary: p)
  case (Cons c cs)
  obtain b r where c: "c = (b, r)" by (cases c)
  have "single_partition_file lib (p\<lparr>pk_open := op\<rparr>) lbl b r =
      rbind (single_partition_file lib p lbl b r) (\<lambda>(p1, f). Inr (p1\<lparr>pk_open := op\<rparr>, f))"
    by (cases p) (simp add: single_partition_file_def uri_for_def Let_def rbind_assoc)
  then show ?case using c by (simp add: Cons.IH rbind_assoc split_def)
qed simp

lemma flush_open:
  "flush lib (p\<lparr>pk_open := op\<rparr>) = rbind (flush lib p) (\<lambda>(p1, out). Inr (p1\<lparr>pk_open := op\<rparr>, out))"
  by (cases p) (simp add: flush_def uri_for_def rbind_assoc split_def split: list.split)

lemma chunk_ranges_weighed:
  assumes "batch_ok sch b" "rows b \<noteq> []" "chunk_row_ranges b cap = Inr ranges"
  shows "map (\<lambda>(s, l, r). (batch_slice b s l, r)) ranges =
    map (weighed sch) (split_rows (row_weight sch) cap [] (rows b))"
proof -
  have wf: "wf_batch b" "schema b = sch" using assms(1) by (auto simp: batch_ok_def)
  have "map (\<lambda>(s, l, r). (batch_slice b s l, r)) ranges =
      map (\<lambda>(c, l, r). (\<lparr>schema = sch, rows = c\<rparr>, r)) (map (\<lambda>(s, l, r). (slice_rows s l (rows b), l, r)) ranges)"
    using wf(2) by (auto simp: batch_slice_def)
  also have "\<dots> = map (weighed sch) (split_rows (row_weight sch) cap [] (rows b))"
    unfolding chunk_row_ranges_split[OF wf(1) assms(2,3)] by (simp add: weighed_def wf(2))
  finally show ?thesis .
qed

definition open_with :: "afield list \<Rightarrow> string option \<Rightarrow> bool \<Rightarrow> row list \<Rightarrow> open_partition option" where
  "open_with sch lbl emitted rs =
     Some \<lparr>op_label = lbl, op_acc = [\<lparr>schema = sch, rows = rs\<rparr>], op_acc_rows = int (length rs),
           op_emitted_any = emitted\<rparr>"

text \<open>The packer \<open>q\<close> and the files \<open>out\<close> after streaming the rows \<open>rs\<close> of one partition
  into \<open>p\<close>, in terms of the whole split of \<open>rs\<close>.\<close>

definition streamed :: "pack_lib \<Rightarrow> afield list \<Rightarrow> string option \<Rightarrow> packer \<Rightarrow> row list \<Rightarrow> packer \<Rightarrow>
    snapshot_file_step list \<Rightarrow> bool" where
  "streamed lib sch lbl p rs q out =
     (let chunks = split_rows (row_weight sch) (pk_max_segment_bytes p) [] rs in
      costable sch rs \<and>
      (if rs = [] then q = p \<and> out = []
      else if length chunks \<le> 1 then q = p\<lparr>pk_open := open_with sch lbl False rs\<rparr> \<and> out = []
      else (\<exists>pf outf pe oute. flush lib p = Inr (pf, outf) \<and>
             emit_slices lib pf lbl (map (weighed sch) (butlast chunks)) = Inr (pe, oute) \<and>
             q = pe\<lparr>pk_open := open_with sch lbl True (last chunks)\<rparr> \<and> out = outf @ oute)))"

lemma single_partition_file_frame:
  "single_partition_file lib p lbl b r = Inr (p', f) \<Longrightarrow>
   pk_open p' = pk_open p \<and> pk_max_segment_bytes p' = pk_max_segment_bytes p"
  by (auto simp: single_partition_file_def Let_def rbind_eq_Inr)

lemma emit_slices_frame:
  "emit_slices lib p lbl cs = Inr (p', out) \<Longrightarrow>
   pk_open p' = pk_open p \<and> pk_max_segment_bytes p' = pk_max_segment_bytes p"
  by (induction lib p lbl cs arbitrary: out rule: emit_slices.induct)
     (auto simp: rbind_eq_Inr dest!: single_partition_file_frame)

lemma flush_frame:
  "flush lib p = Inr (p', out) \<Longrightarrow>
   pk_open p' = pk_open p \<and> pk_max_segment_bytes p' = pk_max_segment_bytes p"
  by (auto simp: flush_def rbind_eq_Inr split: list.splits)

lemma open_partition_eqs:
  "Some (op\<lparr>op_acc := [\<lparr>schema = sch, rows = rs\<rparr>], op_acc_rows := int (length rs)\<rparr>) =
   open_with sch (op_label op) (op_emitted_any op) rs"
  "Some (op\<lparr>op_acc_rows := int (num_rows \<lparr>schema = sch, rows = rs\<rparr>), op_acc := [\<lparr>schema = sch, rows = rs\<rparr>],
     op_emitted_any := True\<rparr>) = open_with sch (op_label op) True rs"
  by (cases op; simp add: open_with_def num_rows_def)+

text \<open>One more batch: the retained rows \<open>rows c\<close> (the last chunk so far and the new
  batch) either stay one chunk, or are emitted up to their own last chunk.\<close>

lemma push_partition_chunk_split:
  assumes inv: "packer_inv sch q" and ok: "batch_ok sch b" and ne: "rows b \<noteq> []"
    and push: "push_partition_chunk lib q lbl b = Inr (q', out)"
  defines "op \<equiv> opened_for q lbl" and "c \<equiv> open_rows q @ rows b"
  defines "new \<equiv> split_rows (row_weight sch) (pk_max_segment_bytes q) [] c"
  obtains
    (grow) "costable sch c" "length new \<le> 1" "out = []" "q' = q\<lparr>pk_open := open_with sch (op_label op) (op_emitted_any op) c\<rparr>"
  | (spill) p1 out1 p2 out2 where "costable sch c" "1 < length new"
      "(if \<not> op_emitted_any op then flush lib q else Inr (q, [])) = Inr (p1, out1)"
      "emit_slices lib p1 lbl (map (weighed sch) (butlast new)) = Inr (p2, out2)"
      "q' = p2\<lparr>pk_open := open_with sch (op_label op) True (last new)\<rparr>" "out = out1 @ out2"
proof -
  let ?c = "\<lparr>schema = sch, rows = open_rows q @ rows b\<rparr>"
  have c_ok: "batch_ok sch ?c" and c_ne: "rows ?c \<noteq> []"
    using opened_for_facts[OF inv, of lbl] ok batch_ok_concat[of sch "op_acc (opened_for q lbl) @ [b]"] ne
    by auto
  have cost: "chunk_row_ranges ?c cap = Inr ranges \<Longrightarrow> costable sch c" for cap ranges
    using c_ok c_ne chunk_row_ranges_costable[of ?c] by (simp add: batch_ok_def c_def)
  from inv ok ne push show thesis
  proof (cases rule: push_partition_chunk_cases)
    case (grow ranges)
    have len: "length new \<le> 1"
      using arg_cong[OF chunk_ranges_weighed[OF c_ok c_ne grow(1)], of length] grow(2)
      by (simp add: new_def c_def)
    have "q' = q\<lparr>pk_open := open_with sch (op_label op) (op_emitted_any op) c\<rparr>"
      unfolding grow(4) op_def c_def open_partition_eqs(1)[symmetric] by simp
    from that(1)[OF cost[OF grow(1)] len grow(3) this] show thesis .
  next
    case (spill ranges op1 p1 out1 p2 out2 tail)
    have weighed: "map (\<lambda>(s, l, r). (batch_slice ?c s l, r)) ranges = map (weighed sch) new"
      using chunk_ranges_weighed[OF c_ok c_ne spill(1)] by (simp add: new_def c_def)
    have len: "1 < length new" using arg_cong[OF weighed, of length] spill(2) by simp
    have "ranges \<noteq> []" using spill(2) by auto
    then have "(tail, snd (snd (last ranges))) = last (map (\<lambda>(s, l, r). (batch_slice ?c s l, r)) ranges)"
      using spill(7) by (simp add: last_map split_def)
    then have tail: "tail = \<lparr>schema = sch, rows = last new\<rparr>"
      unfolding weighed using len by (simp add: last_map weighed_def new_def c_def)
    obtain pf outf where fl: "(if \<not> op_emitted_any op then flush lib q else Inr (q, [])) = Inr (pf, outf)"
      "p1 = pf\<lparr>pk_open := Some op1\<rparr>" "out1 = outf"
      using spill(3,5) by (auto simp: flush_open rbind_eq_Inr op_def split: if_splits)
    have "butlast (map (\<lambda>(s, l, r). (batch_slice ?c s l, r)) ranges) = map (weighed sch) (butlast new)"
      unfolding weighed by (simp add: map_butlast)
    then have "emit_slices lib p1 lbl (map (weighed sch) (butlast new)) = Inr (p2, out2)"
      using spill(6) by (simp add: emit_ranges_slices map_butlast)
    then obtain pe where "emit_slices lib pf lbl (map (weighed sch) (butlast new)) = Inr (pe, out2)"
      "p2 = pe\<lparr>pk_open := Some op1\<rparr>"
      by (auto simp: fl(2) emit_slices_open rbind_eq_Inr)
    moreover have "Some (op1\<lparr>op_acc_rows := int (num_rows tail), op_acc := [tail], op_emitted_any := True\<rparr>) =
        open_with sch (op_label op) True (last new)"
      using open_partition_eqs(2)[where op = op1 and sch = sch and rs = "last new"] spill(4) tail by (simp add: op_def)
    ultimately show thesis
      using that(2)[OF cost[OF spill(1)] len fl(1)] spill(8,9) fl(3) by simp
  qed
qed

lemma streamed_step:
  assumes st: "streamed lib sch lbl p rs q out" and closed: "pk_open p = None"
    and inv: "packer_inv sch q" and ok: "batch_ok sch b"
    and push: "push_partition_chunk lib q lbl b = Inr (q', out')"
  shows "streamed lib sch lbl p (rs @ rows b) q' (out @ out')"
proof (cases "rows b = []")
  case True
  then show ?thesis using st push by (simp add: push_partition_chunk_def num_rows_def)
next
  case False
  define cap w where "cap = pk_max_segment_bytes p" and "w = row_weight sch"
  define chunks where "chunks = split_rows w cap [] rs"
  have cap_q: "pk_max_segment_bytes q = cap"
    using st by (auto simp: streamed_def Let_def cap_def dest!: flush_frame emit_slices_frame split: if_splits)
  have single: "length chunks \<le> 1 \<Longrightarrow> chunks = [rs]"
    using split_rows_single[of w cap "[]" rs] by (simp add: chunks_def)
  have chunks_ne: "chunks \<noteq> []" by (simp add: chunks_def)
  have last_stable: "split_rows w cap [] (last chunks) = [last chunks]"
    by (rule split_rows_stable[of _ w cap "[]" rs]) (simp_all add: chunks_def)
  have open_q: "op_label (opened_for q lbl) = lbl" "op_emitted_any (opened_for q lbl) = (1 < length chunks)"
    "open_rows q = last chunks"
    using st closed single
    by (auto simp: streamed_def Let_def chunks_def w_def cap_def open_rows_def open_with_def opened_for_def
        dest!: flush_frame emit_slices_frame split: if_splits)
  define new where "new = split_rows w cap [] (open_rows q @ rows b)"
  have whole: "split_rows w cap [] (rs @ rows b) = butlast chunks @ new"
    unfolding new_def by (simp add: split_rows_append chunks_def[symmetric] open_q last_stable)
  have new_cost: "costable sch (rs @ rows b)"
  proof -
    have "costable sch rs" using st by (simp add: streamed_def Let_def)
    moreover from inv ok False push have "costable sch (open_rows q @ rows b)"
      by (cases rule: push_partition_chunk_split) auto
    ultimately show ?thesis by simp
  qed
  have new_ne: "new \<noteq> []" by (simp add: new_def)
  have new_single: "length new \<le> 1 \<Longrightarrow> new = [open_rows q @ rows b]"
    using split_rows_single[of w cap "[]"] by (simp add: new_def)
  show ?thesis
  proof (cases "length chunks \<le> 1")
    case True
    have q: "out = []" "\<And>op. q\<lparr>pk_open := op\<rparr> = p\<lparr>pk_open := op\<rparr>" "open_rows q = rs"
      using st True single open_q(3) by (auto simp: streamed_def Let_def chunks_def w_def cap_def split: if_splits)
    have flush_q: "\<exists>pf. flush lib p = Inr (pf, out1) \<and> p1 = pf\<lparr>pk_open := pk_open q\<rparr>"
      if "flush lib q = Inr (p1, out1)" for p1 out1
    proof -
      have "q = p\<lparr>pk_open := pk_open q\<rparr>" using q(2)[of "pk_open q"] by simp
      then have "rbind (flush lib p) (\<lambda>(p1, out). Inr (p1\<lparr>pk_open := pk_open q\<rparr>, out)) = Inr (p1, out1)"
        using that flush_open[where lib = lib and p = p and op = "pk_open q"] by simp
      then show ?thesis by (auto simp: rbind_eq_Inr)
    qed
    from inv ok False push show ?thesis
    proof (cases rule: push_partition_chunk_split)
      case grow
      then show ?thesis
        using True q open_q whole single False cap_q new_cost
        by (simp add: streamed_def Let_def new_def w_def cap_def)
    next
      case (spill p1 out1 p2 out2)
      then obtain pf where fl: "flush lib p = Inr (pf, out1)" "p1 = pf\<lparr>pk_open := pk_open q\<rparr>"
        using flush_q True open_q(2) by auto
      have new: "split_rows (row_weight sch) (pk_max_segment_bytes q) [] (open_rows q @ rows b) = new"
        by (simp add: new_def w_def cap_q)
      obtain pe where em: "emit_slices lib pf lbl (map (weighed sch) (butlast new)) = Inr (pe, out2)"
        "p2 = pe\<lparr>pk_open := pk_open q\<rparr>"
        using spill(4) by (auto simp: new fl(2) emit_slices_open rbind_eq_Inr)
      have whole': "split_rows (row_weight sch) (pk_max_segment_bytes p) [] (rs @ rows b) = new"
        using whole single[OF True] by (simp add: w_def cap_def)
      have "q' = pe\<lparr>pk_open := open_with sch lbl True (last new)\<rparr>"
        using spill(5) em(2) open_q(1) by (simp add: new)
      then show ?thesis
        unfolding streamed_def Let_def whole'
        using fl(1) em(1) spill(2,6) q(1) False new_cost by (simp add: new)
    qed
  next
    case many: False
    then obtain pf outf pe oute where base: "flush lib p = Inr (pf, outf)"
      "emit_slices lib pf lbl (map (weighed sch) (butlast chunks)) = Inr (pe, oute)"
      "q = pe\<lparr>pk_open := open_with sch lbl True (last chunks)\<rparr>" "out = outf @ oute"
      using st by (auto simp: streamed_def Let_def chunks_def w_def cap_def split: if_splits)
    have len: "1 < length (butlast chunks @ new)" "rs @ rows b \<noteq> []"
      using many new_ne False by (cases new; simp)+
    have target: "streamed lib sch lbl p (rs @ rows b) q' (out @ out') \<longleftrightarrow>
      (\<exists>pf outf pe oute. flush lib p = Inr (pf, outf) \<and>
         emit_slices lib pf lbl (map (weighed sch) (butlast chunks @ butlast new)) = Inr (pe, oute) \<and>
         q' = pe\<lparr>pk_open := open_with sch lbl True (last new)\<rparr> \<and> out @ out' = outf @ oute)"
      using len whole new_ne False st new_cost by (simp add: streamed_def Let_def w_def cap_def butlast_append)
    from inv ok False push show ?thesis
    proof (cases rule: push_partition_chunk_split)
      case grow
      then show ?thesis
        unfolding target using base many open_q new_single cap_q by (simp add: new_def w_def)
    next
      case (spill p1 out1 p2 out2)
      then obtain pe2 where "emit_slices lib pe lbl (map (weighed sch) (butlast new)) = Inr (pe2, out2)"
        "q' = pe2\<lparr>pk_open := open_with sch lbl True (last new)\<rparr>" "out' = out2"
        using many open_q cap_q base(3) by (auto simp: new_def w_def emit_slices_open rbind_eq_Inr)
      then show ?thesis unfolding target using base by (simp add: emit_slices_append)
    qed
  qed
qed

lemma streamed_run:
  "streamed lib sch lbl p rs q out \<Longrightarrow> pk_open p = None \<Longrightarrow> packer_inv sch q \<Longrightarrow>
   \<forall>b \<in> set bs. batch_ok sch b \<Longrightarrow>
   run_ops (\<lambda>q b. push_partition_chunk lib q lbl b) q bs = Inr (q', out') \<Longrightarrow>
   streamed lib sch lbl p (rs @ concat (map rows bs)) q' (out @ out')"
proof (induction bs arbitrary: rs q out out')
  case (Cons b bs)
  from Cons.prems(5) obtain q1 out1 out2 where one: "push_partition_chunk lib q lbl b = Inr (q1, out1)"
    and rest: "run_ops (\<lambda>q b. push_partition_chunk lib q lbl b) q1 bs = Inr (q', out2)"
    and out': "out' = out1 @ out2"
    by (auto simp: rbind_eq_Inr)
  have "streamed lib sch lbl p (rs @ rows b) q1 (out @ out1)"
    using streamed_step[OF Cons.prems(1,2,3) _ one] Cons.prems(4) by simp
  moreover have "packer_inv sch q1"
    using push_partition_chunk_packs[OF Cons.prems(3) _ one] Cons.prems(4) by (simp add: packs_def)
  ultimately show ?case
    using Cons.IH[OF _ Cons.prems(2) _ _ rest, of "rs @ rows b" "out @ out1"] Cons.prems(4) out' by simp
qed simp

lemma push_partition_many:
  assumes b: "batch_ok sch b" "rows b \<noteq> []" "costable sch (rows b)"
    and many: "1 < length (split_rows (row_weight sch) (pk_max_segment_bytes p) [] (rows b))"
    and fl: "flush lib p = Inr (pf, outf)"
    and em: "emit_slices lib pf lbl (map (weighed sch) (split_rows (row_weight sch) (pk_max_segment_bytes p) [] (rows b))) =
      Inr (p', out)"
  shows "push_partition lib p lbl b = Inr (p', outf @ out)"
proof -
  have wf: "wf_batch b" "schema b = sch" using b(1) by (auto simp: batch_ok_def)
  have bytes: "batch_in_memory_bytes b = Inr (weight_of (row_weight sch) (rows b))"
    using wf b(3) by (simp add: batch_in_memory_bytes_costable)
  have over: "pk_max_segment_bytes p < weight_of (row_weight sch) (rows b)"
    by (rule rw.split_rows_many_over_cap[OF many])
  have cap: "pk_max_segment_bytes pf = pk_max_segment_bytes p" using flush_frame[OF fl] by simp
  obtain ranges where ranges: "chunk_row_ranges b (pk_max_segment_bytes p) = Inr ranges"
    using chunk_row_ranges_costable[OF wf(1) b(2)] wf(2) b(3) by blast
  have "emit_ranges lib pf lbl b ranges = Inr (p', out)"
    using em chunk_ranges_weighed[OF b(1,2) ranges] by (simp add: emit_ranges_slices)
  then show ?thesis
    using b(2) bytes over fl cap ranges by (simp add: push_partition_def num_rows_def)
qed

lemma push_partition_open:
  "push_partition lib p lbl b = Inr (p', out) \<Longrightarrow> pk_open p' = pk_open p"
  by (auto simp: push_partition_def rbind_eq_Inr emit_ranges_slices
      dest!: flush_frame emit_slices_frame split: if_splits)

lemma push_partitions_open:
  "run_ops (\<lambda>p (lbl, b). push_partition lib p lbl b) p parts = Inr (p', out) \<Longrightarrow> pk_open p' = pk_open p"
  by (induction parts arbitrary: p out) (auto simp: rbind_eq_Inr dest!: push_partition_open)

section \<open>Properties\<close>

text \<open>C11: streaming one partition into the packer in sub-partition batches with
  \<open>push_partition_chunk\<close> and completing it with \<open>finish_partition\<close> is the same as
  handing \<open>push_partition\<close> the whole partition at once: the same files, with the same
  rows, uris and chunk indices, in the same order, and the same packer afterwards.\<close>

theorem streaming_packs_like_whole:
  assumes inv: "packer_inv sch p" and closed: "pk_open p = None" and ok: "\<forall>b \<in> set bs. batch_ok sch b"
    and run: "run_ops (\<lambda>q b. push_partition_chunk lib q lbl b) p bs = Inr (q, out1)"
    and fin: "finish_partition lib q = Inr (p', out2)"
  shows "push_partition lib p lbl \<lparr>schema = sch, rows = concat (map rows bs)\<rparr> = Inr (p', out1 @ out2)"
proof -
  define rs cap where "rs = concat (map rows bs)" and "cap = pk_max_segment_bytes p"
  define chunks where "chunks = split_rows (row_weight sch) cap [] rs"
  have "streamed lib sch lbl p [] p []" by (simp add: streamed_def)
  from streamed_run[OF this closed inv ok run] have st: "streamed lib sch lbl p rs q out1"
    by (simp add: rs_def)
  have b_ok: "batch_ok sch \<lparr>schema = sch, rows = rs\<rparr>"
    using batch_ok_concat[of sch bs] ok by (simp add: list_all_iff rs_def)
  have reset: "p\<lparr>pk_open := op, pk_open := None\<rparr> = p" for op using closed by (cases p) simp
  consider "rs = []" | "rs \<noteq> []" "length chunks \<le> 1" | "rs \<noteq> []" "1 < length chunks" by fastforce
  then show ?thesis
  proof cases
    case 1
    then show ?thesis
      using st fin closed by (simp add: rs_def[symmetric] streamed_def finish_partition_def push_partition_def num_rows_def)
  next
    case 2
    then have "q = p\<lparr>pk_open := open_with sch lbl False rs\<rparr>" "out1 = []"
      using st by (auto simp: streamed_def Let_def chunks_def cap_def)
    then show ?thesis
      using fin 2(1) reset[of "open_with sch lbl False rs"]
      by (simp add: rs_def[symmetric] finish_partition_def open_with_def Let_def concat_batches_def)
  next
    case 3
    then obtain pf outf pe oute where base: "flush lib p = Inr (pf, outf)"
      "emit_slices lib pf lbl (map (weighed sch) (butlast chunks)) = Inr (pe, oute)"
      "q = pe\<lparr>pk_open := open_with sch lbl True (last chunks)\<rparr>" "out1 = outf @ oute" "costable sch rs"
      using st by (auto simp: streamed_def Let_def chunks_def cap_def split: if_splits)
    have frame: "pk_open pe = None" "pk_max_segment_bytes pe = cap"
      using flush_frame[OF base(1)] emit_slices_frame[OF base(2)] closed by (auto simp: cap_def)
    have pe: "pe\<lparr>pk_open := op, pk_open := None\<rparr> = pe" for op using frame(1) by (cases pe) simp
    let ?tail = "\<lparr>schema = sch, rows = last chunks\<rparr>"
    have in_chunks: "last chunks \<in> set (split_rows (row_weight sch) cap [] rs)"
      by (simp add: chunks_def)
    have tail: "last chunks \<noteq> []" "split_rows (row_weight sch) cap [] (last chunks) = [last chunks]"
      using split_rows_chunk_nonempty[OF in_chunks] split_rows_stable[OF in_chunks] 3(1) by auto
    have "set (last chunks) \<subseteq> set rs"
      using in_chunks concat_split_rows[of "row_weight sch" cap "[]" rs] by (metis append_Nil set_concat UN_upper)
    then have tail_ok: "batch_ok sch ?tail" using b_ok by (auto simp: batch_ok_def wf_batch_def)
    obtain ranges where ranges: "chunk_row_ranges ?tail cap = Inr ranges"
      and emit: "emit_ranges lib pe lbl ?tail ranges = Inr (p', out2)"
      using fin base(3) tail(1) frame(2) pe[of "open_with sch lbl True (last chunks)"]
      by (auto simp: finish_partition_def open_with_def Let_def concat_batches_def rbind_eq_Inr)
    have "emit_slices lib pe lbl [weighed sch (last chunks)] = Inr (p', out2)"
      using emit chunk_ranges_weighed[OF tail_ok _ ranges] tail by (simp add: emit_ranges_slices)
    then have "emit_slices lib pf lbl (map (weighed sch) (butlast chunks @ [last chunks])) = Inr (p', oute @ out2)"
      using base(2) by (simp only: map_append list.map emit_slices_append) simp
    then have em: "emit_slices lib pf lbl (map (weighed sch) chunks) = Inr (p', oute @ out2)"
      by (simp add: chunks_def)
    have "push_partition lib p lbl \<lparr>schema = sch, rows = rs\<rparr> = Inr (p', outf @ oute @ out2)"
      by (rule push_partition_many[OF b_ok _ _ _ base(1)])
         (use 3 base(5) em in \<open>simp_all add: chunks_def cap_def\<close>)
    then show ?thesis using base(4) by (simp add: rs_def)
  qed
qed

text \<open>C12: pushing whole partitions through a fresh packer and finishing it loses,
  duplicates and reorders nothing: the files, in the order they come out, hold exactly the
  rows of the partitions in the order they went in, their segment rows take the
  chunk indices 0, 1, 2, \<dots> without a gap, and every file is tiled by its segment rows,
  records the footprint of each of them and exceeds the byte cap only for a single row.\<close>

theorem packed_files_carry_partitions:
  assumes ok: "\<forall>(lbl, b) \<in> set parts. batch_ok sch b"
    and run: "run_ops (\<lambda>p (lbl, b). push_partition lib p lbl b) (packer_new snap cat br base fmt cap) parts = Inr (p, out1)"
    and fin: "packer_finish lib p = Inr out2"
  shows "file_rows (out1 @ out2) = concat (map (\<lambda>(lbl, b). rows b) parts) \<and>
    file_idxs (out1 @ out2) = [0..<length (file_idxs (out1 @ out2))] \<and>
    list_all (file_ok sch cap) (out1 @ out2)"
proof -
  let ?p0 = "packer_new snap cat br base fmt cap"
  have inv0: "packer_inv sch ?p0" "packer_rows ?p0 = []" "pk_chunk_idx ?p0 = 0" "pk_open ?p0 = None"
    "pk_max_segment_bytes ?p0 = cap"
    by (simp_all add: packer_new_def packer_inv_def buffer_inv_def packer_rows_def buffered_rows_def open_rows_def)
  have all: "packs sch ?p0 (concat (map (\<lambda>(lbl, b). rows b) parts)) p out1"
    using whole.run_packs[OF inv0(1) _ run] ok inv0(4) by (simp add: split_def)
  have open_p: "pk_open p = None" using push_partitions_open[OF run] inv0(4) by simp
  obtain p' where fl: "flush lib p = Inr (p', out2)"
    using fin by (auto simp: packer_finish_def rbind_eq_Inr)
  have inv: "packer_inv sch p" using all by (simp add: packs_def)
  note last = flush_packs[OF inv fl]
  have "packs sch ?p0 (concat (map (\<lambda>(lbl, b). rows b) parts) @ []) p' (out1 @ out2)"
    by (rule packs_trans[OF all last(1)])
  moreover have "packer_rows p' = []"
    using last(2,3) open_p by (simp add: packer_rows_def open_rows_def)
  ultimately show ?thesis using inv0 by (auto simp: packs_def)
qed

definition sample_schema :: "afield list" where
  "sample_schema = [AField ''id'' DtInt64 False]"

definition sample_rows :: "int list \<Rightarrow> record_batch" where
  "sample_rows is = \<lparr>schema = sample_schema, rows = map (\<lambda>i. [Cell True (VInt i)]) is\<rparr>"

definition sample_enc :: "cell list \<Rightarrow> owned_row" where
  "sample_enc cs = map (\<lambda>c. case cell_data c of VInt i \<Rightarrow> char_of (nat i) | _ \<Rightarrow> char_of (0 :: nat)) cs"

definition sample_lib :: pack_lib where
  "sample_lib =
     \<lparr>arrow = \<lparr>array_value_to_string = (\<lambda>t c. Inr (case cell_data c of VInt i \<Rightarrow> show_int i | _ \<Rightarrow> [])),
               json_to_string = (\<lambda>ps. Inr (concat ps)),
               row_converter_new = (\<lambda>ts. Inr (\<lambda>cs. Inr (sample_enc cs))),
               lexsort_to_indices = (\<lambda>cols. Inr (sort_key (\<lambda>i. sample_enc (map (\<lambda>(t, cs). cs ! i) cols))
                 [0..<(case cols of [] \<Rightarrow> 0 | (t, cs) # _ \<Rightarrow> length cs)]))\<rparr>,
      uuid_hash = id, compute_segment_statistics = (\<lambda>_. []), segment_content_hash = (\<lambda>_. Inr [])\<rparr>"

definition sample_packer :: packer where
  "sample_packer = packer_new ''s'' ''c'' ''b'' ''base'' ''parquet'' 20"

lemma sample_rows_ok: "batch_ok sample_schema (sample_rows is)"
  by (auto simp: batch_ok_def sample_rows_def wf_batch_def sample_schema_def)

lemma sample_packer_inv: "packer_inv sample_schema sample_packer" "pk_open sample_packer = None"
  by (simp_all add: sample_packer_def packer_new_def packer_inv_def buffer_inv_def buffered_rows_def)

lemma sample_streaming_ok:
  "is_ok (rbind (run_ops (\<lambda>q b. push_partition_chunk sample_lib q None b) sample_packer
     [sample_rows [1], sample_rows [2, 3], sample_rows [4, 5]]) (\<lambda>(q, out). finish_partition sample_lib q))"
  by code_simp

theorem streaming_packs_like_whole_witness:
  "\<exists>p' out. push_partition sample_lib sample_packer None (sample_rows [1, 2, 3, 4, 5]) = Inr (p', out)"
proof -
  obtain q out1 p' out2 where
    "run_ops (\<lambda>q b. push_partition_chunk sample_lib q None b) sample_packer
       [sample_rows [1], sample_rows [2, 3], sample_rows [4, 5]] = Inr (q, out1)"
    "finish_partition sample_lib q = Inr (p', out2)"
    using sample_streaming_ok by (auto simp: is_ok_iff rbind_eq_Inr)
  from streaming_packs_like_whole[OF sample_packer_inv _ this]
  have "push_partition sample_lib sample_packer None
      \<lparr>schema = sample_schema, rows = concat (map rows [sample_rows [1], sample_rows [2, 3], sample_rows [4, 5]])\<rparr> =
      Inr (p', out1 @ out2)"
    by (simp add: sample_rows_ok)
  moreover have "\<lparr>schema = sample_schema,
      rows = concat (map rows [sample_rows [1], sample_rows [2, 3], sample_rows [4, 5]])\<rparr> = sample_rows [1, 2, 3, 4, 5]"
    by (simp add: sample_rows_def)
  ultimately show ?thesis by simp
qed

lemma sample_packing_ok:
  "is_ok (rbind (run_ops (\<lambda>p (lbl, b). push_partition sample_lib p lbl b) sample_packer
     [(Some ''a'', sample_rows [1]), (Some ''b'', sample_rows [2, 3, 4]), (Some ''c'', sample_rows [5])])
     (\<lambda>(p, out). packer_finish sample_lib p))"
  by code_simp

theorem packed_files_carry_partitions_witness:
  "\<exists>out. file_rows out = rows (sample_rows [1, 2, 3, 4, 5]) \<and> list_all (file_ok sample_schema 20) out"
proof -
  let ?parts = "[(Some ''a'', sample_rows [1]), (Some ''b'', sample_rows [2, 3, 4]), (Some ''c'', sample_rows [5])]"
  obtain p out1 out2 where
    "run_ops (\<lambda>p (lbl, b). push_partition sample_lib p lbl b) (packer_new ''s'' ''c'' ''b'' ''base'' ''parquet'' 20) ?parts = Inr (p, out1)"
    "packer_finish sample_lib p = Inr out2"
    using sample_packing_ok unfolding sample_packer_def by (auto simp: is_ok_iff rbind_eq_Inr)
  from packed_files_carry_partitions[OF _ this, where sch = sample_schema]
  have "file_rows (out1 @ out2) = concat (map (\<lambda>(lbl, b). rows b) ?parts) \<and>
      list_all (file_ok sample_schema 20) (out1 @ out2)"
    by (simp add: sample_rows_ok)
  moreover have "concat (map (\<lambda>(lbl, b). rows b) ?parts) = rows (sample_rows [1, 2, 3, 4, 5])"
    by (simp add: sample_rows_def)
  ultimately show ?thesis by metis
qed

end
