(* ===== verification/Partition_Merger.thy ===== *)
theory Partition_Merger
  imports Segment_Packer
begin

text \<open>
  The two-cursor streaming merge of a partition's prior rows with its delta
  (\<open>PartitionMerger\<close> in \<open>penca-api/src/lifecycle/packer.rs\<close>).
\<close>

section \<open>The partition merger\<close>

record partition_merger =
  pm_key :: partition_order_key
  pm_delta :: "record_batch option"
  pm_delta_rows :: "owned_row list option"
  pm_delta_pos :: nat
  pm_converter :: "(cell list \<Rightarrow> owned_row result) option"
  pm_sort_keys :: "string list"

definition sort_key_columns :: "record_batch \<Rightarrow> string list \<Rightarrow> nat list result" where
  "sort_key_columns b keys =
     resolve_keys (\<lambda>key. Internal (''sort key '' @ key @ '' not in snapshot stream schema'')) (schema b) keys"

definition convert_columns :: "(cell list \<Rightarrow> owned_row result) \<Rightarrow> record_batch \<Rightarrow> string list \<Rightarrow>
    owned_row list result" where
  "convert_columns conv b keys =
     rbind (sort_key_columns b keys) (\<lambda>idxs. rmap (\<lambda>r. conv (key_cells idxs r)) (rows b))"

definition merger_new :: "pack_lib \<Rightarrow> partition_order_key \<Rightarrow> record_batch option \<Rightarrow> string list \<Rightarrow>
    afield list \<Rightarrow> partition_merger result" where
  "merger_new lib key delta sort_keys sch =
     (case delta of
        None \<Rightarrow> Inr \<lparr>pm_key = key, pm_delta = None, pm_delta_rows = None, pm_delta_pos = 0,
                     pm_converter = None, pm_sort_keys = sort_keys\<rparr>
      | Some d \<Rightarrow>
          if sort_keys = []
          then Inr \<lparr>pm_key = key, pm_delta = Some d, pm_delta_rows = None, pm_delta_pos = 0,
                    pm_converter = None, pm_sort_keys = sort_keys\<rparr>
          else
            rbind (partition_sort_fields sch sort_keys) (\<lambda>fields.
            rbind (row_converter_new (arrow lib) fields) (\<lambda>converter.
            rbind (sort_record_batch_by_keys (arrow lib) d sort_keys) (\<lambda>sorted_delta.
            rbind (convert_columns converter sorted_delta sort_keys) (\<lambda>delta_rows.
            Inr \<lparr>pm_key = key, pm_delta = Some sorted_delta, pm_delta_rows = Some delta_rows,
                 pm_delta_pos = 0, pm_converter = Some converter, pm_sort_keys = sort_keys\<rparr>)))))"

text \<open>The two-cursor walk: before each prior row, the delta rows strictly below its
  key.  An index pair names the source (0 the prior slice, 1 the delta) and the row.\<close>

function advance_delta :: "owned_row list \<Rightarrow> owned_row \<Rightarrow> nat \<Rightarrow> (nat \<times> nat) list \<times> nat" where
  "advance_delta delta_rows prior_key j =
     (if j < length delta_rows \<and> delta_rows ! j < prior_key
      then (case advance_delta delta_rows prior_key (Suc j) of (is, j') \<Rightarrow> ((1, j) # is, j'))
      else ([], j))"
  by pat_completeness auto
termination by (relation "measure (\<lambda>(ds, k, j). length ds - j)") auto

declare advance_delta.simps [simp del]

fun merge_indices :: "owned_row list \<Rightarrow> owned_row list \<Rightarrow> nat \<Rightarrow> nat \<Rightarrow> (nat \<times> nat) list \<times> nat" where
  "merge_indices delta_rows [] i j = ([], j)"
| "merge_indices delta_rows (prior_key # prior_keys) i j =
     (case advance_delta delta_rows prior_key j of (is, j1) \<Rightarrow>
      case merge_indices delta_rows prior_keys (Suc i) j1 of (is', j2) \<Rightarrow> (is @ (0, i) # is', j2))"

definition interleave_two :: "record_batch \<Rightarrow> record_batch \<Rightarrow> (nat \<times> nat) list \<Rightarrow> record_batch" where
  "interleave_two a b indices =
     a\<lparr>rows := map (\<lambda>(source, i). if source = 0 then rows a ! i else rows b ! i) indices\<rparr>"

definition push_prior :: "partition_merger \<Rightarrow> record_batch \<Rightarrow>
    (partition_merger \<times> record_batch option) result" where
  "push_prior m slice =
     (if num_rows slice = 0 then Inr (m, None)
      else
        (case (pm_converter m, pm_delta m, pm_delta_rows m) of
           (Some converter, Some delta, Some delta_rows) \<Rightarrow>
             rbind (convert_columns converter slice (pm_sort_keys m)) (\<lambda>prior_rows.
             case merge_indices delta_rows prior_rows 0 (pm_delta_pos m) of (indices, j) \<Rightarrow>
               Inr (m\<lparr>pm_delta_pos := j\<rparr>, Some (interleave_two slice delta indices)))
         | _ \<Rightarrow> Inr (m, Some slice)))"

definition merger_finish :: "partition_merger \<Rightarrow> record_batch option" where
  "merger_finish m =
     (case pm_delta m of
        None \<Rightarrow> None
      | Some delta \<Rightarrow>
          (let start = (if pm_converter m \<noteq> None then pm_delta_pos m else 0) in
           if start \<ge> num_rows delta then None
           else Some (batch_slice delta start (num_rows delta - start))))"

section \<open>The merge as a list function\<close>

text \<open>Reference: the prior rows in order, each preceded by the delta rows strictly below
  it; the second component is the delta that is still held.\<close>

fun merge_rows :: "('r \<Rightarrow> 'k :: linorder) \<Rightarrow> 'r list \<Rightarrow> 'r list \<Rightarrow> 'r list \<times> 'r list" where
  "merge_rows f [] ds = ([], ds)"
| "merge_rows f (p # ps) ds =
     (case merge_rows f ps (dropWhile (\<lambda>d. f d < f p) ds) of
        (out, held) \<Rightarrow> (takeWhile (\<lambda>d. f d < f p) ds @ p # out, held))"

lemma merge_rows_append:
  "merge_rows f (ps @ qs) ds =
   (case merge_rows f ps ds of (out1, held1) \<Rightarrow>
    case merge_rows f qs held1 of (out2, held2) \<Rightarrow> (out1 @ out2, held2))"
  by (induction f ps ds rule: merge_rows.induct) (auto split: prod.splits)

lemma insort_key_between:
  "\<forall>x \<in> set xs. f x < f p \<Longrightarrow> \<forall>y \<in> set ys. f p \<le> f y \<Longrightarrow> insort_key f p (xs @ ys) = xs @ p # ys"
proof (induction xs)
  case Nil
  then show ?case by (cases ys) auto
next
  case (Cons x xs)
  then show ?case by (auto simp: not_le)
qed

lemma merge_rows_prefix:
  assumes "\<forall>d \<in> set us. \<forall>p \<in> set ps. f d < f p" "ps \<noteq> []"
  shows "merge_rows f ps (us @ ds) = (case merge_rows f ps ds of (out, held) \<Rightarrow> (us @ out, held))"
proof (cases ps)
  case (Cons p ps')
  have all: "\<forall>d \<in> set us. f d < f p" using assms Cons by auto
  then have "takeWhile (\<lambda>d. f d < f p) (us @ ds) = us @ takeWhile (\<lambda>d. f d < f p) ds"
    "dropWhile (\<lambda>d. f d < f p) (us @ ds) = dropWhile (\<lambda>d. f d < f p) ds"
    by (auto simp: takeWhile_append2 dropWhile_append2)
  then show ?thesis using Cons by (simp split: prod.splits)
qed (use assms in simp)

text \<open>On sorted runs the output followed by the held delta is the stable sort of the
  prior rows followed by the delta: at equal keys the prior rows come first.\<close>

lemma merge_rows_sort_key:
  assumes "sorted (map f ps)" "sorted (map f ds)"
  shows "(case merge_rows f ps ds of (out, held) \<Rightarrow> out @ held) = sort_key f (ps @ ds)"
  using assms
proof (induction ps arbitrary: ds)
  case Nil
  then show ?case by (simp add: sort_key_id_if_sorted)
next
  case (Cons p ps)
  define lo hi where "lo = takeWhile (\<lambda>d. f d < f p) ds" and "hi = dropWhile (\<lambda>d. f d < f p) ds"
  have ds: "ds = lo @ hi" by (simp add: lo_def hi_def)
  have lo: "\<forall>d \<in> set lo. f d < f p" by (auto simp: lo_def dest: set_takeWhileD)
  have hi: "\<forall>d \<in> set hi. f p \<le> f d"
  proof
    fix d assume "d \<in> set hi"
    then obtain h hs where hi: "hi = h # hs" by (cases hi) auto
    have "\<not> f h < f p" using hi hd_dropWhile[of "\<lambda>d. f d < f p" ds] by (auto simp: hi_def)
    moreover have "sorted (map f hi)" using Cons.prems(2) ds by (simp add: sorted_append)
    ultimately show "f p \<le> f d" using hi \<open>d \<in> set hi\<close> by fastforce
  qed
  have ps: "\<forall>q \<in> set ps. f p \<le> f q" "sorted (map f ps)" using Cons.prems(1) by auto
  have hi_sorted: "sorted (map f hi)" "sorted (map f lo)" using Cons.prems(2) ds by (simp_all add: sorted_append)
  obtain out held where m: "merge_rows f ps hi = (out, held)" by (cases "merge_rows f ps hi")
  have IH: "out @ held = sort_key f (ps @ hi)" using Cons.IH[OF ps(2) hi_sorted(1)] m by simp
  have "sort_key f (ps @ ds) = lo @ sort_key f (ps @ hi)"
  proof (cases "ps = []")
    case True
    then show ?thesis using Cons.prems(2) ds hi_sorted by (simp add: sort_key_id_if_sorted)
  next
    case False
    have "\<forall>d \<in> set lo. \<forall>q \<in> set ps. f d < f q" using lo ps(1) by fastforce
    from merge_rows_prefix[OF this False, of hi] show ?thesis
      using Cons.IH[OF ps(2) Cons.prems(2)] IH m ds by simp
  qed
  moreover have "insort_key f p (lo @ sort_key f (ps @ hi)) = lo @ p # sort_key f (ps @ hi)"
    by (rule insort_key_between) (use lo hi ps(1) in auto)
  ultimately show ?case using m IH by (simp add: lo_def[symmetric] hi_def[symmetric])
qed

section \<open>The merger computes the merge\<close>

lemma advance_delta_eq:
  "j \<le> length ds \<Longrightarrow>
   advance_delta (map f ds) k j =
     (map (Pair 1) [j..<j + length (takeWhile (\<lambda>d. f d < k) (drop j ds))],
      j + length (takeWhile (\<lambda>d. f d < k) (drop j ds)))"
proof (induction "length ds - j" arbitrary: j)
  case 0
  then show ?case by (subst advance_delta.simps) simp
next
  case (Suc n)
  then have j: "j < length ds" by simp
  have drop: "drop j ds = ds ! j # drop (Suc j) ds" using j by (rule Cons_nth_drop_Suc[symmetric])
  show ?case
  proof (cases "f (ds ! j) < k")
    case True
    have "advance_delta (map f ds) k (Suc j) =
     (map (Pair 1) [Suc j..<Suc j + length (takeWhile (\<lambda>d. f d < k) (drop (Suc j) ds))],
      Suc j + length (takeWhile (\<lambda>d. f d < k) (drop (Suc j) ds)))"
      using Suc j by (intro Suc.hyps(1)) auto
    then show ?thesis
      using True j drop by (subst advance_delta.simps) (simp add: upt_conv_Cons del: upt_Suc)
  next
    case False
    then show ?thesis using j drop by (subst advance_delta.simps) simp
  qed
qed

lemma map_nth_upt: "j + n \<le> length ds \<Longrightarrow> map (\<lambda>i. ds ! i) [j..<j + n] = take n (drop j ds)"
  by (rule nth_equalityI) auto

lemma merge_indices_rows:
  assumes "j \<le> length ds" "merge_indices (map f ds) (map f ps) (length pre) j = (indices, j')"
  shows "map (\<lambda>(source, i). if source = 0 then (pre @ ps) ! i else ds ! i) indices = fst (merge_rows f ps (drop j ds))"
    and "drop j' ds = snd (merge_rows f ps (drop j ds))" and "j' \<le> length ds"
proof -
  have "map (\<lambda>(source, i). if source = 0 then (pre @ ps) ! i else ds ! i) indices = fst (merge_rows f ps (drop j ds)) \<and>
    drop j' ds = snd (merge_rows f ps (drop j ds)) \<and> j' \<le> length ds"
    using assms
  proof (induction ps arbitrary: pre j indices j')
    case (Cons p ps)
    define n where "n = length (takeWhile (\<lambda>d. f d < f p) (drop j ds))"
    have n: "j + n \<le> length ds"
      using length_takeWhile_le[of "\<lambda>d. f d < f p" "drop j ds"] Cons.prems(1) by (simp add: n_def)
    obtain indices2 where rest: "merge_indices (map f ds) (map f ps) (length (pre @ [p])) (j + n) = (indices2, j')"
      and indices: "indices = map (Pair 1) [j..<j + n] @ (0, length pre) # indices2"
      using Cons.prems by (auto simp: advance_delta_eq n_def split: prod.splits)
    have taken: "map (\<lambda>i. ds ! i) [j..<j + n] = takeWhile (\<lambda>d. f d < f p) (drop j ds)"
      using map_nth_upt[OF n] by (simp add: n_def takeWhile_eq_take[symmetric])
    have dropped: "drop (j + n) ds = dropWhile (\<lambda>d. f d < f p) (drop j ds)"
      by (simp add: n_def dropWhile_eq_drop add.commute)
    obtain out held where m: "merge_rows f ps (drop (j + n) ds) = (out, held)"
      by (cases "merge_rows f ps (drop (j + n) ds)")
    have assoc: "(pre @ [p]) @ ps = pre @ p # ps" by simp
    note IH = Cons.IH[OF n rest, unfolded assoc m]
    show ?case
      using IH taken m by (simp add: indices dropped[symmetric] comp_def nth_append_length)
  qed simp
  then show "map (\<lambda>(source, i). if source = 0 then (pre @ ps) ! i else ds ! i) indices = fst (merge_rows f ps (drop j ds))"
    "drop j' ds = snd (merge_rows f ps (drop j ds))" "j' \<le> length ds" by auto
qed

definition cluster_key :: "(cell list \<Rightarrow> owned_row result) \<Rightarrow> afield list \<Rightarrow> string list \<Rightarrow> row \<Rightarrow> owned_row" where
  "cluster_key conv sch keys r =
     (case resolve_keys Internal sch keys of
        Inl _ \<Rightarrow> []
      | Inr idxs \<Rightarrow> (case conv (key_cells idxs r) of Inl _ \<Rightarrow> [] | Inr k \<Rightarrow> k))"

lemma resolve_keys_err:
  "resolve_keys err sch keys = Inr idxs \<Longrightarrow> resolve_keys err' sch keys = Inr idxs"
  unfolding resolve_keys_def
  by (induction keys arbitrary: idxs) (auto simp: rbind_eq_Inr split: option.splits)

lemma convert_columns_eq:
  assumes "convert_columns conv b keys = Inr ks"
  shows "ks = map (cluster_key conv (schema b) keys) (rows b)"
proof -
  obtain idxs where idxs: "resolve_keys (\<lambda>key. Internal (''sort key '' @ key @ '' not in snapshot stream schema'')) (schema b) keys = Inr idxs"
    and ks: "rmap (\<lambda>r. conv (key_cells idxs r)) (rows b) = Inr ks"
    using assms by (auto simp: convert_columns_def sort_key_columns_def rbind_eq_Inr)
  show ?thesis
    by (rule rmap_Inr_map[OF ks]) (simp add: cluster_key_def resolve_keys_err[OF idxs])
qed

definition merger_held :: "partition_merger \<Rightarrow> row list" where
  "merger_held m =
     (case pm_delta m of
        None \<Rightarrow> []
      | Some d \<Rightarrow> drop (if pm_converter m \<noteq> None then pm_delta_pos m else 0) (rows d))"

text \<open>A merger that compares: converter, sorted delta and its encoded keys are there.\<close>

definition comparing :: "afield list \<Rightarrow> (cell list \<Rightarrow> owned_row result) \<Rightarrow> partition_merger \<Rightarrow> bool" where
  "comparing sch conv m =
     (\<exists>d. pm_converter m = Some conv \<and> pm_delta m = Some d \<and> schema d = sch \<and>
          pm_delta_rows m = Some (map (cluster_key conv sch (pm_sort_keys m)) (rows d)) \<and>
          pm_delta_pos m \<le> length (rows d))"

definition feed_prior :: "partition_merger \<Rightarrow> record_batch \<Rightarrow> (partition_merger \<times> record_batch list) result" where
  "feed_prior m slice = rbind (push_prior m slice) (\<lambda>(m', out). Inr (m', case out of None \<Rightarrow> [] | Some b \<Rightarrow> [b]))"

lemma push_prior_compares:
  assumes cmp: "comparing sch conv m" and slice: "schema slice = sch"
    and push: "push_prior m slice = Inr (m', out)"
  shows "comparing sch conv m'" "pm_sort_keys m' = pm_sort_keys m" "pm_key m' = pm_key m"
    and "(case out of None \<Rightarrow> [] | Some b \<Rightarrow> rows b, merger_held m') =
      merge_rows (cluster_key conv sch (pm_sort_keys m)) (rows slice) (merger_held m)"
    and "\<forall>b. out = Some b \<longrightarrow> schema b = sch"
proof -
  let ?f = "cluster_key conv sch (pm_sort_keys m)"
  obtain d where d: "pm_converter m = Some conv" "pm_delta m = Some d" "schema d = sch"
    "pm_delta_rows m = Some (map ?f (rows d))" "pm_delta_pos m \<le> length (rows d)"
    using cmp by (auto simp: comparing_def)
  have "comparing sch conv m' \<and> pm_sort_keys m' = pm_sort_keys m \<and> pm_key m' = pm_key m \<and>
    (case out of None \<Rightarrow> [] | Some b \<Rightarrow> rows b, merger_held m') =
      merge_rows ?f (rows slice) (merger_held m) \<and> (\<forall>b. out = Some b \<longrightarrow> schema b = sch)"
  proof (cases "rows slice = []")
    case True
    then show ?thesis using push cmp by (simp add: push_prior_def num_rows_def)
  next
    case False
    then obtain keys where keys: "convert_columns conv slice (pm_sort_keys m) = Inr keys"
      using push d by (auto simp: push_prior_def num_rows_def rbind_eq_Inr)
    obtain indices j where ind: "merge_indices (map ?f (rows d)) keys 0 (pm_delta_pos m) = (indices, j)"
      by (cases "merge_indices (map ?f (rows d)) keys 0 (pm_delta_pos m)")
    have m': "m' = m\<lparr>pm_delta_pos := j\<rparr>" and out: "out = Some (interleave_two slice d indices)"
      using push d keys ind False by (auto simp: push_prior_def num_rows_def)
    have k: "keys = map ?f (rows slice)" using convert_columns_eq[OF keys] slice by simp
    note spec = merge_indices_rows[of "pm_delta_pos m" "rows d" ?f "rows slice" "[]" indices j, unfolded append_Nil list.size, OF d(5) ind[unfolded k]]
    have "rows (interleave_two slice d indices) = fst (merge_rows ?f (rows slice) (merger_held m))"
      using spec(1) d by (simp add: interleave_two_def merger_held_def)
    moreover have "merger_held m' = snd (merge_rows ?f (rows slice) (merger_held m))"
      using spec(2) d m' by (simp add: merger_held_def)
    ultimately show ?thesis
      using d m' out spec(3) slice by (simp add: comparing_def interleave_two_def)
  qed
  then show "comparing sch conv m'" "pm_sort_keys m' = pm_sort_keys m" "pm_key m' = pm_key m"
    "(case out of None \<Rightarrow> [] | Some b \<Rightarrow> rows b, merger_held m') =
      merge_rows ?f (rows slice) (merger_held m)" "\<forall>b. out = Some b \<longrightarrow> schema b = sch" by auto
qed

lemma merger_finish_rows:
  "(case merger_finish m of None \<Rightarrow> [] | Some b \<Rightarrow> rows b) = merger_held m"
  by (auto simp: merger_finish_def merger_held_def num_rows_def batch_slice_def slice_rows_def Let_def split: option.splits)

lemma feed_prior_run:
  assumes "comparing sch conv m" "\<forall>s \<in> set slices. schema s = sch" "run_ops feed_prior m slices = Inr (m', outs)"
  shows "comparing sch conv m'"
    and "(concat (map rows outs), merger_held m') =
      merge_rows (cluster_key conv sch (pm_sort_keys m)) (concat (map rows slices)) (merger_held m)"
proof -
  have "comparing sch conv m' \<and> (concat (map rows outs), merger_held m') =
      merge_rows (cluster_key conv sch (pm_sort_keys m)) (concat (map rows slices)) (merger_held m)"
    using assms
  proof (induction slices arbitrary: m outs)
    case (Cons s slices)
    obtain m1 outs1 outs2 where fed: "feed_prior m s = Inr (m1, outs1)"
      and rest: "run_ops feed_prior m1 slices = Inr (m', outs2)" and outs': "outs = outs1 @ outs2"
      using Cons.prems(3) by (auto simp: rbind_eq_Inr)
    obtain out where one: "push_prior m s = Inr (m1, out)"
      and outs: "outs = (case out of None \<Rightarrow> [] | Some b \<Rightarrow> [b]) @ outs2"
      using fed outs' by (auto simp: feed_prior_def rbind_eq_Inr)
    have s: "schema s = sch" using Cons.prems(2) by simp
    note step = push_prior_compares[OF Cons.prems(1) s one]
    have IH: "comparing sch conv m' \<and> (concat (map rows outs2), merger_held m') =
        merge_rows (cluster_key conv sch (pm_sort_keys m)) (concat (map rows slices)) (merger_held m1)"
      using Cons.IH[OF step(1) _ rest] Cons.prems(2) step(2) by simp
    then have eq: "merge_rows (cluster_key conv sch (pm_sort_keys m)) (concat (map rows slices)) (merger_held m1) =
        (concat (map rows outs2), merger_held m')" by simp
    show ?case
      using IH outs by (simp add: merge_rows_append step(4)[symmetric] eq split: option.splits)
  qed simp
  then show "comparing sch conv m'"
    "(concat (map rows outs), merger_held m') =
      merge_rows (cluster_key conv sch (pm_sort_keys m)) (concat (map rows slices)) (merger_held m)" by auto
qed

text \<open>What the code relies on in Arrow's \<open>lexsort_to_indices\<close>: it returns a permutation
  of the row positions, in the order the row encoder gives to the sort columns.\<close>

definition lexsort_sound :: "arrow_lib \<Rightarrow> bool" where
  "lexsort_sound lib =
     (\<forall>cols n is. cols \<noteq> [] \<and> (\<forall>(t, cs) \<in> set cols. length cs = n) \<and> lexsort_to_indices lib cols = Inr is \<longrightarrow>
        mset is = mset [0..<n] \<and>
        (\<forall>conv ks. row_converter_new lib (map fst cols) = Inr conv \<and>
           rmap (\<lambda>i. conv (map (\<lambda>(t, cs). cs ! i) cols)) is = Inr ks \<longrightarrow> sorted ks))"

definition sort_columns :: "record_batch \<Rightarrow> nat list \<Rightarrow> (data_type \<times> cell list) list" where
  "sort_columns b idxs = map (\<lambda>i. (field_type (schema b ! i), map (\<lambda>r. r ! i) (rows b))) idxs"

lemma lexsort_soundD:
  assumes "lexsort_sound lib" "idxs \<noteq> []" "lexsort_to_indices lib (sort_columns b idxs) = Inr ind"
  shows "mset ind = mset [0..<length (rows b)]"
    and "row_converter_new lib (map fst (sort_columns b idxs)) = Inr conv \<Longrightarrow>
      rmap (\<lambda>i. conv (map (\<lambda>(t, cs). cs ! i) (sort_columns b idxs))) ind = Inr ks \<Longrightarrow> sorted ks"
proof -
  have "sort_columns b idxs \<noteq> []" "\<forall>(t, cs) \<in> set (sort_columns b idxs). length cs = length (rows b)"
    using assms(2) by (auto simp: sort_columns_def)
  then have "mset ind = mset [0..<length (rows b)] \<and>
        (\<forall>conv ks. row_converter_new lib (map fst (sort_columns b idxs)) = Inr conv \<and>
           rmap (\<lambda>i. conv (map (\<lambda>(t, cs). cs ! i) (sort_columns b idxs))) ind = Inr ks \<longrightarrow> sorted ks)"
    using assms(1,3) unfolding lexsort_sound_def by blast
  then show "mset ind = mset [0..<length (rows b)]"
    and "row_converter_new lib (map fst (sort_columns b idxs)) = Inr conv \<Longrightarrow>
      rmap (\<lambda>i. conv (map (\<lambda>(t, cs). cs ! i) (sort_columns b idxs))) ind = Inr ks \<Longrightarrow> sorted ks" by blast+
qed

lemma sort_record_batch_unfold:
  assumes "sort_record_batch_by_keys lib b keys = Inr b'" "keys \<noteq> []" "rows b \<noteq> []"
  obtains idxs ind where "resolve_keys Internal (schema b) keys = Inr idxs" "idxs \<noteq> []"
    "lexsort_to_indices lib (sort_columns b idxs) = Inr ind" "b' = take_rows b ind"
proof -
  obtain idxs ind where idxs: "resolve_keys (\<lambda>key. Internal (''clustering key '' @ key @ '' not in schema'')) (schema b) keys = Inr idxs"
    and "lexsort_to_indices lib (sort_columns b idxs) = Inr ind" "b' = take_rows b ind"
    using assms by (auto simp: sort_record_batch_by_keys_def sort_columns_def num_rows_def rbind_eq_Inr)
  moreover have "idxs \<noteq> []" using idxs assms(2) by (auto simp: resolve_keys_def dest: rmap_length)
  ultimately show thesis using that[OF resolve_keys_err[OF idxs]] by blast
qed

lemma sort_record_batch_mset:
  assumes "lexsort_sound lib" "sort_record_batch_by_keys lib b keys = Inr b'"
  shows "mset (rows b') = mset (rows b)" "schema b' = schema b"
proof -
  have "mset (rows b') = mset (rows b) \<and> schema b' = schema b"
  proof (cases "keys = [] \<or> rows b = []")
    case True
    then show ?thesis using assms(2) by (auto simp: sort_record_batch_by_keys_def num_rows_def)
  next
    case False
    then obtain idxs ind where b': "idxs \<noteq> []" "lexsort_to_indices lib (sort_columns b idxs) = Inr ind"
      "b' = take_rows b ind"
      using sort_record_batch_unfold[OF assms(2)] by blast
    have "mset (map (\<lambda>i. rows b ! i) ind) = mset (map (\<lambda>i. rows b ! i) [0..<length (rows b)])"
      by (simp only: mset_map lexsort_soundD(1)[OF assms(1) b'(1,2)])
    then show ?thesis using b'(3) by (simp add: take_rows_def map_nth)
  qed
  then show "mset (rows b') = mset (rows b)" "schema b' = schema b" by auto
qed

lemma sort_record_batch_sorted:
  assumes sound: "lexsort_sound lib" and sort: "sort_record_batch_by_keys lib b keys = Inr b'"
    and keys: "keys \<noteq> []" "rows b \<noteq> []"
    and conv: "partition_sort_fields (schema b) keys = Inr types" "row_converter_new lib types = Inr conv"
    and ok: "convert_columns conv b' keys = Inr ks"
  shows "sorted (map (cluster_key conv (schema b) keys) (rows b'))"
proof -
  obtain idxs ind where idxs: "resolve_keys Internal (schema b) keys = Inr idxs" "idxs \<noteq> []"
    and ind: "lexsort_to_indices lib (sort_columns b idxs) = Inr ind" and b': "b' = take_rows b ind"
    using sort_record_batch_unfold[OF sort keys] by blast
  note lex = lexsort_soundD[OF sound idxs(2) ind]
  have types: "types = map fst (sort_columns b idxs)"
    using conv(1) resolve_keys_err[OF idxs(1)]
    by (auto simp: partition_sort_fields_def rbind_eq_Inr key_types_def sort_columns_def)
  have in_range: "i < length (rows b)" if "i \<in> set ind" for i
    using that mset_eq_setD[OF lex(1)] by auto
  have cells: "map (\<lambda>(t, cs). cs ! i) (sort_columns b idxs) = key_cells idxs (rows b ! i)" if "i \<in> set ind" for i
    using in_range[OF that] by (simp add: key_cells_def sort_columns_def)
  have "rmap (\<lambda>r. conv (key_cells idxs r)) (map (\<lambda>i. rows b ! i) ind) = Inr ks"
    using ok resolve_keys_err[OF idxs(1)] b'
    by (auto simp: convert_columns_def sort_key_columns_def rbind_eq_Inr take_rows_def)
  moreover have "rmap (\<lambda>i. conv (map (\<lambda>(t, cs). cs ! i) (sort_columns b idxs))) ind =
      rmap (\<lambda>i. conv (key_cells idxs (rows b ! i))) ind"
    by (rule rmap_cong[OF refl]) (simp only: cells)
  ultimately have "rmap (\<lambda>i. conv (map (\<lambda>(t, cs). cs ! i) (sort_columns b idxs))) ind = Inr ks"
    by (simp add: rmap_map)
  then have "sorted ks" using lex(2) conv(2) types by blast
  then show ?thesis using convert_columns_eq[OF ok] b' by (simp add: take_rows_def)
qed

lemma merger_new_comparing:
  assumes "merger_new lib key (Some d) keys sch = Inr m" "keys \<noteq> []" "schema d = sch" "lexsort_sound (arrow lib)"
  obtains sd conv types where "sort_record_batch_by_keys (arrow lib) d keys = Inr sd"
    "partition_sort_fields sch keys = Inr types" "row_converter_new (arrow lib) types = Inr conv"
    "convert_columns conv sd keys = Inr (map (cluster_key conv sch keys) (rows sd))"
    "comparing sch conv m" "merger_held m = rows sd" "pm_sort_keys m = keys" "pm_key m = key" "pm_converter m = Some conv"
proof -
  from assms(1,2) obtain types conv sd ks where parts: "partition_sort_fields sch keys = Inr types"
    "row_converter_new (arrow lib) types = Inr conv" "sort_record_batch_by_keys (arrow lib) d keys = Inr sd"
    "convert_columns conv sd keys = Inr ks"
    and m: "m = \<lparr>pm_key = key, pm_delta = Some sd, pm_delta_rows = Some ks,
                 pm_delta_pos = 0, pm_converter = Some conv, pm_sort_keys = keys\<rparr>"
    by (auto simp: merger_new_def rbind_eq_Inr)
  have sd: "schema sd = sch" using sort_record_batch_mset(2)[OF assms(4) parts(3)] assms(3) by simp
  have ks: "ks = map (cluster_key conv sch keys) (rows sd)" using convert_columns_eq[OF parts(4)] sd by simp
  have "comparing sch conv m" "merger_held m = rows sd"
    using m ks sd by (simp_all add: comparing_def merger_held_def)
  then show thesis using that[OF parts(3,1,2)] parts(4) ks m by simp
qed

section \<open>Properties\<close>

text \<open>C10: the two-cursor streaming merge is a stable sort.  With prior rows that arrive
  sorted by the clustering key, cut into slices anywhere, the batches \<open>push_prior\<close>
  emits followed by what \<open>finish\<close> drains are the stable sort, by the clustering key, of the
  prior rows followed by the sorted delta; so at equal keys the prior rows keep their
  order and precede the delta rows, even when the equal keys span slices.\<close>

theorem partition_merge_is_stable_sort:
  assumes sound: "lexsort_sound (arrow lib)"
    and new: "merger_new lib key (Some d) keys sch = Inr m"
    and keys: "keys \<noteq> []" and d: "schema d = sch" "rows d \<noteq> []"
    and conv: "pm_converter m = Some conv"
    and slices: "\<forall>s \<in> set slices. schema s = sch"
    and run: "run_ops feed_prior m slices = Inr (m', outs)"
    and prior: "sorted (map (cluster_key conv sch keys) (concat (map rows slices)))"
  shows "\<exists>sd. sort_record_batch_by_keys (arrow lib) d keys = Inr sd \<and> mset (rows sd) = mset (rows d) \<and>
    concat (map rows outs) @ (case merger_finish m' of None \<Rightarrow> [] | Some b \<Rightarrow> rows b) =
    sort_key (cluster_key conv sch keys) (concat (map rows slices) @ rows sd)"
proof -
  obtain sd types where parts: "sort_record_batch_by_keys (arrow lib) d keys = Inr sd"
    "partition_sort_fields sch keys = Inr types" "row_converter_new (arrow lib) types = Inr conv"
    "convert_columns conv sd keys = Inr (map (cluster_key conv sch keys) (rows sd))"
    "comparing sch conv m" "merger_held m = rows sd" "pm_sort_keys m = keys"
    using merger_new_comparing[OF new keys d(1) sound] conv by (metis option.inject)
  have sorted_d: "sorted (map (cluster_key conv sch keys) (rows sd))"
    using sort_record_batch_sorted[OF sound parts(1) keys d(2)] parts(2,3,4) d(1) by simp
  have "(concat (map rows outs), merger_held m') =
      merge_rows (cluster_key conv sch keys) (concat (map rows slices)) (rows sd)"
    using feed_prior_run(2)[OF parts(5) slices run] parts(6,7) by simp
  then have "concat (map rows outs) @ merger_held m' =
      sort_key (cluster_key conv sch keys) (concat (map rows slices) @ rows sd)"
    using merge_rows_sort_key[OF prior sorted_d] by (simp add: split_def) (metis fst_conv snd_conv)
  then show ?thesis
    using parts(1) sort_record_batch_mset(1)[OF sound parts(1)] by (auto simp: merger_finish_rows)
qed

lemma sample_lexsort_sound: "lexsort_sound (arrow sample_lib)"
  unfolding lexsort_sound_def
proof (intro allI impI conjI)
  fix cols n ind
  assume a: "cols \<noteq> [] \<and> (\<forall>(t, cs) \<in> set cols. length cs = n) \<and> lexsort_to_indices (arrow sample_lib) cols = Inr ind"
  then have ind: "ind = sort_key (\<lambda>i. sample_enc (map (\<lambda>(t, cs). cs ! i) cols)) [0..<n]"
    by (cases cols) (auto simp: sample_lib_def)
  then show "mset ind = mset [0..<n]" by simp
  fix conv ks
  assume "row_converter_new (arrow sample_lib) (map fst cols) = Inr conv \<and>
      rmap (\<lambda>i. conv (map (\<lambda>(t, cs). cs ! i) cols)) ind = Inr ks"
  then have "ks = map (\<lambda>i. sample_enc (map (\<lambda>(t, cs). cs ! i) cols)) ind"
    by (auto simp: sample_lib_def intro!: rmap_Inr_map)
  then show "sorted ks" using ind by simp
qed

lemma sample_merge_ok:
  "is_ok (rbind (merger_new sample_lib (PartitionOrderKey None None) (Some (sample_rows [3, 1])) [''id''] sample_schema)
     (\<lambda>m. rbind (run_ops feed_prior m [sample_rows [1, 2], sample_rows [2, 4]]) (\<lambda>_. Inr (pm_converter m = None))))"
  by code_simp

theorem partition_merge_is_stable_sort_witness:
  "\<exists>m m' outs (sd :: record_batch).
     merger_new sample_lib (PartitionOrderKey None None) (Some (sample_rows [3, 1])) [''id''] sample_schema = Inr m \<and>
     run_ops feed_prior m [sample_rows [1, 2], sample_rows [2, 4]] = Inr (m', outs) \<and>
     concat (map rows outs) @ (case merger_finish m' of None \<Rightarrow> [] | Some b \<Rightarrow> rows b) =
     sort_key (cluster_key (\<lambda>cs. Inr (sample_enc cs)) sample_schema [''id''])
       (concat (map rows [sample_rows [1, 2], sample_rows [2, 4]]) @ rows sd)"
proof -
  let ?slices = "[sample_rows [1, 2], sample_rows [2, 4]]"
  obtain m m' outs where m: "merger_new sample_lib (PartitionOrderKey None None) (Some (sample_rows [3, 1])) [''id''] sample_schema = Inr m"
    and run: "run_ops feed_prior m ?slices = Inr (m', outs)"
    using sample_merge_ok by (auto simp: is_ok_iff rbind_eq_Inr)
  have conv: "pm_converter m = Some (\<lambda>cs. Inr (sample_enc cs))"
    using m by (auto simp: merger_new_def rbind_eq_Inr sample_lib_def)
  have prior: "sorted (map (cluster_key (\<lambda>cs. Inr (sample_enc cs)) sample_schema [''id'']) (concat (map rows ?slices)))"
    by code_simp
  have side: "[''id''] \<noteq> []" "schema (sample_rows [3, 1]) = sample_schema" "rows (sample_rows [3, 1]) \<noteq> []"
    "\<forall>s \<in> set ?slices. schema s = sample_schema"
    by (simp_all add: sample_rows_def)
  from partition_merge_is_stable_sort[OF sample_lexsort_sound m side(1-3) conv side(4) run prior]
  show ?thesis using m run by blast
qed

end
