(* ===== verification/Pack_Stream.thy ===== *)
theory Pack_Stream
  imports Partition_Merger
begin

text \<open>
  The driver that packs the prior snapshot stream, the delta groups and the
  carried partitions in typed partition order
  (\<open>pack_merged_partition_stream\<close> in \<open>penca-api/src/lifecycle/packer.rs\<close>).
\<close>

section \<open>Packing the merged partition stream\<close>

text \<open>The \<open>BTreeMap\<close>s of the driver: association lists with strictly increasing keys.\<close>

fun bt_insert :: "'k :: linorder \<Rightarrow> 'v \<Rightarrow> ('k \<times> 'v) list \<Rightarrow> ('k \<times> 'v) list" where
  "bt_insert k v [] = [(k, v)]"
| "bt_insert k v ((k', v') # m) =
     (if k < k' then (k, v) # (k', v') # m
      else if k = k' then (k, v) # m
      else (k', v') # bt_insert k v m)"

fun bt_remove :: "'k :: linorder \<Rightarrow> ('k \<times> 'v) list \<Rightarrow> 'v option \<times> ('k \<times> 'v) list" where
  "bt_remove k [] = (None, [])"
| "bt_remove k ((k', v') # m) =
     (if k = k' then (Some v', m)
      else (case bt_remove k m of (r, m') \<Rightarrow> (r, (k', v') # m')))"

definition row_order_key :: "pack_lib \<Rightarrow> partition_ordering \<Rightarrow> nat list \<Rightarrow> record_batch \<Rightarrow> nat \<Rightarrow>
    partition_order_key result" where
  "row_order_key lib po label_cols b row =
     rbind (if po_keys po = [] then Inr None
            else rbind (partition_label (arrow lib) (key_types (schema b) label_cols)
                          (key_cells label_cols (rows b ! row))) (\<lambda>lbl. Inr (Some lbl)))
       (\<lambda>lbl. order_key_at po label_cols b row lbl)"

definition batch_order_key :: "partition_ordering \<Rightarrow> record_batch \<Rightarrow> string option \<Rightarrow>
    partition_order_key result" where
  "batch_order_key po b lbl =
     (if po_keys po = [] then order_key_from_key_arrays po [] lbl
      else rbind (resolve_keys (\<lambda>key. Internal (''partition key '' @ key @ '' not in delta schema''))
                    (schema b) (po_keys po))
             (\<lambda>cols. order_key_at po cols b 0 lbl))"

definition check_partition_order :: "partition_order_key option \<Rightarrow> partition_order_key \<Rightarrow>
    partition_order_key option result" where
  "check_partition_order last_completed key =
     (case last_completed of
        Some prev \<Rightarrow> if key \<le> prev then Inl (Internal ''snapshot stream partitions out of order'')
                     else Inr (Some key)
      | None \<Rightarrow> Inr (Some key))"

definition close_partition :: "pack_lib \<Rightarrow> packer \<Rightarrow> partition_merger \<Rightarrow> (packer \<times> pack_step list) result" where
  "close_partition lib p m =
     (let lbl = label (pm_key m) in
      rbind (case merger_finish m of
               Some tail \<Rightarrow> push_partition_chunk lib p lbl tail
             | None \<Rightarrow> Inr (p, [])) (\<lambda>(p1, out1).
      rbind (finish_partition lib p1) (\<lambda>(p2, out2). Inr (p2, map PackFile (out1 @ out2)))))"

definition push_delta_only :: "pack_lib \<Rightarrow> packer \<Rightarrow> string option \<Rightarrow> record_batch \<Rightarrow> string list \<Rightarrow>
    (packer \<times> pack_step list) result" where
  "push_delta_only lib p lbl batch sort_keys =
     (if num_rows batch = 0 then Inr (p, [])
      else rbind (sort_record_batch_by_keys (arrow lib) batch sort_keys) (\<lambda>clustered.
           rbind (push_partition lib p lbl clustered) (\<lambda>(p1, out). Inr (p1, map PackFile out))))"

type_synonym carried_map = "(partition_order_key \<times> uuid list) list"
type_synonym delta_map = "(partition_order_key \<times> record_batch) list"

definition in_bounds :: "partition_order_key option \<Rightarrow> partition_order_key \<Rightarrow> bool" where
  "in_bounds bound key = (case bound of Some limit \<Rightarrow> key < limit | None \<Rightarrow> True)"

definition take_carried :: "carried_map \<Rightarrow> delta_map \<Rightarrow> bool" where
  "take_carried carried delta =
     (case (carried, delta) of
        ((c, _) # _, (d, _) # _) \<Rightarrow> c < d
      | (_ # _, []) \<Rightarrow> True
      | _ \<Rightarrow> False)"

definition both_rewritten_and_carried :: "carried_map \<Rightarrow> delta_map \<Rightarrow> bool" where
  "both_rewritten_and_carried carried delta =
     (case (carried, delta) of ((c, _) # _, (d, _) # _) \<Rightarrow> c = d | _ \<Rightarrow> False)"

function drain_below :: "pack_lib \<Rightarrow> packer \<Rightarrow> carried_map \<Rightarrow> delta_map \<Rightarrow> partition_order_key option \<Rightarrow>
    string list \<Rightarrow> (packer \<times> carried_map \<times> delta_map \<times> pack_step list) result" where
  "drain_below lib p carried delta bound sort_keys =
     (if both_rewritten_and_carried carried delta
      then Inl (Internal ''partition is both rewritten and carried'')
      else if take_carried carried delta then
        (case carried of
           [] \<Rightarrow> Inr (p, carried, delta, [])
         | (key, prior_uuids) # carried' \<Rightarrow>
             if \<not> in_bounds bound key then Inr (p, carried, delta, [])
             else if prior_uuids = [] then drain_below lib p carried' delta bound sort_keys
             else
               rbind (flush lib p) (\<lambda>(p1, out1).
               case claim_carried lib p1 prior_uuids of (p2, specs) \<Rightarrow>
               rbind (drain_below lib p2 carried' delta bound sort_keys) (\<lambda>(p3, c3, d3, out3).
               Inr (p3, c3, d3, map PackFile out1 @ [PackCarried specs] @ out3))))
      else
        (case delta of
           [] \<Rightarrow> Inr (p, carried, delta, [])
         | (key, batch) # delta' \<Rightarrow>
             if \<not> in_bounds bound key then Inr (p, carried, delta, [])
             else
               rbind (push_delta_only lib p (label key) batch sort_keys) (\<lambda>(p1, out1).
               rbind (drain_below lib p1 carried delta' bound sort_keys) (\<lambda>(p2, c2, d2, out2).
               Inr (p2, c2, d2, out1 @ out2)))))"
  by pat_completeness auto
termination
  by (relation "measure (\<lambda>(lib, p, carried, delta, bound, keys). length carried + length delta)") auto

declare drain_below.simps [simp del]

record pack_state =
  ps_packer :: packer
  ps_carried :: carried_map
  ps_delta :: delta_map
  ps_active :: "partition_merger option"
  ps_last_completed :: "partition_order_key option"

text \<open>One contiguous run of rows of one partition: open the partition when the key
  changes, then feed the slice to the active merger.\<close>

definition open_run :: "pack_lib \<Rightarrow> string list \<Rightarrow> afield list \<Rightarrow> pack_state \<Rightarrow> partition_order_key \<Rightarrow>
    (pack_state \<times> pack_step list) result" where
  "open_run lib sort_keys sch st current =
     (if map_option pm_key (ps_active st) = Some current then Inr (st, [])
      else
        rbind (case ps_active st of
                 Some prev \<Rightarrow> close_partition lib (ps_packer st) prev
               | None \<Rightarrow> Inr (ps_packer st, [])) (\<lambda>(p1, out1).
        rbind (check_partition_order (ps_last_completed st) current) (\<lambda>last_completed.
        if current \<in> fst ` set (ps_carried st)
        then Inl (Internal ''partition is both rewritten and carried'')
        else
          rbind (drain_below lib p1 (ps_carried st) (ps_delta st) (Some current) sort_keys) (\<lambda>(p2, c2, d2, out2).
          case bt_remove current d2 of (removed, d3) \<Rightarrow>
          rbind (merger_new lib current removed sort_keys sch) (\<lambda>m.
          Inr (\<lparr>ps_packer = p2, ps_carried = c2, ps_delta = d3, ps_active = Some m,
                ps_last_completed = last_completed\<rparr>, out1 @ out2))))))"

definition feed_run :: "pack_lib \<Rightarrow> string list \<Rightarrow> pack_state \<Rightarrow> partition_order_key \<Rightarrow> record_batch \<Rightarrow>
    (pack_state \<times> pack_step list) result" where
  "feed_run lib sort_keys st current slice =
     rbind (open_run lib sort_keys (schema slice) st current) (\<lambda>(st1, out1).
     case ps_active st1 of
       None \<Rightarrow> Inr (st1, out1)
     | Some merger \<Rightarrow>
         rbind (push_prior merger slice) (\<lambda>(merger', merged).
         case merged of
           None \<Rightarrow> Inr (st1\<lparr>ps_active := Some merger'\<rparr>, out1)
         | Some out \<Rightarrow>
             rbind (push_partition_chunk lib (ps_packer st1) (label (pm_key merger')) out) (\<lambda>(p2, out2).
             Inr (st1\<lparr>ps_packer := p2, ps_active := Some merger'\<rparr>, out1 @ map PackFile out2))))"

fun run_loop :: "pack_lib \<Rightarrow> partition_ordering \<Rightarrow> string list \<Rightarrow> nat list \<Rightarrow> record_batch \<Rightarrow> nat list \<Rightarrow> nat \<Rightarrow>
    partition_order_key \<Rightarrow> pack_state \<Rightarrow> (pack_state \<times> pack_step list) result" where
  "run_loop lib po sort_keys label_cols b [] start current st = Inr (st, [])"
| "run_loop lib po sort_keys label_cols b (row # rest) start current st =
     rbind (if row < num_rows b
            then rbind (row_order_key lib po label_cols b row) (\<lambda>k. Inr (Some k))
            else Inr None) (\<lambda>next_key.
     if next_key \<noteq> Some current then
       rbind (feed_run lib sort_keys st current (batch_slice b start (row - start))) (\<lambda>(st1, out1).
       case next_key of
         Some k \<Rightarrow> rbind (run_loop lib po sort_keys label_cols b rest row k st1) (\<lambda>(st2, out2). Inr (st2, out1 @ out2))
       | None \<Rightarrow> rbind (run_loop lib po sort_keys label_cols b rest start current st1) (\<lambda>(st2, out2). Inr (st2, out1 @ out2)))
     else run_loop lib po sort_keys label_cols b rest start current st)"

definition feed_batch :: "pack_lib \<Rightarrow> partition_ordering \<Rightarrow> string list \<Rightarrow> pack_state \<Rightarrow> record_batch \<Rightarrow>
    (pack_state \<times> pack_step list) result" where
  "feed_batch lib po sort_keys st b =
     (if num_rows b = 0 then Inr (st, [])
      else
        rbind (resolve_keys (\<lambda>key. InvalidRequest (''partition key '' @ key @ '' not in snapshot stream schema''))
                 (schema b) (po_keys po)) (\<lambda>label_cols.
        rbind (row_order_key lib po label_cols b 0) (\<lambda>current.
        run_loop lib po sort_keys label_cols b [1..<Suc (num_rows b)] 0 current st)))"

fun feed_stream :: "pack_lib \<Rightarrow> partition_ordering \<Rightarrow> string list \<Rightarrow> pack_state \<Rightarrow>
    record_batch result list \<Rightarrow> (pack_state \<times> pack_step list) result" where
  "feed_stream lib po sort_keys st [] = Inr (st, [])"
| "feed_stream lib po sort_keys st (item # items) =
     rbind item (\<lambda>b.
     rbind (feed_batch lib po sort_keys st b) (\<lambda>(st1, out1).
     rbind (feed_stream lib po sort_keys st1 items) (\<lambda>(st2, out2). Inr (st2, out1 @ out2))))"

fun rekey_delta :: "partition_ordering \<Rightarrow> (string option \<times> record_batch) list \<Rightarrow> delta_map \<Rightarrow> delta_map result" where
  "rekey_delta po [] delta = Inr delta"
| "rekey_delta po ((lbl, batch) # groups) delta =
     (if num_rows batch = 0 then rekey_delta po groups delta
      else rbind (batch_order_key po batch lbl) (\<lambda>key. rekey_delta po groups (bt_insert key batch delta)))"

definition pack_merged_partition_stream :: "pack_lib \<Rightarrow> (string option \<times> record_batch) list \<Rightarrow>
    record_batch result list \<Rightarrow> partition_ordering \<Rightarrow> string list \<Rightarrow> carried_map \<Rightarrow> packer \<Rightarrow>
    pack_step list result" where
  "pack_merged_partition_stream lib delta_groups snapshot_stream po sort_keys carried p =
     rbind (rekey_delta po delta_groups []) (\<lambda>delta.
     rbind (feed_stream lib po sort_keys
              \<lparr>ps_packer = p, ps_carried = carried, ps_delta = delta, ps_active = None,
               ps_last_completed = None\<rparr> snapshot_stream) (\<lambda>(st, out1).
     rbind (case ps_active st of
              Some prev \<Rightarrow> close_partition lib (ps_packer st) prev
            | None \<Rightarrow> Inr (ps_packer st, [])) (\<lambda>(p2, out2).
     rbind (drain_below lib p2 (ps_carried st) (ps_delta st) None sort_keys) (\<lambda>(p3, c3, d3, out3).
     rbind (packer_finish lib p3) (\<lambda>out4.
     Inr (out1 @ out2 @ out3 @ map PackFile out4))))))"

section \<open>The packed steps as a sequence of events\<close>

text \<open>What leaves the driver, in chunk index order: rows, and references to prior
  segments.\<close>

datatype event = RowEv row | CarryEv uuid

definition step_events :: "pack_step list \<Rightarrow> event list" where
  "step_events steps =
     concat (map (\<lambda>s. case s of PackFile f \<Rightarrow> map RowEv (rows (fs_file_batch f))
                               | PackCarried cs \<Rightarrow> map (\<lambda>c. CarryEv (cs_prior_seg_uuid c)) cs) steps)"

definition all_idxs :: "pack_step list \<Rightarrow> nat list" where
  "all_idxs steps = concat (map step_idxs steps)"

definition step_ok :: "afield list \<Rightarrow> int \<Rightarrow> pack_step \<Rightarrow> bool" where
  "step_ok sch cap s = (case s of PackFile f \<Rightarrow> file_ok sch cap f | PackCarried cs \<Rightarrow> cs \<noteq> [])"

text \<open>The contract of a driver operation that feeds the events \<open>evs\<close>.\<close>

definition feeds :: "afield list \<Rightarrow> packer \<Rightarrow> event list \<Rightarrow> packer \<Rightarrow> pack_step list \<Rightarrow> bool" where
  "feeds sch p evs p' out =
     (packer_inv sch p' \<and> same_config p p' \<and> pk_chunk_idx p \<le> pk_chunk_idx p' \<and>
      step_events out @ map RowEv (packer_rows p') = map RowEv (packer_rows p) @ evs \<and>
      all_idxs out = [pk_chunk_idx p..<pk_chunk_idx p'] \<and>
      list_all (step_ok sch (pk_max_segment_bytes p)) out)"

lemma step_events_simps [simp]:
  "step_events [] = []" "step_events (xs @ ys) = step_events xs @ step_events ys"
  "step_events (PackFile f # xs) = map RowEv (rows (fs_file_batch f)) @ step_events xs"
  "step_events (PackCarried cs # xs) = map (\<lambda>c. CarryEv (cs_prior_seg_uuid c)) cs @ step_events xs"
  "step_events (map PackFile fs) = map RowEv (file_rows fs)"
  by (induction fs) (simp_all add: step_events_def)

lemma all_idxs_simps [simp]:
  "all_idxs [] = []" "all_idxs (xs @ ys) = all_idxs xs @ all_idxs ys"
  "all_idxs (x # xs) = step_idxs x @ all_idxs xs" "all_idxs (map PackFile fs) = file_idxs fs"
  by (induction fs) (simp_all add: all_idxs_def)

lemma step_ok_files [simp]: "list_all (step_ok sch cap) (map PackFile fs) = list_all (file_ok sch cap) fs"
  by (induction fs) (auto simp: step_ok_def)

lemma feeds_packs: "packs sch p fed p' out \<Longrightarrow> feeds sch p (map RowEv fed) p' (map PackFile out)"
  by (auto simp: packs_def feeds_def map_append[symmetric] simp del: map_append)

lemma feeds_refl: "packer_inv sch p \<Longrightarrow> feeds sch p [] p []"
  by (simp add: feeds_def same_config_def)

lemma feeds_trans:
  assumes "feeds sch p evs p1 out1" "feeds sch p1 evs' p2 out2"
  shows "feeds sch p (evs @ evs') p2 (out1 @ out2)"
proof -
  have "step_events out1 @ step_events out2 @ map RowEv (packer_rows p2) = map RowEv (packer_rows p) @ evs @ evs'"
    using assms unfolding feeds_def by (metis append.assoc)
  moreover have "[pk_chunk_idx p..<pk_chunk_idx p1] @ [pk_chunk_idx p1..<pk_chunk_idx p2] =
      [pk_chunk_idx p..<pk_chunk_idx p2]"
    using assms by (auto simp: feeds_def upt_add_eq_append[symmetric] le_iff_add)
  ultimately show ?thesis using assms by (auto simp: feeds_def same_config_def)
qed

lemma claim_carried_spec:
  "claim_carried lib p us = (p', specs) \<Longrightarrow>
   p' = p\<lparr>pk_chunk_idx := pk_chunk_idx p + length us\<rparr> \<and> map cs_prior_seg_uuid specs = us \<and>
   map cs_chunk_idx specs = [pk_chunk_idx p..<pk_chunk_idx p']"
proof (induction us arbitrary: p specs)
  case (Cons u us)
  obtain specs1 where rest: "claim_carried lib (p\<lparr>pk_chunk_idx := Suc (pk_chunk_idx p)\<rparr>) us = (p', specs1)"
    and specs: "\<exists>s. specs = s # specs1 \<and> cs_chunk_idx s = pk_chunk_idx p \<and> cs_prior_seg_uuid s = u"
    using Cons.prems by (auto simp: Let_def split: prod.splits)
  show ?case using Cons.IH[OF rest] specs by (auto simp: upt_conv_Cons simp del: upt_Suc)
qed simp

lemma packer_inv_idx [simp]: "packer_inv sch (p\<lparr>pk_chunk_idx := n\<rparr>) = packer_inv sch p"
  by (simp add: packer_inv_def buffer_inv_def buffered_rows_def split: option.splits)

lemma packer_rows_idx [simp]: "packer_rows (p\<lparr>pk_chunk_idx := n\<rparr>) = packer_rows p"
  by (simp add: packer_rows_def buffered_rows_def open_rows_def)

lemma carried_feeds:
  assumes inv: "packer_inv sch p" and closed: "pk_open p = None" and us: "us \<noteq> []"
    and fl: "flush lib p = Inr (p1, out1)" and claim: "claim_carried lib p1 us = (p2, specs)"
  shows "feeds sch p (map CarryEv us) p2 (map PackFile out1 @ [PackCarried specs])" "pk_open p2 = None"
proof -
  note flushed = flush_packs[OF inv fl]
  note spec = claim_carried_spec[OF claim]
  have "packer_rows p1 = []" using flushed(2,3) closed by (simp add: packer_rows_def open_rows_def)
  have inv2: "packer_inv sch p2" "same_config p1 p2" "packer_rows p2 = packer_rows p1"
    using spec flushed(1) by (auto simp: packs_def same_config_def)
  have "map (\<lambda>c. CarryEv (cs_prior_seg_uuid c)) specs = map CarryEv (map cs_prior_seg_uuid specs)" by simp
  then have "map (\<lambda>c. CarryEv (cs_prior_seg_uuid c)) specs = map CarryEv us" using spec by (simp only:)
  moreover have "specs \<noteq> []" using spec us by auto
  ultimately have "feeds sch p1 (map CarryEv us) p2 [PackCarried specs]"
    using inv2 spec \<open>packer_rows p1 = []\<close> by (simp add: feeds_def step_ok_def)
  from feeds_trans[OF feeds_packs[OF flushed(1)] this]
  show "feeds sch p (map CarryEv us) p2 (map PackFile out1 @ [PackCarried specs])" by simp
  show "pk_open p2 = None" using spec flushed(3) closed by simp
qed

lemma batch_ok_mset:
  assumes "batch_ok sch b" "schema b' = schema b" "mset (rows b') = mset (rows b)"
  shows "batch_ok sch b'"
  using assms mset_eq_setD[OF assms(3)] by (auto simp: batch_ok_def wf_batch_def)

lemma push_delta_only_feeds:
  assumes inv: "packer_inv sch p" and closed: "pk_open p = None" and ok: "batch_ok sch b"
    and sound: "lexsort_sound (arrow lib)"
    and push: "push_delta_only lib p lbl b keys = Inr (p', out)"
  obtains rs where "feeds sch p (map RowEv rs) p' out" "pk_open p' = None" "mset rs = mset (rows b)"
proof (cases "rows b = []")
  case True
  then show thesis using that[of "[]"] feeds_refl[OF inv] closed push by (simp add: push_delta_only_def num_rows_def)
next
  case False
  then obtain c out' where sorted: "sort_record_batch_by_keys (arrow lib) b keys = Inr c"
    and p: "push_partition lib p lbl c = Inr (p', out')" and out: "out = map PackFile out'"
    using push by (auto simp: push_delta_only_def num_rows_def rbind_eq_Inr)
  note c = sort_record_batch_mset[OF sound sorted]
  have "batch_ok sch c" using batch_ok_mset[OF ok c(2,1)] .
  from push_partition_packs[OF inv closed this p] show thesis
    using that[of "rows c"] feeds_packs out c(1) by blast
qed

section \<open>Draining below a bound\<close>

fun ev_key :: "(row \<Rightarrow> partition_order_key) \<Rightarrow> (uuid \<Rightarrow> partition_order_key) \<Rightarrow> event \<Rightarrow> partition_order_key" where
  "ev_key rk ck (RowEv r) = rk r"
| "ev_key rk ck (CarryEv u) = ck u"

definition ev_rows :: "event list \<Rightarrow> row list" where
  "ev_rows evs = concat (map (\<lambda>e. case e of RowEv r \<Rightarrow> [r] | CarryEv u \<Rightarrow> []) evs)"

definition ev_uuids :: "event list \<Rightarrow> uuid list" where
  "ev_uuids evs = concat (map (\<lambda>e. case e of RowEv r \<Rightarrow> [] | CarryEv u \<Rightarrow> [u]) evs)"

lemma ev_simps [simp]:
  "ev_rows [] = []" "ev_rows (xs @ ys) = ev_rows xs @ ev_rows ys" "ev_rows (map RowEv rs) = rs"
  "ev_rows (map CarryEv us) = []"
  "ev_uuids [] = []" "ev_uuids (xs @ ys) = ev_uuids xs @ ev_uuids ys" "ev_uuids (map RowEv rs) = []"
  "ev_uuids (map CarryEv us) = us"
proof -
  show "ev_rows (map RowEv rs) = rs" by (induction rs) (simp_all add: ev_rows_def)
  show "ev_rows (map CarryEv us) = []" by (induction us) (simp_all add: ev_rows_def)
  show "ev_uuids (map RowEv rs) = []" by (induction rs) (simp_all add: ev_uuids_def)
  show "ev_uuids (map CarryEv us) = us" by (induction us) (simp_all add: ev_uuids_def)
qed (simp_all add: ev_rows_def ev_uuids_def)

text \<open>A delta group is exact for a key when all its rows have that key; a carried entry,
  when its segments do.\<close>

definition delta_exact :: "afield list \<Rightarrow> (row \<Rightarrow> partition_order_key) \<Rightarrow> delta_map \<Rightarrow> bool" where
  "delta_exact sch rk delta =
     (sorted_wrt (<) (map fst delta) \<and>
      (\<forall>(k, b) \<in> set delta. batch_ok sch b \<and> (\<forall>r \<in> set (rows b). rk r = k)))"

definition carried_exact :: "(uuid \<Rightarrow> partition_order_key) \<Rightarrow> carried_map \<Rightarrow> bool" where
  "carried_exact ck carried =
     (sorted_wrt (<) (map fst carried) \<and> (\<forall>(k, us) \<in> set carried. \<forall>u \<in> set us. ck u = k))"

definition delta_rows :: "delta_map \<Rightarrow> row list" where
  "delta_rows delta = concat (map (\<lambda>(k, b). rows b) delta)"

definition carried_uuids :: "carried_map \<Rightarrow> uuid list" where
  "carried_uuids carried = concat (map snd carried)"

text \<open>Sorted runs of events: \<open>ordered_evs lo evs hi\<close> when the keys are non-decreasing and
  lie above every key of \<open>lo\<close> and below every key of \<open>hi\<close>.\<close>

definition ascending :: "(row \<Rightarrow> partition_order_key) \<Rightarrow> (uuid \<Rightarrow> partition_order_key) \<Rightarrow> event list \<Rightarrow> bool" where
  "ascending rk ck evs = sorted (map (ev_key rk ck) evs)"

lemma ascending_append:
  "ascending rk ck (xs @ ys) \<longleftrightarrow> ascending rk ck xs \<and> ascending rk ck ys \<and>
     (\<forall>x \<in> set xs. \<forall>y \<in> set ys. ev_key rk ck x \<le> ev_key rk ck y)"
  by (auto simp: ascending_def sorted_append)

lemma ascending_const: "\<forall>e \<in> set evs. ev_key rk ck e = k \<Longrightarrow> ascending rk ck evs"
  by (induction evs) (auto simp: ascending_def)

text \<open>The outcome of a drain from \<open>p\<close>, \<open>carried\<close> and \<open>delta\<close>.\<close>

definition drained :: "afield list \<Rightarrow> (row \<Rightarrow> partition_order_key) \<Rightarrow> (uuid \<Rightarrow> partition_order_key) \<Rightarrow>
    partition_order_key option \<Rightarrow> packer \<Rightarrow> carried_map \<Rightarrow> delta_map \<Rightarrow> packer \<Rightarrow> carried_map \<Rightarrow> delta_map \<Rightarrow>
    pack_step list \<Rightarrow> event list \<Rightarrow> bool" where
  "drained sch rk ck bound p carried delta p' carried' delta' out evs =
     (feeds sch p evs p' out \<and> pk_open p' = None \<and> ascending rk ck evs \<and>
      (\<forall>e \<in> set evs. in_bounds bound (ev_key rk ck e) \<and> ev_key rk ck e \<in> fst ` set carried \<union> fst ` set delta) \<and>
      mset (ev_rows evs) + mset (delta_rows delta') = mset (delta_rows delta) \<and>
      ev_uuids evs @ carried_uuids carried' = carried_uuids carried \<and>
      delta_exact sch rk delta' \<and> carried_exact ck carried' \<and>
      set delta' \<subseteq> set delta \<and> set carried' \<subseteq> set carried \<and>
      (\<forall>k \<in> fst ` set carried' \<union> fst ` set delta'. \<not> in_bounds bound k))"

lemma in_bounds_mono: "in_bounds bound k \<Longrightarrow> k' \<le> k \<Longrightarrow> in_bounds bound k'"
  by (auto simp: in_bounds_def split: option.splits)

lemma unbounded_drains_all: "\<forall>k \<in> K. \<not> in_bounds None k \<Longrightarrow> K = {}"
  by (simp add: in_bounds_def)

lemma drained_nothing:
  assumes "packer_inv sch p" "pk_open p = None" "delta_exact sch rk delta" "carried_exact ck carried"
    and "\<forall>k \<in> fst ` set carried \<union> fst ` set delta. \<not> in_bounds bound k"
  shows "drained sch rk ck bound p carried delta p carried delta [] []"
  using assms feeds_refl[of sch p] by (simp add: drained_def ascending_def)

text \<open>One entry taken off the head of a map, then the rest.\<close>

lemma drained_step:
  assumes first: "feeds sch p evs1 p1 out1" "\<forall>e \<in> set evs1. ev_key rk ck e = k" "in_bounds bound k"
    and rest: "drained sch rk ck bound p1 carried1 delta1 p' carried' delta' out2 evs2"
    and least: "\<forall>k' \<in> fst ` set carried1 \<union> fst ` set delta1. k < k'"
    and sub: "set carried1 \<subseteq> set carried" "set delta1 \<subseteq> set delta" "k \<in> fst ` set carried \<union> fst ` set delta"
    and rows: "mset (ev_rows evs1) + mset (delta_rows delta1) = mset (delta_rows delta)"
    and uuids: "ev_uuids evs1 @ carried_uuids carried1 = carried_uuids carried"
  shows "drained sch rk ck bound p carried delta p' carried' delta' (out1 @ out2) (evs1 @ evs2)"
proof -
  have "feeds sch p (evs1 @ evs2) p' (out1 @ out2)"
    using feeds_trans[OF first(1)] rest by (simp add: drained_def)
  moreover have "ascending rk ck (evs1 @ evs2)"
    using ascending_const[OF first(2)] rest least first(2)
    by (auto simp: ascending_append drained_def intro: less_imp_le)
  moreover have "mset (ev_rows (evs1 @ evs2)) + mset (delta_rows delta') = mset (delta_rows delta)"
    using rest rows by (simp add: drained_def) (metis add.assoc)
  moreover have "ev_uuids (evs1 @ evs2) @ carried_uuids carried' = carried_uuids carried"
    using rest uuids by (simp add: drained_def)
  moreover have "\<forall>e \<in> set (evs1 @ evs2). in_bounds bound (ev_key rk ck e) \<and>
      ev_key rk ck e \<in> fst ` set carried \<union> fst ` set delta"
    using first(2,3) rest sub by (auto simp: drained_def image_iff) (meson subsetD)+
  ultimately show ?thesis using rest sub(1,2) by (auto simp: drained_def)
qed

lemma head_least:
  assumes "\<not> both_rewritten_and_carried carried delta" "sorted_wrt (<) (map fst carried)" "sorted_wrt (<) (map fst delta)"
  shows "take_carried carried delta \<Longrightarrow> carried = (k, us) # carried1 \<Longrightarrow>
      \<forall>k' \<in> fst ` set carried1 \<union> fst ` set delta. k < k'"
    and "\<not> take_carried carried delta \<Longrightarrow> delta = (k, b) # delta1 \<Longrightarrow>
      \<forall>k' \<in> fst ` set carried \<union> fst ` set delta1. k < k'"
proof -
  assume c: "take_carried carried delta" "carried = (k, us) # carried1"
  then show "\<forall>k' \<in> fst ` set carried1 \<union> fst ` set delta. k < k'"
    using assms by (cases delta) (fastforce simp: take_carried_def)+
next
  assume d: "\<not> take_carried carried delta" "delta = (k, b) # delta1"
  show "\<forall>k' \<in> fst ` set carried \<union> fst ` set delta1. k < k'"
  proof (cases carried)
    case Nil
    then show ?thesis using assms(3) d(2) by fastforce
  next
    case (Cons e carried1)
    obtain c us where e: "e = (c, us)" by (cases e)
    have "k < c" using d assms(1) Cons e by (auto simp: take_carried_def both_rewritten_and_carried_def)
    moreover have "\<forall>k' \<in> fst ` set carried1. c < k'" using assms(2) Cons e by auto
    ultimately show ?thesis using assms(3) d(2) Cons e by fastforce
  qed
qed

lemma drain_below_spec:
  assumes "drain_below lib p carried delta bound keys = Inr (p', carried', delta', out)"
    and "packer_inv sch p" "pk_open p = None" "lexsort_sound (arrow lib)"
    and "delta_exact sch rk delta" "carried_exact ck carried"
  shows "\<exists>evs. drained sch rk ck bound p carried delta p' carried' delta' out evs"
  using assms
proof (induction "length carried + length delta" arbitrary: p carried delta out rule: less_induct)
  case less
  have sorts: "sorted_wrt (<) (map fst carried)" "sorted_wrt (<) (map fst delta)"
    using less.prems(5,6) by (auto simp: delta_exact_def carried_exact_def)
  have not_both: "\<not> both_rewritten_and_carried carried delta"
    using less.prems(1) by (subst (asm) drain_below.simps) (auto split: if_splits)
  note least = head_least[OF not_both sorts]
  note run = less.prems(1)[unfolded drain_below.simps[of lib p carried delta]]
  show ?case
  proof (cases "take_carried carried delta")
    case True
    then obtain k us carried1 where c: "carried = (k, us) # carried1"
      by (cases carried) (auto simp: take_carried_def split: list.splits)
    have smaller: "length carried1 + length delta < length carried + length delta" using c by simp
    have exact1: "carried_exact ck carried1" using less.prems(6) c by (auto simp: carried_exact_def)
    have us_key: "\<forall>u \<in> set us. ck u = k" using less.prems(6) c by (auto simp: carried_exact_def)
    consider "\<not> in_bounds bound k" | "in_bounds bound k" "us = []" | "in_bounds bound k" "us \<noteq> []" by blast
    then show ?thesis
    proof cases
      case 1
      then have "\<forall>k' \<in> fst ` set carried \<union> fst ` set delta. \<not> in_bounds bound k'"
        using least(1)[OF True c] c by (auto dest: in_bounds_mono[OF _ less_imp_le])
      moreover have "p' = p" "carried' = carried" "delta' = delta" "out = []"
        using run not_both True c 1 by auto
      ultimately show ?thesis using drained_nothing[OF less.prems(2,3,5,6)] by blast
    next
      case 2
      have "drain_below lib p carried1 delta bound keys = Inr (p', carried', delta', out)"
        using run not_both True c 2 by auto
      from less.hyps[OF smaller this less.prems(2-5) exact1] obtain evs where
        evs: "drained sch rk ck bound p carried1 delta p' carried' delta' out evs" by blast
      have "drained sch rk ck bound p carried delta p' carried' delta' ([] @ out) ([] @ evs)"
        by (rule drained_step[OF feeds_refl[OF less.prems(2)] _ 2(1) evs least(1)[OF True c]])
           (use c 2(2) in \<open>auto simp: carried_uuids_def\<close>)
      then show ?thesis by auto
    next
      case 3
      obtain p1 out1 where fl: "flush lib p = Inr (p1, out1)"
        using run not_both True c 3 by (auto simp: rbind_eq_Inr)
      obtain p2 specs where claim: "claim_carried lib p1 us = (p2, specs)"
        by (cases "claim_carried lib p1 us")
      obtain out3 where rest: "drain_below lib p2 carried1 delta bound keys = Inr (p', carried', delta', out3)"
        and out: "out = (map PackFile out1 @ [PackCarried specs]) @ out3"
        using run not_both True c 3 fl claim by (auto simp: rbind_eq_Inr)
      note fed = carried_feeds[OF less.prems(2,3) 3(2) fl claim]
      have inv2: "packer_inv sch p2" using fed(1) by (simp add: feeds_def)
      from less.hyps[OF smaller rest inv2 fed(2) less.prems(4,5) exact1] obtain evs where
        evs: "drained sch rk ck bound p2 carried1 delta p' carried' delta' out3 evs" by blast
      have "drained sch rk ck bound p carried delta p' carried' delta' out (map CarryEv us @ evs)"
        unfolding out
        by (rule drained_step[OF fed(1) _ 3(1) evs least(1)[OF True c]])
           (use c us_key in \<open>auto simp: carried_uuids_def\<close>)
      then show ?thesis by blast
    qed
  next
    case False
    show ?thesis
    proof (cases delta)
      case Nil
      then have "carried = []" using False by (cases carried) (auto simp: take_carried_def)
      moreover have "p' = p" "carried' = carried" "delta' = delta" "out = []"
        using run not_both False Nil by auto
      ultimately show ?thesis using drained_nothing[OF less.prems(2,3,5,6)] Nil by auto
    next
      case (Cons e delta1)
      obtain k b where e: "e = (k, b)" by (cases e)
      have d: "delta = (k, b) # delta1" using Cons e by simp
      have smaller: "length carried + length delta1 < length carried + length delta" using d by simp
      have exact1: "delta_exact sch rk delta1" "batch_ok sch b" "\<forall>r \<in> set (rows b). rk r = k"
        using less.prems(5) d by (auto simp: delta_exact_def)
      show ?thesis
      proof (cases "in_bounds bound k")
        case out_of: False
        then have "\<forall>k' \<in> fst ` set carried \<union> fst ` set delta. \<not> in_bounds bound k'"
          using least(2)[OF False d] d by (auto dest: in_bounds_mono[OF _ less_imp_le])
        moreover have "p' = p" "carried' = carried" "delta' = delta" "out = []"
          using run not_both False d out_of by auto
        ultimately show ?thesis using drained_nothing[OF less.prems(2,3,5,6)] by blast
      next
        case True
        obtain p1 out1 out2 where push: "push_delta_only lib p (label k) b keys = Inr (p1, out1)"
          and rest: "drain_below lib p1 carried delta1 bound keys = Inr (p', carried', delta', out2)"
          and out: "out = out1 @ out2"
          using run not_both False d True by (auto simp: rbind_eq_Inr)
        obtain rs where fed: "feeds sch p (map RowEv rs) p1 out1" "pk_open p1 = None" "mset rs = mset (rows b)"
          using push_delta_only_feeds[OF less.prems(2,3) exact1(2) less.prems(4) push] by blast
        have inv1: "packer_inv sch p1" using fed(1) by (simp add: feeds_def)
        have rs_key: "\<forall>e \<in> set (map RowEv rs). ev_key rk ck e = k"
          using exact1(3) mset_eq_setD[OF fed(3)] by auto
        from less.hyps[OF smaller rest inv1 fed(2) less.prems(4) exact1(1) less.prems(6)] obtain evs where
          evs: "drained sch rk ck bound p1 carried delta1 p' carried' delta' out2 evs" by blast
        have "drained sch rk ck bound p carried delta p' carried' delta' out (map RowEv rs @ evs)"
          unfolding out
          by (rule drained_step[OF fed(1) rs_key True evs least(2)[OF False d]])
             (use d fed(3) in \<open>auto simp: delta_rows_def\<close>)
        then show ?thesis by blast
      qed
    qed
  qed
qed

section \<open>The mergers of the stream\<close>

definition merger_ok :: "afield list \<Rightarrow> partition_merger \<Rightarrow> bool" where
  "merger_ok sch m =
     ((\<forall>d. pm_delta m = Some d \<longrightarrow> batch_ok sch d) \<and> (\<forall>conv. pm_converter m = Some conv \<longrightarrow> comparing sch conv m))"

lemma merge_rows_mset:
  "merge_rows f ps ds = (out, held) \<Longrightarrow> mset out + mset held = mset ps + mset ds"
proof (induction f ps ds arbitrary: out held rule: merge_rows.induct)
  case (2 f p ps ds)
  obtain out1 where rest: "merge_rows f ps (dropWhile (\<lambda>d. f d < f p) ds) = (out1, held)"
    and out: "out = takeWhile (\<lambda>d. f d < f p) ds @ p # out1"
    using 2(2) by (auto split: prod.splits)
  have "mset (takeWhile (\<lambda>d. f d < f p) ds) + mset (dropWhile (\<lambda>d. f d < f p) ds) = mset ds"
    by (simp only: mset_append[symmetric] takeWhile_dropWhile_id)
  then have "mset ds = mset (takeWhile (\<lambda>d. f d < f p) ds) + mset (dropWhile (\<lambda>d. f d < f p) ds)" by simp
  then show ?case using 2(1)[OF rest] unfolding out by simp
qed simp

lemma merger_new_ok:
  assumes sound: "lexsort_sound (arrow lib)" and new: "merger_new lib key delta keys sch = Inr m"
    and ok: "\<forall>d. delta = Some d \<longrightarrow> batch_ok sch d"
  shows "merger_ok sch m" "pm_key m = key"
    and "mset (merger_held m) = mset (case delta of None \<Rightarrow> [] | Some d \<Rightarrow> rows d)"
proof -
  have "merger_ok sch m \<and> pm_key m = key \<and> mset (merger_held m) = mset (case delta of None \<Rightarrow> [] | Some d \<Rightarrow> rows d)"
  proof (cases delta)
    case None
    then show ?thesis using new by (auto simp: merger_new_def merger_ok_def merger_held_def)
  next
    case (Some d)
    show ?thesis
    proof (cases "keys = []")
      case True
      then show ?thesis using new ok Some by (auto simp: merger_new_def merger_ok_def merger_held_def)
    next
      case False
      have d: "schema d = sch" using ok Some by (simp add: batch_ok_def)
      obtain sd conv where parts: "sort_record_batch_by_keys (arrow lib) d keys = Inr sd"
        "comparing sch conv m" "merger_held m = rows sd" "pm_key m = key" "pm_converter m = Some conv"
        using merger_new_comparing[OF new[unfolded Some] False d sound] by metis
      have "pm_delta m = Some sd"
        using new Some False parts(1) by (auto simp: merger_new_def rbind_eq_Inr)
      moreover note sd = sort_record_batch_mset[OF sound parts(1)]
      moreover have "batch_ok sch sd" using batch_ok_mset[OF _ sd(2,1)] ok Some by simp
      ultimately show ?thesis using parts Some by (simp add: merger_ok_def)
    qed
  qed
  then show "merger_ok sch m" "pm_key m = key"
    "mset (merger_held m) = mset (case delta of None \<Rightarrow> [] | Some d \<Rightarrow> rows d)" by auto
qed

lemma interleave_rows_subset:
  "mset xs + mset held' = mset ss + mset held \<Longrightarrow> set xs \<subseteq> set ss \<union> set held"
  by (metis set_mset_mset set_mset_union sup_ge1)

lemma push_prior_ok:
  assumes ok: "merger_ok sch m" and slice: "batch_ok sch slice" and push: "push_prior m slice = Inr (m', out)"
  shows "merger_ok sch m'" "pm_key m' = pm_key m"
    and "mset (case out of None \<Rightarrow> [] | Some b \<Rightarrow> rows b) + mset (merger_held m') = mset (rows slice) + mset (merger_held m)"
    and "\<forall>b. out = Some b \<longrightarrow> batch_ok sch b"
proof -
  have "merger_ok sch m' \<and> pm_key m' = pm_key m \<and>
    mset (case out of None \<Rightarrow> [] | Some b \<Rightarrow> rows b) + mset (merger_held m') = mset (rows slice) + mset (merger_held m) \<and>
    (\<forall>b. out = Some b \<longrightarrow> batch_ok sch b)"
  proof (cases "pm_converter m")
    case None
    then show ?thesis
      using push ok slice by (auto simp: push_prior_def num_rows_def split: if_splits)
  next
    case (Some conv)
    then have cmp: "comparing sch conv m" using ok by (simp add: merger_ok_def)
    have sch: "schema slice = sch" using slice by (simp add: batch_ok_def)
    note step = push_prior_compares[OF cmp sch push]
    have eq: "mset (case out of None \<Rightarrow> [] | Some b \<Rightarrow> rows b) + mset (merger_held m') = mset (rows slice) + mset (merger_held m)"
      by (rule merge_rows_mset[OF step(4)[symmetric]])
    have same: "pm_delta m' = pm_delta m" "pm_converter m' = pm_converter m"
      using push by (auto simp: push_prior_def rbind_eq_Inr split_def split: if_splits option.splits)
    obtain d where d: "pm_delta m = Some d" "batch_ok sch d"
      using cmp ok by (auto simp: comparing_def merger_ok_def)
    have held: "set (merger_held m) \<subseteq> set (rows d)"
      using d by (auto simp: merger_held_def dest: in_set_dropD)
    have "batch_ok sch b" if "out = Some b" for b
      using that interleave_rows_subset[OF eq] held d(2) slice step(5) by (fastforce simp: batch_ok_def wf_batch_def)
    then show ?thesis using ok same Some step(1,3) eq by (simp add: merger_ok_def)
  qed
  then show "merger_ok sch m'" "pm_key m' = pm_key m"
    "mset (case out of None \<Rightarrow> [] | Some b \<Rightarrow> rows b) + mset (merger_held m') = mset (rows slice) + mset (merger_held m)"
    "\<forall>b. out = Some b \<longrightarrow> batch_ok sch b" by auto
qed

lemma close_partition_feeds:
  assumes inv: "packer_inv sch p" and ok: "merger_ok sch m" and close: "close_partition lib p m = Inr (p', out)"
  shows "feeds sch p (map RowEv (merger_held m)) p' out" "pk_open p' = None"
proof -
  have tail_ok: "batch_ok sch b" if "merger_finish m = Some b" for b
    using that ok
    by (auto simp: merger_finish_def merger_ok_def batch_ok_def batch_slice_def wf_batch_def Let_def
        slice_rows_def dest!: in_set_takeD in_set_dropD split: option.splits if_splits)
  obtain p1 out1 out2 where
    tail: "(case merger_finish m of Some t \<Rightarrow> push_partition_chunk lib p (label (pm_key m)) t | None \<Rightarrow> Inr (p, [])) = Inr (p1, out1)"
    and fin: "finish_partition lib p1 = Inr (p', out2)" and out: "out = map PackFile (out1 @ out2)"
    using close by (auto simp: close_partition_def Let_def rbind_eq_Inr)
  have first: "packs sch p (merger_held m) p1 out1"
    using tail push_partition_chunk_packs[OF inv tail_ok] packs_refl[OF inv]
    by (auto simp: merger_finish_rows[of m, symmetric] split: option.splits)
  have inv1: "packer_inv sch p1" using first by (simp add: packs_def)
  note closing = finish_partition_packs[OF inv1 fin]
  show "feeds sch p (map RowEv (merger_held m)) p' out"
    using feeds_packs[OF packs_trans[OF first closing(1)]] out by simp
  show "pk_open p' = None" using closing(2) .
qed

lemma bt_remove_spec:
  assumes "sorted_wrt (<) (map fst m)" "bt_remove k m = (r, m')"
  shows "sorted_wrt (<) (map fst m')" "set m' \<subseteq> set m" "k \<notin> fst ` set m'"
    and "\<forall>v. r = Some v \<longrightarrow> (k, v) \<in> set m"
    and "mset m = mset m' + (case r of None \<Rightarrow> {#} | Some v \<Rightarrow> {#(k, v)#})"
proof -
  have "sorted_wrt (<) (map fst m') \<and> set m' \<subseteq> set m \<and> k \<notin> fst ` set m' \<and>
    (\<forall>v. r = Some v \<longrightarrow> (k, v) \<in> set m) \<and> mset m = mset m' + (case r of None \<Rightarrow> {#} | Some v \<Rightarrow> {#(k, v)#})"
    using assms
  proof (induction m arbitrary: m')
    case (Cons e m)
    obtain k' v' where e: "e = (k', v')" by (cases e)
    show ?case
    proof (cases "k = k'")
      case True
      then show ?thesis using Cons.prems e by fastforce
    next
      case False
      obtain m1 where m1: "bt_remove k m = (r, m1)" "m' = (k', v') # m1"
        using Cons.prems(2) e False by (auto split: prod.splits)
      show ?thesis
        using Cons.IH[OF _ m1(1)] Cons.prems(1) m1(2) e False by (auto split: option.splits)
    qed
  qed simp
  then show "sorted_wrt (<) (map fst m')" "set m' \<subseteq> set m" "k \<notin> fst ` set m'"
    "\<forall>v. r = Some v \<longrightarrow> (k, v) \<in> set m"
    "mset m = mset m' + (case r of None \<Rightarrow> {#} | Some v \<Rightarrow> {#(k, v)#})" by auto
qed

lemma delta_rows_mset: "mset (delta_rows d) = sum_mset (image_mset (\<lambda>(k, b). mset (rows b)) (mset d))"
  by (induction d) (auto simp: delta_rows_def)

section \<open>The invariant of the driver\<close>

definition active_held :: "pack_state \<Rightarrow> row list" where
  "active_held st = (case ps_active st of None \<Rightarrow> [] | Some m \<Rightarrow> merger_held m)"

text \<open>After the events \<open>evs\<close>: they ascend, none lies above the last opened partition, and
  everything still pending lies strictly above it.\<close>

definition stream_inv :: "afield list \<Rightarrow> (row \<Rightarrow> partition_order_key) \<Rightarrow> (uuid \<Rightarrow> partition_order_key) \<Rightarrow>
    pack_state \<Rightarrow> event list \<Rightarrow> bool" where
  "stream_inv sch rk ck st evs =
     (packer_inv sch (ps_packer st) \<and> delta_exact sch rk (ps_delta st) \<and> carried_exact ck (ps_carried st) \<and>
      ascending rk ck evs \<and>
      (case ps_active st of
         None \<Rightarrow> pk_open (ps_packer st) = None
       | Some m \<Rightarrow> merger_ok sch m \<and> ps_last_completed st = Some (pm_key m) \<and>
                   (\<forall>r \<in> set (merger_held m). rk r = pm_key m)) \<and>
      (case ps_last_completed st of
         None \<Rightarrow> evs = [] \<and> ps_active st = None
       | Some k \<Rightarrow> (\<forall>e \<in> set evs. ev_key rk ck e \<le> k) \<and>
                   (\<forall>k' \<in> fst ` set (ps_carried st) \<union> fst ` set (ps_delta st). k < k')))"

definition advances :: "afield list \<Rightarrow> (row \<Rightarrow> partition_order_key) \<Rightarrow> (uuid \<Rightarrow> partition_order_key) \<Rightarrow>
    pack_state \<Rightarrow> event list \<Rightarrow> row list \<Rightarrow> pack_state \<Rightarrow> event list \<Rightarrow> pack_step list \<Rightarrow> bool" where
  "advances sch rk ck st evs consumed st' fed out =
     (feeds sch (ps_packer st) fed (ps_packer st') out \<and> stream_inv sch rk ck st' (evs @ fed) \<and>
      mset (ev_rows fed) + mset (active_held st') + mset (delta_rows (ps_delta st')) =
        mset (active_held st) + mset (delta_rows (ps_delta st)) + mset consumed \<and>
      ev_uuids fed @ carried_uuids (ps_carried st') = carried_uuids (ps_carried st))"

lemma advances_refl: "stream_inv sch rk ck st evs \<Longrightarrow> advances sch rk ck st evs [] st [] []"
  by (simp add: advances_def feeds_refl stream_inv_def)

lemma advances_trans:
  assumes "advances sch rk ck st evs c1 st1 fed1 out1" "advances sch rk ck st1 (evs @ fed1) c2 st2 fed2 out2"
  shows "advances sch rk ck st evs (c1 @ c2) st2 (fed1 @ fed2) (out1 @ out2)"
proof -
  have "feeds sch (ps_packer st) (fed1 @ fed2) (ps_packer st2) (out1 @ out2)"
    using assms feeds_trans unfolding advances_def by blast
  moreover have "mset (ev_rows (fed1 @ fed2)) + mset (active_held st2) + mset (delta_rows (ps_delta st2)) =
      mset (active_held st) + mset (delta_rows (ps_delta st)) + mset (c1 @ c2)"
    using assms unfolding advances_def by (simp add: add.assoc)
  moreover have "ev_uuids (fed1 @ fed2) @ carried_uuids (ps_carried st2) = carried_uuids (ps_carried st)"
    using assms by (simp add: advances_def)
  ultimately show ?thesis using assms(2) by (simp add: advances_def)
qed

text \<open>Closing the active partition.\<close>

lemma close_active:
  assumes inv: "stream_inv sch rk ck st evs"
    and close: "(case ps_active st of Some prev \<Rightarrow> close_partition lib (ps_packer st) prev
      | None \<Rightarrow> Inr (ps_packer st, [])) = Inr (p1, out)"
  shows "feeds sch (ps_packer st) (map RowEv (active_held st)) p1 out" "pk_open p1 = None"
    and "ascending rk ck (evs @ map RowEv (active_held st))"
    and "\<forall>k. ps_last_completed st = Some k \<longrightarrow> (\<forall>e \<in> set (evs @ map RowEv (active_held st)). ev_key rk ck e \<le> k)"
    and "ps_last_completed st = None \<Longrightarrow> evs @ map RowEv (active_held st) = []"
proof -
  have p: "packer_inv sch (ps_packer st)" using inv by (simp add: stream_inv_def)
  have "feeds sch (ps_packer st) (map RowEv (active_held st)) p1 out \<and> pk_open p1 = None \<and>
    ascending rk ck (evs @ map RowEv (active_held st)) \<and>
    (\<forall>k. ps_last_completed st = Some k \<longrightarrow> (\<forall>e \<in> set (evs @ map RowEv (active_held st)). ev_key rk ck e \<le> k)) \<and>
    (ps_last_completed st = None \<longrightarrow> evs @ map RowEv (active_held st) = [])"
  proof (cases "ps_active st")
    case None
    then show ?thesis
      using inv close feeds_refl[OF p] by (auto simp: stream_inv_def active_held_def split: option.splits)
  next
    case (Some m)
    then have m: "merger_ok sch m" "ps_last_completed st = Some (pm_key m)"
      "\<forall>r \<in> set (merger_held m). rk r = pm_key m" "\<forall>e \<in> set evs. ev_key rk ck e \<le> pm_key m" "ascending rk ck evs"
      using inv by (auto simp: stream_inv_def)
    have "close_partition lib (ps_packer st) m = Inr (p1, out)" using close Some by simp
    note closed = close_partition_feeds[OF p m(1) this]
    have "ascending rk ck (map RowEv (merger_held m))" using m(3) by (intro ascending_const[where k = "pm_key m"]) auto
    then show ?thesis using closed m Some by (auto simp: active_held_def ascending_append)
  qed
  then show "feeds sch (ps_packer st) (map RowEv (active_held st)) p1 out" "pk_open p1 = None"
    "ascending rk ck (evs @ map RowEv (active_held st))"
    "\<forall>k. ps_last_completed st = Some k \<longrightarrow> (\<forall>e \<in> set (evs @ map RowEv (active_held st)). ev_key rk ck e \<le> k)"
    "ps_last_completed st = None \<Longrightarrow> evs @ map RowEv (active_held st) = []" by auto
qed

text \<open>What is drained after closing the active partition lies above everything fed before.\<close>

lemma close_drain_ascending:
  assumes inv: "stream_inv sch rk ck st evs"
    and close: "(case ps_active st of Some prev \<Rightarrow> close_partition lib (ps_packer st) prev
      | None \<Rightarrow> Inr (ps_packer st, [])) = Inr (p1, out)"
    and dr: "drained sch rk ck bound p1 (ps_carried st) (ps_delta st) p2 c2 d2 out2 evs2"
  shows "ascending rk ck ((evs @ map RowEv (active_held st)) @ evs2)"
proof -
  note closed = close_active[OF inv close]
  have asc2: "ascending rk ck evs2" and keys2: "\<forall>e \<in> set evs2. ev_key rk ck e \<in>
      fst ` set (ps_carried st) \<union> fst ` set (ps_delta st)"
    using dr by (auto simp: drained_def)
  show ?thesis
  proof (cases "ps_last_completed st")
    case None
    then show ?thesis using closed(5) asc2 by simp
  next
    case (Some k)
    then have "\<forall>k' \<in> fst ` set (ps_carried st) \<union> fst ` set (ps_delta st). k < k'"
      using inv by (simp add: stream_inv_def)
    then have above: "k < ev_key rk ck e" if "e \<in> set evs2" for e using bspec[OF keys2 that] by blast
    have upto: "ev_key rk ck e \<le> k" if "e \<in> set (evs @ map RowEv (active_held st))" for e
      using closed(4) Some that by blast
    show ?thesis
      unfolding ascending_append[of rk ck "evs @ map RowEv (active_held st)"]
      using closed(3) asc2 le_less_trans[OF upto above] less_imp_le by blast
  qed
qed

lemma open_run_advances:
  assumes inv: "stream_inv sch rk ck st evs" and sound: "lexsort_sound (arrow lib)"
    and run: "open_run lib keys sch st current = Inr (st', out)"
  shows "\<exists>fed. advances sch rk ck st evs [] st' fed out"
    and "\<exists>m. ps_active st' = Some m \<and> pm_key m = current"
proof -
  have "(\<exists>fed. advances sch rk ck st evs [] st' fed out) \<and> (\<exists>m. ps_active st' = Some m \<and> pm_key m = current)"
  proof (cases "map_option pm_key (ps_active st) = Some current")
    case True
    then show ?thesis using run advances_refl[OF inv] by (auto simp: open_run_def)
  next
    case False
    then obtain p1 out1 last p2 c2 d2 out2 where
      close: "(case ps_active st of Some prev \<Rightarrow> close_partition lib (ps_packer st) prev
        | None \<Rightarrow> Inr (ps_packer st, [])) = Inr (p1, out1)"
      and check: "check_partition_order (ps_last_completed st) current = Inr last"
      and not_carried: "current \<notin> fst ` set (ps_carried st)"
      and drain: "drain_below lib p1 (ps_carried st) (ps_delta st) (Some current) keys = Inr (p2, c2, d2, out2)"
      using run by (auto simp: open_run_def rbind_eq_Inr split: if_splits)
    obtain removed d3 where rem: "bt_remove current d2 = (removed, d3)" by (cases "bt_remove current d2")
    obtain m where new: "merger_new lib current removed keys sch = Inr m"
      and st': "st' = \<lparr>ps_packer = p2, ps_carried = c2, ps_delta = d3, ps_active = Some m, ps_last_completed = last\<rparr>"
      and out: "out = out1 @ out2"
      using run unfolding open_run_def if_not_P[OF False] close
      by (auto simp: check not_carried drain rem rbind_eq_Inr)
    note closed = close_active[OF inv close]
    have exact: "delta_exact sch rk (ps_delta st)" "carried_exact ck (ps_carried st)"
      using inv by (auto simp: stream_inv_def)
    have inv1: "packer_inv sch p1" using closed(1) by (simp add: feeds_def)
    obtain evs2 where dr: "drained sch rk ck (Some current) p1 (ps_carried st) (ps_delta st) p2 c2 d2 out2 evs2"
      using drain_below_spec[OF drain inv1 closed(2) sound exact] by blast
    have last: "last = Some current" "\<forall>k. ps_last_completed st = Some k \<longrightarrow> k < current"
      using check by (auto simp: check_partition_order_def split: option.splits if_splits)
    have d2: "delta_exact sch rk d2" using dr by (simp add: drained_def)
    then have "sorted_wrt (<) (map fst d2)" by (simp add: delta_exact_def)
    note rm = bt_remove_spec[OF this rem]
    have d3: "delta_exact sch rk d3" using d2 rm(1,2) by (fastforce simp: delta_exact_def)
    have removed_ok: "batch_ok sch b" "\<forall>r \<in> set (rows b). rk r = current" if "removed = Some b" for b
      using rm(4) that d2 by (auto simp: delta_exact_def)
    note merger = merger_new_ok[OF sound new]
    have held: "mset (merger_held m) = mset (case removed of None \<Rightarrow> [] | Some d \<Rightarrow> rows d)" "merger_ok sch m"
      "pm_key m = current"
      using merger removed_ok by auto
    have held_key: "\<forall>r \<in> set (merger_held m). rk r = current"
      using mset_eq_setD[OF held(1)] removed_ok by (auto split: option.splits)
    have above: "\<forall>k \<in> fst ` set c2 \<union> fst ` set d3. current < k"
    proof
      fix k assume k: "k \<in> fst ` set c2 \<union> fst ` set d3"
      have pending: "\<forall>k \<in> fst ` set c2 \<union> fst ` set d2. \<not> in_bounds (Some current) k"
        and c2: "set c2 \<subseteq> set (ps_carried st)"
        using dr by (simp_all add: drained_def)
      have "k \<in> fst ` set c2 \<union> fst ` set d2" using k image_mono[OF rm(2), of fst] by blast
      then have "\<not> in_bounds (Some current) k" using pending by blast
      then have "current \<le> k" by (simp add: in_bounds_def)
      moreover have "k \<noteq> current" using k not_carried rm(3) image_mono[OF c2, of fst] by blast
      ultimately show "current < k" by simp
    qed
    let ?fed = "map RowEv (active_held st) @ evs2"
    have below: "\<forall>e \<in> set evs2. ev_key rk ck e < current \<and>
        ev_key rk ck e \<in> fst ` set (ps_carried st) \<union> fst ` set (ps_delta st)"
      using dr by (auto simp: drained_def in_bounds_def)
    have asc: "ascending rk ck (evs @ ?fed)"
      using close_drain_ascending[OF inv close dr] by simp
    have bound: "ev_key rk ck e \<le> current" if "e \<in> set (evs @ ?fed)" for e
    proof (cases "e \<in> set evs2")
      case True
      then show ?thesis using bspec[OF below True] by (simp add: less_imp_le)
    next
      case False
      then have e: "e \<in> set (evs @ map RowEv (active_held st))" using that by simp
      then obtain k where k: "ps_last_completed st = Some k" using closed(5) by (cases "ps_last_completed st") auto
      then have "ev_key rk ck e \<le> k" using closed(4) e by blast
      then show ?thesis using last(2) k by auto
    qed
    have "feeds sch (ps_packer st) ?fed p2 out"
      using feeds_trans[OF closed(1)] dr out by (simp add: drained_def)
    moreover have "stream_inv sch rk ck st' (evs @ ?fed)"
      using asc bound above d3 dr held(2,3) held_key last(1) st' by (simp add: stream_inv_def drained_def feeds_def)
    moreover have "mset (ev_rows ?fed) + mset (active_held st') + mset (delta_rows d3) =
        mset (active_held st) + mset (delta_rows (ps_delta st))"
    proof -
      have "mset (delta_rows d2) = mset (delta_rows d3) + mset (merger_held m)"
        unfolding delta_rows_mset rm(5) held(1) by (cases removed) simp_all
      moreover have "mset (ev_rows evs2) + mset (delta_rows d2) = mset (delta_rows (ps_delta st))"
        using dr by (simp add: drained_def)
      ultimately show ?thesis using st' by (simp add: active_held_def ac_simps)
    qed
    moreover have "ev_uuids ?fed @ carried_uuids c2 = carried_uuids (ps_carried st)"
      using dr by (simp add: drained_def)
    ultimately have "advances sch rk ck st evs [] st' ?fed out"
      using st' by (simp add: advances_def)
    then show ?thesis using st' held(3) by auto
  qed
  then show "\<exists>fed. advances sch rk ck st evs [] st' fed out"
    "\<exists>m. ps_active st' = Some m \<and> pm_key m = current" by auto
qed

text \<open>Feeding one run of rows of the partition \<open>current\<close>.\<close>

lemma feed_run_advances:
  assumes inv: "stream_inv sch rk ck st evs" and sound: "lexsort_sound (arrow lib)"
    and slice: "batch_ok sch slice" and keyed: "\<forall>r \<in> set (rows slice). rk r = current"
    and run: "feed_run lib keys st current slice = Inr (st', out)"
  shows "\<exists>fed. advances sch rk ck st evs (rows slice) st' fed out"
proof -
  have sch: "schema slice = sch" using slice by (simp add: batch_ok_def)
  obtain st1 out1 where opened: "open_run lib keys sch st current = Inr (st1, out1)"
    using run sch by (auto simp: feed_run_def rbind_eq_Inr)
  note op = open_run_advances[OF inv sound opened]
  obtain fed1 where adv1: "advances sch rk ck st evs [] st1 fed1 out1" using op(1) by blast
  obtain m where m: "ps_active st1 = Some m" "pm_key m = current" using op(2) by blast
  have inv1: "stream_inv sch rk ck st1 (evs @ fed1)" using adv1 by (simp add: advances_def)
  then have p1: "packer_inv sch (ps_packer st1)" and mok: "merger_ok sch m"
    and last: "ps_last_completed st1 = Some current" and mheld: "\<forall>r \<in> set (merger_held m). rk r = current"
    using m by (auto simp: stream_inv_def)
  have upto: "\<forall>e \<in> set (evs @ fed1). ev_key rk ck e \<le> current" and asc1: "ascending rk ck (evs @ fed1)"
    using inv1 last by (simp_all add: stream_inv_def)
  obtain m' merged where push: "push_prior m slice = Inr (m', merged)"
    using run sch opened m(1) by (auto simp: feed_run_def rbind_eq_Inr)
  note pushed = push_prior_ok[OF mok slice push]
  let ?rs = "case merged of None \<Rightarrow> [] | Some b \<Rightarrow> rows b"
  obtain p2 out2 where p2: "packs sch (ps_packer st1) ?rs p2 out2"
    and st': "st' = st1\<lparr>ps_packer := p2, ps_active := Some m'\<rparr>" and out: "out = out1 @ map PackFile out2"
  proof (cases merged)
    case None
    then have "st' = st1\<lparr>ps_packer := ps_packer st1, ps_active := Some m'\<rparr>" "out = out1 @ map PackFile []"
      using run sch opened m(1) push by (auto simp: feed_run_def)
    then show thesis using that[of "ps_packer st1" "[]"] packs_refl[OF p1] None by simp
  next
    case (Some b)
    then obtain p2 out2 where
      chunk: "push_partition_chunk lib (ps_packer st1) (label (pm_key m')) b = Inr (p2, out2)"
      and res: "st' = st1\<lparr>ps_packer := p2, ps_active := Some m'\<rparr>" "out = out1 @ map PackFile out2"
      using run sch opened m(1) push by (auto simp: feed_run_def rbind_eq_Inr)
    have "batch_ok sch b" using pushed(4) Some by simp
    from push_partition_chunk_packs[OF p1 this chunk] show thesis using that res Some by simp
  qed
  have set_eq: "set ?rs \<union> set (merger_held m') = set (rows slice) \<union> set (merger_held m)"
    using arg_cong[OF pushed(3), of set_mset] by simp
  then have rs_key: "\<forall>e \<in> set (map RowEv ?rs). ev_key rk ck e = current"
    and held_key: "\<forall>r \<in> set (merger_held m'). rk r = current"
    using keyed mheld by auto
  have fed2: "feeds sch (ps_packer st1) (map RowEv ?rs) p2 (map PackFile out2)" by (rule feeds_packs[OF p2])
  have asc2: "ascending rk ck ((evs @ fed1) @ map RowEv ?rs)"
    unfolding ascending_append[of rk ck "evs @ fed1"]
    using asc1 ascending_const[OF rs_key] upto rs_key by auto
  have upto2: "\<forall>e \<in> set ((evs @ fed1) @ map RowEv ?rs). ev_key rk ck e \<le> current"
    using upto rs_key by auto
  have "stream_inv sch rk ck st' ((evs @ fed1) @ map RowEv ?rs)"
    using inv1 asc2 upto2 pushed(1,2) held_key last m(2) fed2 st'
    by (simp add: stream_inv_def feeds_def)
  moreover have "mset ?rs + mset (active_held st') + mset (delta_rows (ps_delta st')) =
      mset (active_held st1) + mset (delta_rows (ps_delta st1)) + mset (rows slice)"
    using pushed(3) st' m(1) by (simp add: active_held_def ac_simps)
  ultimately have "advances sch rk ck st1 (evs @ fed1) (rows slice) st' (map RowEv ?rs) (map PackFile out2)"
    using fed2 st' by (simp add: advances_def)
  from advances_trans[OF adv1 this] out show ?thesis by auto
qed

section \<open>The whole stream\<close>

text \<open>The order key of a row of the schema \<open>sch\<close>, as the driver computes it.\<close>

definition row_key :: "pack_lib \<Rightarrow> partition_ordering \<Rightarrow> afield list \<Rightarrow> row \<Rightarrow> partition_order_key" where
  "row_key lib po sch r =
     (case rbind (resolve_keys Internal sch (po_keys po))
             (\<lambda>cols. row_order_key lib po cols \<lparr>schema = sch, rows = [r]\<rparr> 0) of
        Inr k \<Rightarrow> k
      | Inl _ \<Rightarrow> PartitionOrderKey None None)"

lemma row_order_key_row_key:
  assumes "schema b = sch" "resolve_keys e sch (po_keys po) = Inr cols" "row < num_rows b"
    and "row_order_key lib po cols b row = Inr k"
  shows "row_key lib po sch (rows b ! row) = k"
proof -
  have "row_order_key lib po cols \<lparr>schema = sch, rows = [rows b ! row]\<rparr> 0 = row_order_key lib po cols b row"
    using assms(1) by (simp add: row_order_key_def order_key_at_def)
  then show ?thesis
    using assms(4) resolve_keys_err[OF assms(2), of Internal] by (simp add: row_key_def)
qed

lemma slice_ok: "batch_ok sch b \<Longrightarrow> batch_ok sch (batch_slice b off len)"
  by (auto simp: batch_ok_def batch_slice_def wf_batch_def slice_rows_def dest!: in_set_takeD in_set_dropD)

lemma slice_keyed:
  assumes "\<forall>i. start \<le> i \<and> i < row \<and> i < num_rows b \<longrightarrow> rk (rows b ! i) = current"
  shows "\<forall>r \<in> set (rows (batch_slice b start (row - start))). rk r = current"
proof
  fix r assume "r \<in> set (rows (batch_slice b start (row - start)))"
  then obtain j where "j < row - start" "start + j < num_rows b" "r = rows b ! (start + j)"
    by (auto simp: batch_slice_def slice_rows_def in_set_conv_nth num_rows_def)
  then show "rk r = current" using assms by auto
qed

lemma run_loop_advances:
  assumes "run_loop lib po keys cols b [row..<Suc (num_rows b)] start current st = Inr (st', out)"
    and sound: "lexsort_sound (arrow lib)" and ok: "batch_ok sch b"
    and cols: "resolve_keys e sch (po_keys po) = Inr cols"
    and "stream_inv sch (row_key lib po sch) ck st evs" "start < row" "row \<le> num_rows b"
    and "\<forall>i. start \<le> i \<and> i < row \<and> i < num_rows b \<longrightarrow> row_key lib po sch (rows b ! i) = current"
  shows "\<exists>fed. advances sch (row_key lib po sch) ck st evs (drop start (rows b)) st' fed out"
  using assms
proof (induction "num_rows b - row" arbitrary: row start current st evs out)
  case 0
  then have row: "row = num_rows b" by simp
  then obtain out1 where fr: "feed_run lib keys st current (batch_slice b start (row - start)) = Inr (st', out1)"
    and out: "out = out1"
    using 0(2) by (auto simp: rbind_eq_Inr upt_conv_Cons)
  have "rows (batch_slice b start (row - start)) = drop start (rows b)"
    using row by (simp add: batch_slice_def slice_rows_def num_rows_def)
  then show ?case
    using feed_run_advances[OF 0(6) sound slice_ok[OF ok] slice_keyed[OF 0(9)] fr] out by simp
next
  case (Suc n)
  then have lt: "row < num_rows b" by simp
  have n: "n = num_rows b - Suc row" using Suc.hyps(2) by simp
  have upt: "[row..<Suc (num_rows b)] = row # [Suc row..<Suc (num_rows b)]"
    using lt by (simp only: upt_conv_Cons less_SucI)
  have sch: "schema b = sch" using ok by (simp add: batch_ok_def)
  obtain k where k: "row_order_key lib po cols b row = Inr k"
    using Suc.prems(1) lt unfolding upt by (auto simp: rbind_eq_Inr)
  note rk = row_order_key_row_key[OF sch cols lt k]
  show ?case
  proof (cases "k = current")
    case True
    have loop: "run_loop lib po keys cols b [Suc row..<Suc (num_rows b)] start current st = Inr (st', out)"
      using Suc.prems(1) lt k True unfolding upt by simp
    have "\<forall>i. start \<le> i \<and> i < Suc row \<and> i < num_rows b \<longrightarrow> row_key lib po sch (rows b ! i) = current"
      using Suc.prems(8) rk True less_Suc_eq by auto
    then show ?thesis using Suc.hyps(1)[OF n loop sound ok cols Suc.prems(5)] lt Suc.prems(6) by auto
  next
    case False
    then obtain st1 out1 out2 where
      fr: "feed_run lib keys st current (batch_slice b start (row - start)) = Inr (st1, out1)"
      and loop: "run_loop lib po keys cols b [Suc row..<Suc (num_rows b)] row k st1 = Inr (st', out2)"
      and out: "out = out1 @ out2"
      using Suc.prems(1) lt k unfolding upt by (auto simp: rbind_eq_Inr)
    obtain fed1 where adv1: "advances sch (row_key lib po sch) ck st evs
        (rows (batch_slice b start (row - start))) st1 fed1 out1"
      using feed_run_advances[OF Suc.prems(5) sound slice_ok[OF ok] slice_keyed[OF Suc.prems(8)] fr] by blast
    have inv1: "stream_inv sch (row_key lib po sch) ck st1 (evs @ fed1)"
      using adv1 by (simp add: advances_def)
    have "\<forall>i. row \<le> i \<and> i < Suc row \<and> i < num_rows b \<longrightarrow> row_key lib po sch (rows b ! i) = k"
      using rk le_less_Suc_eq by auto
    then obtain fed2 where adv2: "advances sch (row_key lib po sch) ck st1 (evs @ fed1) (drop row (rows b)) st' fed2 out2"
      using Suc.hyps(1)[OF n loop sound ok cols inv1] lt by auto
    have "rows (batch_slice b start (row - start)) @ drop row (rows b) = drop start (rows b)"
      using Suc.prems(6) append_take_drop_id[of "row - start" "drop start (rows b)"]
      by (simp add: batch_slice_def slice_rows_def)
    then show ?thesis using advances_trans[OF adv1 adv2] out by auto
  qed
qed

lemma feed_batch_advances:
  assumes run: "feed_batch lib po keys st b = Inr (st', out)" and sound: "lexsort_sound (arrow lib)"
    and ok: "batch_ok sch b" and inv: "stream_inv sch (row_key lib po sch) ck st evs"
  shows "\<exists>fed. advances sch (row_key lib po sch) ck st evs (rows b) st' fed out"
proof (cases "num_rows b = 0")
  case True
  then show ?thesis using run advances_refl[OF inv] by (auto simp: feed_batch_def num_rows_def)
next
  case False
  have sch: "schema b = sch" using ok by (simp add: batch_ok_def)
  obtain cols k where
    cols: "resolve_keys (\<lambda>key. InvalidRequest (''partition key '' @ key @ '' not in snapshot stream schema''))
      sch (po_keys po) = Inr cols"
    and k: "row_order_key lib po cols b 0 = Inr k"
    and loop: "run_loop lib po keys cols b [1..<Suc (num_rows b)] 0 k st = Inr (st', out)"
    using run False sch by (auto simp: feed_batch_def rbind_eq_Inr)
  have pos: "0 < num_rows b" using False by simp
  have "\<forall>i. 0 \<le> i \<and> i < 1 \<and> i < num_rows b \<longrightarrow> row_key lib po sch (rows b ! i) = k"
    using row_order_key_row_key[OF sch cols pos k] by simp
  then show ?thesis using run_loop_advances[OF loop sound ok cols inv] pos by simp
qed

lemma feed_stream_advances:
  assumes "feed_stream lib po keys st (map Inr bs) = Inr (st', out)" and sound: "lexsort_sound (arrow lib)"
    and "\<forall>b \<in> set bs. batch_ok sch b" "stream_inv sch (row_key lib po sch) ck st evs"
  shows "\<exists>fed. advances sch (row_key lib po sch) ck st evs (concat (map rows bs)) st' fed out"
  using assms
proof (induction bs arbitrary: st evs out)
  case Nil
  then show ?case using advances_refl by fastforce
next
  case (Cons b bs)
  obtain st1 out1 out2 where fb: "feed_batch lib po keys st b = Inr (st1, out1)"
    and fs: "feed_stream lib po keys st1 (map Inr bs) = Inr (st', out2)" and out: "out = out1 @ out2"
    using Cons.prems(1) by (auto simp: rbind_eq_Inr)
  have ok: "batch_ok sch b" "\<forall>b \<in> set bs. batch_ok sch b" using Cons.prems(3) by auto
  obtain fed1 where adv1: "advances sch (row_key lib po sch) ck st evs (rows b) st1 fed1 out1"
    using feed_batch_advances[OF fb sound ok(1) Cons.prems(4)] by blast
  then have "stream_inv sch (row_key lib po sch) ck st1 (evs @ fed1)" by (simp add: advances_def)
  from Cons.IH[OF fs sound ok(2) this] obtain fed2 where
    "advances sch (row_key lib po sch) ck st1 (evs @ fed1) (concat (map rows bs)) st' fed2 out2" by blast
  from advances_trans[OF adv1 this] show ?case using out by auto
qed

lemma bt_insert_spec:
  assumes "sorted_wrt (<) (map fst m)" "k \<notin> fst ` set m"
  shows "sorted_wrt (<) (map fst (bt_insert k v m)) \<and> mset (bt_insert k v m) = add_mset (k, v) (mset m)"
  using assms
proof (induction k v m rule: bt_insert.induct)
  case (2 k v k' v' m)
  show ?case
  proof (cases "k < k'")
    case True
    then show ?thesis using 2(2) by (auto intro: less_trans)
  next
    case False
    then have lt: "k' < k" using 2(3) by auto
    have ih: "sorted_wrt (<) (map fst (bt_insert k v m))" "mset (bt_insert k v m) = add_mset (k, v) (mset m)"
      using 2 False lt by auto
    have "set (bt_insert k v m) = insert (k, v) (set m)" using arg_cong[OF ih(2), of set_mset] by simp
    then show ?thesis using ih 2(2) lt by auto
  qed
qed simp

text \<open>A delta group is exact when all its rows have the order key the driver files the
  group under.\<close>

definition groups_exact :: "pack_lib \<Rightarrow> partition_ordering \<Rightarrow> afield list \<Rightarrow>
    (string option \<times> record_batch) list \<Rightarrow> bool" where
  "groups_exact lib po sch groups =
     (distinct (map fst groups) \<and>
      (\<forall>(lbl, b) \<in> set groups. batch_ok sch b \<and>
         (\<forall>r \<in> set (rows b). batch_order_key po b lbl = Inr (row_key lib po sch r))))"

lemma batch_order_key_label: "batch_order_key po b lbl = Inr k \<Longrightarrow> label k = lbl"
  by (auto simp: batch_order_key_def order_key_at_def order_key_from_key_arrays_def rbind_eq_Inr
      split: if_splits option.splits)

lemma rekey_delta_spec:
  assumes "rekey_delta po groups delta = Inr delta'" "groups_exact lib po sch groups"
    and "delta_exact sch (row_key lib po sch) delta" "\<forall>k \<in> fst ` set delta. label k \<notin> fst ` set groups"
  shows "delta_exact sch (row_key lib po sch) delta' \<and>
    mset (delta_rows delta') = mset (delta_rows delta) + mset (concat (map (\<lambda>(l, b). rows b) groups))"
  using assms
proof (induction groups arbitrary: delta)
  case (Cons g groups)
  obtain lbl b where g: "g = (lbl, b)" by (cases g)
  have rest: "groups_exact lib po sch groups" "batch_ok sch b" "lbl \<notin> fst ` set groups"
    "\<forall>r \<in> set (rows b). batch_order_key po b lbl = Inr (row_key lib po sch r)"
    using Cons.prems(2) g by (auto simp: groups_exact_def)
  show ?case
  proof (cases "num_rows b = 0")
    case True
    then show ?thesis using Cons.IH[OF _ rest(1) Cons.prems(3)] Cons.prems(1,4) g by (simp add: num_rows_def)
  next
    case False
    then obtain k where k: "batch_order_key po b lbl = Inr k"
      and run: "rekey_delta po groups (bt_insert k b delta) = Inr delta'"
      using Cons.prems(1) g by (auto simp: rbind_eq_Inr)
    have lk: "label k = lbl" by (rule batch_order_key_label[OF k])
    have fresh: "k \<notin> fst ` set delta" using Cons.prems(4) lk g by auto
    have "sorted_wrt (<) (map fst delta)" using Cons.prems(3) by (simp add: delta_exact_def)
    note ins = bt_insert_spec[OF this fresh, of b]
    have set: "set (bt_insert k b delta) = insert (k, b) (set delta)"
      using arg_cong[OF conjunct2[OF ins], of set_mset] by simp
    have keyed: "\<forall>r \<in> set (rows b). row_key lib po sch r = k" using rest(4) k by simp
    have "delta_exact sch (row_key lib po sch) (bt_insert k b delta)"
      using ins Cons.prems(3) rest(2) keyed unfolding delta_exact_def set by simp
    moreover have "\<forall>k' \<in> fst ` set (bt_insert k b delta). label k' \<notin> fst ` set groups"
      using Cons.prems(4) lk rest(3) g unfolding set by auto
    moreover have "mset (delta_rows (bt_insert k b delta)) = mset (rows b) + mset (delta_rows delta)"
      unfolding delta_rows_mset conjunct2[OF ins] by simp
    ultimately show ?thesis using Cons.IH[OF run rest(1)] g by simp
  qed
qed simp

text \<open>C9: a snapshot file set built from the prior snapshot's rows, the delta groups and
  the carried partitions is complete and in order.  Every row of the stream and of the
  groups is written exactly once, every carried segment is referenced exactly once and in the
  given order, the chunk indices are \<open>0, 1, 2, \<dots>\<close> without a gap, the typed partition
  keys never decrease along the files, and each file is tiled by its segment rows within the
  byte cap.  The delta groups are exact, that is, uniform in the partition key.\<close>

theorem pack_stream_correct:
  assumes sound: "lexsort_sound (arrow lib)" and ok: "\<forall>b \<in> set bs. batch_ok sch b"
    and groups: "groups_exact lib po sch groups" and carried: "carried_exact ck carried"
    and run: "pack_merged_partition_stream lib groups (map Inr bs) po keys carried
      (packer_new snap cat br base fmt cap) = Inr steps"
  shows "mset (ev_rows (step_events steps)) =
      mset (concat (map rows bs)) + mset (concat (map (\<lambda>(l, b). rows b) groups)) \<and>
    ev_uuids (step_events steps) = concat (map snd carried) \<and>
    all_idxs steps = [0..<length (all_idxs steps)] \<and>
    ascending (row_key lib po sch) ck (step_events steps) \<and>
    list_all (step_ok sch cap) steps"
proof -
  let ?p0 = "packer_new snap cat br base fmt cap" and ?rk = "row_key lib po sch"
  have p0: "packer_inv sch ?p0" "packer_rows ?p0 = []" "pk_chunk_idx ?p0 = 0" "pk_open ?p0 = None"
    "pk_max_segment_bytes ?p0 = cap"
    by (simp_all add: packer_new_def packer_inv_def buffer_inv_def packer_rows_def buffered_rows_def open_rows_def)
  obtain delta where rekey: "rekey_delta po groups [] = Inr delta"
    using run by (auto simp: pack_merged_partition_stream_def rbind_eq_Inr)
  let ?st0 = "\<lparr>ps_packer = ?p0, ps_carried = carried, ps_delta = delta, ps_active = None, ps_last_completed = None\<rparr>"
  obtain st out1 p2 out2 p3 c3 d3 out3 out4 where
    feed: "feed_stream lib po keys ?st0 (map Inr bs) = Inr (st, out1)"
    and close: "(case ps_active st of Some prev \<Rightarrow> close_partition lib (ps_packer st) prev
      | None \<Rightarrow> Inr (ps_packer st, [])) = Inr (p2, out2)"
    and drain: "drain_below lib p2 (ps_carried st) (ps_delta st) None keys = Inr (p3, c3, d3, out3)"
    and fin: "packer_finish lib p3 = Inr out4" and steps: "steps = out1 @ out2 @ out3 @ map PackFile out4"
    using run rekey by (auto simp: pack_merged_partition_stream_def rbind_eq_Inr)
  have delta: "delta_exact sch ?rk delta" "mset (delta_rows delta) = mset (concat (map (\<lambda>(l, b). rows b) groups))"
    using rekey_delta_spec[OF rekey groups] by (auto simp: delta_exact_def delta_rows_def)
  have "stream_inv sch ?rk ck ?st0 []"
    using p0 delta(1) carried by (simp add: stream_inv_def ascending_def)
  from feed_stream_advances[OF feed sound ok this] obtain fed1 where
    adv: "advances sch ?rk ck ?st0 [] (concat (map rows bs)) st fed1 out1" by blast
  then have inv: "stream_inv sch ?rk ck st fed1" by (simp add: advances_def)
  note closed = close_active[OF inv close]
  have inv2: "packer_inv sch p2" using closed(1) by (simp add: feeds_def)
  have exact: "delta_exact sch ?rk (ps_delta st)" "carried_exact ck (ps_carried st)"
    using inv by (auto simp: stream_inv_def)
  obtain fed3 where dr: "drained sch ?rk ck None p2 (ps_carried st) (ps_delta st) p3 c3 d3 out3 fed3"
    using drain_below_spec[OF drain inv2 closed(2) sound exact] by blast
  have "\<forall>k \<in> fst ` set c3 \<union> fst ` set d3. \<not> in_bounds None k" using dr unfolding drained_def by (elim conjE)
  from unbounded_drains_all[OF this] have empty: "c3 = []" "d3 = []" by simp_all
  have inv3: "packer_inv sch p3" "pk_open p3 = None" using dr by (auto simp: drained_def feeds_def)
  obtain p4 where fl: "flush lib p3 = Inr (p4, out4)"
    using fin by (auto simp: packer_finish_def rbind_eq_Inr)
  note last = flush_packs[OF inv3(1) fl]
  have "packer_rows p4 = []" using last(2,3) inv3(2) by (simp add: packer_rows_def open_rows_def)
  let ?evs = "fed1 @ map RowEv (active_held st) @ fed3"
  have "feeds sch ?p0 fed1 (ps_packer st) out1" using adv by (simp add: advances_def)
  from feeds_trans[OF this closed(1)]
  have "feeds sch ?p0 (fed1 @ map RowEv (active_held st)) p2 (out1 @ out2)" .
  moreover have "feeds sch p2 fed3 p3 out3" using dr by (simp add: drained_def)
  ultimately have "feeds sch ?p0 ((fed1 @ map RowEv (active_held st)) @ fed3) p3 ((out1 @ out2) @ out3)"
    by (rule feeds_trans)
  from feeds_trans[OF this feeds_packs[OF last(1)]]
  have all: "feeds sch ?p0 ?evs p4 steps" unfolding steps by simp
  then have evs: "step_events steps = ?evs" and "all_idxs steps = [0..<pk_chunk_idx p4]"
    and oks: "list_all (step_ok sch cap) steps"
    using p0 \<open>packer_rows p4 = []\<close> by (auto simp: feeds_def)
  then have idxs: "all_idxs steps = [0..<length (all_idxs steps)]" by simp
  have asc: "ascending ?rk ck (step_events steps)" using close_drain_ascending[OF inv close dr] evs by simp
  have uuids: "ev_uuids (step_events steps) = concat (map snd carried)"
    using adv dr evs empty by (simp add: advances_def drained_def carried_uuids_def)
  have m1: "mset (ev_rows fed1) + mset (active_held st) + mset (delta_rows (ps_delta st)) =
      mset (delta_rows delta) + mset (concat (map rows bs))"
    using adv by (simp add: advances_def active_held_def)
  have m2: "mset (ev_rows fed3) = mset (delta_rows (ps_delta st))"
    using dr empty by (simp add: drained_def delta_rows_def)
  have "mset (ev_rows (step_events steps)) = mset (concat (map rows bs)) + mset (concat (map (\<lambda>(l, b). rows b) groups))"
    using m1 m2 delta(2) evs by (simp add: ac_simps)
  then show ?thesis using uuids idxs asc oks by blast
qed

definition sample_ordering :: partition_ordering where
  "sample_ordering = \<lparr>po_keys = [''id''], po_converter = Some (\<lambda>cs. Inr (sample_enc cs))\<rparr>"

definition sample_order_key :: "int \<Rightarrow> partition_order_key" where
  "sample_order_key i = PartitionOrderKey (Some (sample_enc [Cell True (VInt i)])) (Some (show_int i))"

definition sample_carried :: carried_map where
  "sample_carried = [(sample_order_key 2, [''u'', ''v''])]"

definition sample_groups :: "(string option \<times> record_batch) list" where
  "sample_groups = [(Some (show_int 3), sample_rows [3, 3]), (Some (show_int 1), sample_rows [1])]"

lemma sample_stream_ok:
  "is_ok (pack_merged_partition_stream sample_lib sample_groups (map Inr [sample_rows [1, 1], sample_rows [1, 4]])
     sample_ordering [''id''] sample_carried sample_packer)"
  by code_simp

lemma sample_row_key: "row_key sample_lib sample_ordering sample_schema [Cell True (VInt i)] = sample_order_key i"
  by (simp add: row_key_def row_order_key_def sample_ordering_def sample_schema_def sample_order_key_def
      resolve_keys_def index_of_def order_key_at_def order_key_from_key_arrays_def partition_label_def sample_lib_def
      key_cells_def key_types_def)

lemma sample_groups_exact: "groups_exact sample_lib sample_ordering sample_schema sample_groups"
proof -
  have "distinct (map fst sample_groups)" by code_simp
  moreover have "batch_order_key sample_ordering (sample_rows (i # js)) (Some (show_int i)) = Inr (sample_order_key i)" for i js
    by (simp add: batch_order_key_def sample_ordering_def sample_rows_def sample_schema_def sample_order_key_def
      resolve_keys_def index_of_def order_key_at_def order_key_from_key_arrays_def key_cells_def)
  ultimately show ?thesis
    by (auto simp: groups_exact_def sample_groups_def sample_rows_ok)
       (auto simp: sample_rows_def sample_row_key)
qed

theorem pack_stream_correct_witness:
  "\<exists>steps. pack_merged_partition_stream sample_lib sample_groups (map Inr [sample_rows [1, 1], sample_rows [1, 4]])
      sample_ordering [''id''] sample_carried (packer_new ''s'' ''c'' ''b'' ''base'' ''parquet'' 20) = Inr steps \<and>
    ev_uuids (step_events steps) = [''u'', ''v''] \<and>
    ascending (row_key sample_lib sample_ordering sample_schema) (\<lambda>u. sample_order_key 2) (step_events steps)"
proof -
  let ?bs = "[sample_rows [1, 1], sample_rows [1, 4]]"
  obtain steps where run: "pack_merged_partition_stream sample_lib sample_groups (map Inr ?bs)
      sample_ordering [''id''] sample_carried (packer_new ''s'' ''c'' ''b'' ''base'' ''parquet'' 20) = Inr steps"
    using sample_stream_ok unfolding sample_packer_def is_ok_iff by blast
  have ok: "\<forall>b \<in> set ?bs. batch_ok sample_schema b" by (simp add: sample_rows_ok)
  have carried: "carried_exact (\<lambda>u. sample_order_key 2) sample_carried"
    by (simp add: carried_exact_def sample_carried_def)
  show ?thesis
    using pack_stream_correct[OF sample_lexsort_sound ok sample_groups_exact carried run] run
    by (auto simp: sample_carried_def)
qed

end
