(* ===== verification/Cold_Files.thy ===== *)
theory Cold_Files
  imports Batch_Util
begin

text \<open>
  Cold segment files: the storage formats (\<open>penca-core/src/format.rs\<close>), the schema shaping and
  the Parquet reader and writer (\<open>penca-format/src/reader\<close>, \<open>penca-format/src/writer\<close>) and the
  client that streams persist segments (\<open>penca-storage-cold/src/lib.rs\<close>).  An object store maps
  the URI of a file to the batch the encoder was given; the Parquet codec and the store itself
  are not part of the repository, and the store's failures are a parameter.
\<close>

section \<open>Formats\<close>

datatype format = Lance | Parquet

fun extension :: "format \<Rightarrow> string" where
  "extension Lance = ''lance''"
| "extension Parquet = ''parquet''"

fun as_wire_code :: "format \<Rightarrow> int" where
  "as_wire_code Lance = 1"
| "as_wire_code Parquet = 2"

definition format_from_str :: "string \<Rightarrow> string + format" where
  "format_from_str s =
     (if s = ''lance'' then Inr Lance else if s = ''parquet'' then Inr Parquet else Inl s)"

section \<open>Shaping a decoded batch to a schema\<close>

definition empty_batch :: "afield list \<Rightarrow> record_batch" where
  "empty_batch sch = \<lparr>schema = sch, rows = []\<rparr>"

definition project_schema :: "afield list \<Rightarrow> string list option \<Rightarrow> afield list result" where
  "project_schema sch projection =
     (case projection of
        None \<Rightarrow> Inr sch
      | Some names \<Rightarrow>
          rbind (resolve_keys (\<lambda>name. FormatErr (''projection column not in schema: '' @ name)) sch names)
            (\<lambda>indices. Inr (map (\<lambda>i. sch ! i) indices)))"

text \<open>A slot of Arrow's \<open>new_null_array\<close>.\<close>

fun null_cell :: "data_type \<Rightarrow> cell" where
  "null_cell (DtList _) = Cell False (VItems [])"
| "null_cell (DtLargeList _) = Cell False (VItems [])"
| "null_cell (DtFixedSizeList (AField n t b) len) = Cell False (VItems (replicate (nat len) (null_cell t)))"
| "null_cell t =
     Cell False (if t \<in> {DtUtf8, DtLargeUtf8, DtUtf8View, DtBinary, DtLargeBinary, DtBinaryView}
                 then VBytes [] else VInt 0)"

text \<open>\<open>RecordBatch::try_new\<close>: the columns must have the schema's types, one common length, and
  no nulls where the field forbids them; without columns the row count is unknown.\<close>

definition try_new :: "afield list \<Rightarrow> (data_type \<times> cell list) list \<Rightarrow> record_batch result" where
  "try_new sch cols =
     (case cols of
        [] \<Rightarrow> Inl (ArrowErr ''must either specify a row count or at least one column'')
      | (_, c0) # _ \<Rightarrow>
          if length cols \<noteq> length sch then Inl (ArrowErr ''number of columns must match number of fields'')
          else if map fst cols \<noteq> map field_type sch
          then Inl (ArrowErr ''column types must match schema types'')
          else if \<not> list_all (\<lambda>c. length (snd c) = length c0) cols
          then Inl (ArrowErr ''all columns in a record batch must have the same length'')
          else if \<not> list_all (\<lambda>(f, c). field_nullable f \<or> list_all cell_valid (snd c)) (zip sch cols)
          then Inl (ArrowErr ''non-nullable column contains null values'')
          else Inr \<lparr>schema = sch, rows = map (\<lambda>i. map (\<lambda>c. snd c ! i) cols) [0..<length c0]\<rparr>)"

definition fill_column :: "record_batch \<Rightarrow> afield \<Rightarrow> (data_type \<times> cell list) result" where
  "fill_column b f =
     (case index_of (schema b) (field_name f) of
        Some idx \<Rightarrow> Inr (field_type (schema b ! idx), map (\<lambda>r. r ! idx) (rows b))
      | None \<Rightarrow>
          if field_nullable f then Inr (field_type f, replicate (num_rows b) (null_cell (field_type f)))
          else Inl (FormatErr (''column '' @ field_name f @ '' absent from segment and not nullable'')))"

definition null_fill_to_schema :: "record_batch \<Rightarrow> afield list \<Rightarrow> record_batch result" where
  "null_fill_to_schema b output_schema =
     (if schema b = output_schema then Inr b
      else rbind (rmap (fill_column b) output_schema) (\<lambda>cols. try_new output_schema cols))"

definition shape_to_schema :: "record_batch \<Rightarrow> afield list \<Rightarrow> string list option \<Rightarrow> record_batch result" where
  "shape_to_schema b sch projection =
     rbind (project_schema sch projection) (\<lambda>out. null_fill_to_schema b out)"

definition requested_columns :: "afield list \<Rightarrow> string list option \<Rightarrow> string list" where
  "requested_columns sch projection =
     (case projection of Some cols \<Rightarrow> cols | None \<Rightarrow> map field_name sch)"

definition present_columns :: "afield list \<Rightarrow> string list \<Rightarrow> string list" where
  "present_columns file_schema names = filter (\<lambda>name. index_of file_schema name \<noteq> None) names"

section \<open>Object store and Parquet files\<close>

text \<open>The failures of the store: a message per URI the call fails on.\<close>

record store_faults =
  get_fault :: "string \<Rightarrow> string option"
  put_fault :: "string \<Rightarrow> string option"
  delete_fault :: "string \<Rightarrow> string option"

type_synonym file_store = "string \<Rightarrow> record_batch option"

definition no_faults :: store_faults where
  "no_faults = \<lparr>get_fault = (\<lambda>_. None), put_fault = (\<lambda>_. None), delete_fault = (\<lambda>_. None)\<rparr>"

definition usize_of :: "int \<Rightarrow> nat" where
  "usize_of i = nat (i mod 2 ^ 64)"

text \<open>Rows picked by \<open>slice_selection\<close>: skip \<open>offset\<close> rows, select \<open>length\<close>.\<close>

definition slice_selection :: "int \<Rightarrow> int \<Rightarrow> 'a list \<Rightarrow> 'a list" where
  "slice_selection off len xs = slice_rows (usize_of off) (usize_of len) xs"

definition selected_rows :: "int option \<Rightarrow> int option \<Rightarrow> 'a list \<Rightarrow> 'a list" where
  "selected_rows off len xs =
     (case (off, len) of (Some o', Some l) \<Rightarrow> slice_selection o' l xs | _ \<Rightarrow> xs)"

text \<open>A projection mask selects columns in file order; when the selection has no row the
  stream has no batch, and the empty batch has the columns in the requested order.\<close>

definition read_in_file_schema :: "store_faults \<Rightarrow> file_store \<Rightarrow> string \<Rightarrow> int option \<Rightarrow> int option \<Rightarrow>
    string list option \<Rightarrow> record_batch result" where
  "read_in_file_schema faults store uri off len projection =
     (case get_fault faults uri of
        Some e \<Rightarrow> Inl (FormatErr e)
      | None \<Rightarrow>
          (case store uri of
             None \<Rightarrow> Inl (FormatErr (''object not found: '' @ uri))
           | Some file \<Rightarrow>
               rbind (case projection of
                        Some names \<Rightarrow>
                          let present_names = present_columns (schema file) names in
                          rbind (project_schema (schema file) (Some present_names)) (\<lambda>read_schema.
                          Inr (read_schema, project file
                                 (filter (\<lambda>i. field_name (schema file ! i) \<in> set present_names) [0..<length (schema file)])))
                      | None \<Rightarrow> Inr (schema file, file)) (\<lambda>(read_schema, masked).
               let picked = selected_rows off len (rows masked) in
               Inr (if picked = [] then empty_batch read_schema else masked\<lparr>rows := picked\<rparr>))))"

definition read_segment :: "store_faults \<Rightarrow> file_store \<Rightarrow> string \<Rightarrow> int option \<Rightarrow> int option \<Rightarrow> afield list \<Rightarrow>
    string list option \<Rightarrow> record_batch result" where
  "read_segment faults store uri off len sch projection =
     rbind (read_in_file_schema faults store uri off len (Some (requested_columns sch projection))) (\<lambda>present.
     shape_to_schema present sch projection)"

definition read_segment_native :: "store_faults \<Rightarrow> file_store \<Rightarrow> string \<Rightarrow> int option \<Rightarrow> int option \<Rightarrow>
    record_batch result" where
  "read_segment_native faults store uri off len = read_in_file_schema faults store uri off len None"

definition write_file :: "store_faults \<Rightarrow> file_store \<Rightarrow> string \<Rightarrow> record_batch \<Rightarrow> (file_store \<times> nat) result" where
  "write_file faults store uri batch =
     (case put_fault faults uri of
        Some e \<Rightarrow> Inl (FormatErr e)
      | None \<Rightarrow> Inr (store(uri \<mapsto> batch), num_rows batch))"

definition delete_with_missing_ok :: "store_faults \<Rightarrow> file_store \<Rightarrow> string \<Rightarrow> bool \<Rightarrow> file_store result" where
  "delete_with_missing_ok faults store path missing_ok =
     (case delete_fault faults path of
        Some e \<Rightarrow> Inl (FormatErr e)
      | None \<Rightarrow>
          (case store path of
             Some _ \<Rightarrow> Inr (store(path := None))
           | None \<Rightarrow> if missing_ok then Inr store else Inl (FormatErr (''object not found: '' @ path))))"

section \<open>The cold storage client\<close>

record persist_segment =
  seg_uuid :: string
  seg_uri :: string
  seg_format :: format
  seg_row_count :: int
  seg_size_bytes :: int
  seg_metadata_json :: string
  seg_statistics :: string
  seg_offset :: "int option"
  seg_length :: "int option"
  seg_max_commit_seq_num :: "int option"
  seg_content_hash :: string

type_synonym format_reader =
  "string \<Rightarrow> int option \<Rightarrow> int option \<Rightarrow> afield list \<Rightarrow> string list option \<Rightarrow> record_batch result"

definition COMMIT_SEQ_NUM_COLUMN :: string where
  "COMMIT_SEQ_NUM_COLUMN = ''commit_seq_num''"

definition within_ceiling :: "int \<Rightarrow> cell \<Rightarrow> bool" where
  "within_ceiling ceiling c =
     (cell_valid c \<and> (case cell_data c of VInt s \<Rightarrow> s \<le> ceiling | _ \<Rightarrow> False))"

definition apply_segment_seq_ceiling :: "record_batch \<Rightarrow> persist_segment \<Rightarrow> record_batch result" where
  "apply_segment_seq_ceiling b seg =
     (case seg_max_commit_seq_num seg of
        None \<Rightarrow> Inr b
      | Some ceiling \<Rightarrow>
          (case index_of (schema b) COMMIT_SEQ_NUM_COLUMN of
             None \<Rightarrow> Inl (ArrowErr (''persist segment '' @ seg_uuid seg @
                       '' carries a commit_seq_num ceiling but the batch has no commit_seq_num column to apply it to''))
           | Some idx \<Rightarrow>
               if field_type (schema b ! idx) \<noteq> DtInt64 then Inl (ArrowErr ''commit_seq_num is not Int64'')
               else Inr (b\<lparr>rows := filter (\<lambda>r. within_ceiling ceiling (r ! idx)) (rows b)\<rparr>)))"

definition read_one_persist_segment :: "format_reader \<Rightarrow> persist_segment \<Rightarrow> afield list \<Rightarrow> string list option \<Rightarrow>
    record_batch result" where
  "read_one_persist_segment reader seg sch projection =
     reader (seg_uri seg) (seg_offset seg) (seg_length seg) sch projection"

definition reader_for :: "(int \<Rightarrow> format_reader option) \<Rightarrow> persist_segment \<Rightarrow> format_reader result" where
  "reader_for readers seg =
     (case readers (as_wire_code (seg_format seg)) of
        None \<Rightarrow> Inl (ColdStorageErr ''no reader registered for storage format'')
      | Some reader \<Rightarrow> Inr reader)"

definition non_empty_or :: "afield list \<Rightarrow> record_batch list \<Rightarrow> record_batch list" where
  "non_empty_or sch bs =
     (let out = filter (\<lambda>b. num_rows b > 0) bs in if out = [] then [empty_batch sch] else out)"

definition read_persist_segments :: "(int \<Rightarrow> format_reader option) \<Rightarrow> persist_segment list \<Rightarrow> afield list \<Rightarrow>
    string list option \<Rightarrow> record_batch list result" where
  "read_persist_segments readers segments sch projection =
     rbind (rmap (\<lambda>seg. rbind (reader_for readers seg) (\<lambda>reader.
              read_one_persist_segment reader seg sch projection)) segments)
       (\<lambda>bs. Inr (non_empty_or sch bs))"

definition read_persist_segments_bounded :: "(int \<Rightarrow> format_reader option) \<Rightarrow> persist_segment list \<Rightarrow> afield list \<Rightarrow>
    string list option \<Rightarrow> record_batch list result" where
  "read_persist_segments_bounded readers segments sch projection =
     rbind (rmap (\<lambda>seg. rbind (reader_for readers seg) (\<lambda>reader.
              rbind (read_one_persist_segment reader seg sch projection) (\<lambda>b.
              apply_segment_seq_ceiling b seg))) segments)
       (\<lambda>bs. Inr (non_empty_or sch bs))"

definition write_cold_file :: "store_faults \<Rightarrow> file_store \<Rightarrow> string \<Rightarrow> record_batch \<Rightarrow> (file_store \<times> nat) result" where
  "write_cold_file faults store uri batch = write_file faults store uri batch"

definition delete_segment :: "store_faults \<Rightarrow> file_store \<Rightarrow> string \<Rightarrow> bool \<Rightarrow> file_store result" where
  "delete_segment faults store uri missing_ok = delete_with_missing_ok faults store uri missing_ok"

section \<open>Columns by name\<close>

text \<open>The batches the encoder accepts: rows of the schema's width, distinct column names and
  no nulls in a column whose field forbids them.\<close>

definition valid_batch :: "record_batch \<Rightarrow> bool" where
  "valid_batch b =
     (wf_batch b \<and> distinct (map field_name (schema b)) \<and>
      (\<forall>r \<in> set (rows b). list_all2 (\<lambda>f c. field_nullable f \<or> cell_valid c) (schema b) r))"

lemma resolve_keys_map:
  "\<forall>n \<in> set names. index_of sch n \<noteq> None \<Longrightarrow>
   resolve_keys e sch names = Inr (map (\<lambda>n. the (index_of sch n)) names)"
  by (induction names) (auto simp: resolve_keys_def)

lemma project_schema_fields:
  assumes "project_schema sch projection = Inr out"
  shows "map field_name out = requested_columns sch projection"
proof (cases projection)
  case None
  then show ?thesis using assms by (simp add: project_schema_def requested_columns_def)
next
  case (Some names)
  then obtain idxs where idxs: "resolve_keys (\<lambda>name. FormatErr (''projection column not in schema: '' @ name)) sch names = Inr idxs"
    "out = map (\<lambda>i. sch ! i) idxs"
    using assms by (auto simp: project_schema_def rbind_eq_Inr)
  have "resolve_keys e sch names = Inr idxs \<Longrightarrow> map (\<lambda>i. field_name (sch ! i)) idxs = names" for e
    by (induction names arbitrary: idxs)
       (auto simp: resolve_keys_def rbind_eq_Inr dest: index_of_Some split: option.splits)
  then show ?thesis using idxs Some by (simp add: requested_columns_def comp_def)
qed

section \<open>Shaping is by name\<close>

lemma try_new_Inr:
  assumes "cols \<noteq> []" "length cols = length sch" "map fst cols = map field_type sch"
    and "\<forall>c \<in> set cols. length (snd c) = n"
    and "list_all (\<lambda>(f, c). field_nullable f \<or> list_all cell_valid (snd c)) (zip sch cols)"
  shows "try_new sch cols = Inr \<lparr>schema = sch, rows = map (\<lambda>i. map (\<lambda>c. snd c ! i) cols) [0..<n]\<rparr>"
proof -
  obtain t c0 cs where cols: "cols = (t, c0) # cs" using assms(1) by (cases cols) auto
  then have "length c0 = n" "list_all (\<lambda>c. length (snd c) = length c0) cols" using assms(4) by (auto simp: list_all_iff)
  then show ?thesis using assms(2,3,5) unfolding cols try_new_def by simp
qed

lemma try_new_own_columns:
  assumes valid: "valid_batch b" and ne: "schema b \<noteq> []"
  shows "try_new (schema b) (map (\<lambda>i. (field_type (schema b ! i), map (\<lambda>r. r ! i) (rows b))) [0..<length (schema b)]) = Inr b"
    (is "try_new _ ?cols = _")
proof -
  have types: "map fst ?cols = map field_type (schema b)" by (rule nth_equalityI) auto
  have nulls: "list_all (\<lambda>(f, c). field_nullable f \<or> list_all cell_valid (snd c)) (zip (schema b) ?cols)"
    using valid by (fastforce simp: list_all_length valid_batch_def list_all2_conv_all_nth)
  have "map (\<lambda>i. map (\<lambda>c. snd c ! i) ?cols) [0..<length (rows b)] = rows b"
    using valid by (intro nth_equalityI) (auto simp: valid_batch_def wf_batch_def intro!: nth_equalityI)
  moreover have "?cols \<noteq> []" "length ?cols = length (schema b)" using ne by simp_all
  ultimately show ?thesis using try_new_Inr[of ?cols "schema b" "length (rows b)"] types nulls by auto
qed

lemma null_fill_by_name:
  assumes valid: "valid_batch b" and ne: "out \<noteq> []"
  shows "null_fill_to_schema b out = rbind (rmap (fill_column b) out) (\<lambda>cols. try_new out cols)"
proof (cases "schema b = out")
  case True
  have "fill_column b (out ! i) = Inr (field_type (schema b ! i), map (\<lambda>r. r ! i) (rows b))" if "i < length out" for i
    using index_of_nth[of "schema b" i] valid that True by (simp add: fill_column_def valid_batch_def)
  then have "rmap (\<lambda>i. fill_column b (out ! i)) [0..<length out] =
      Inr (map (\<lambda>i. (field_type (schema b ! i), map (\<lambda>r. r ! i) (rows b))) [0..<length out])"
    by (intro rmap_pure) simp
  then have "rmap (fill_column b) out =
      Inr (map (\<lambda>i. (field_type (schema b ! i), map (\<lambda>r. r ! i) (rows b))) [0..<length out])"
    using rmap_map[of "fill_column b" "\<lambda>i. out ! i" "[0..<length out]"] by (simp add: map_nth)
  then show ?thesis using True try_new_own_columns[OF valid] ne by (simp add: null_fill_to_schema_def)
next
  case False
  then show ?thesis by (simp add: null_fill_to_schema_def)
qed

lemma index_of_sub:
  assumes names: "distinct (map field_name sch)" and sub: "set idxs \<subseteq> {..<length sch}"
  shows "index_of sch name = Some i \<Longrightarrow> i \<in> set idxs \<Longrightarrow>
      \<exists>j < length idxs. index_of (map (\<lambda>i. sch ! i) idxs) name = Some j \<and> idxs ! j = i"
    and "index_of sch name = None \<Longrightarrow> index_of (map (\<lambda>i. sch ! i) idxs) name = None"
proof -
  assume i: "index_of sch name = Some i" "i \<in> set idxs"
  then have "name \<in> field_name ` set (map (\<lambda>i. sch ! i) idxs)" using index_of_Some[OF i(1)] by force
  then obtain j where j: "index_of (map (\<lambda>i. sch ! i) idxs) name = Some j"
    by (cases "index_of (map (\<lambda>i. sch ! i) idxs) name") (auto simp: index_of_None)
  have "j < length idxs" "field_name (sch ! (idxs ! j)) = name" using index_of_Some[OF j] by auto
  moreover have "idxs ! j < length sch" using sub nth_mem[OF \<open>j < length idxs\<close>] by auto
  ultimately have "idxs ! j = i" using index_of_nth[OF names, of "idxs ! j"] i(1) by simp
  then show "\<exists>j < length idxs. index_of (map (\<lambda>i. sch ! i) idxs) name = Some j \<and> idxs ! j = i"
    using j \<open>j < length idxs\<close> by blast
next
  assume "index_of sch name = None"
  then show "index_of (map (\<lambda>i. sch ! i) idxs) name = None"
    using sub unfolding index_of_None by (auto simp: subset_iff)
qed

lemma fill_column_sub:
  assumes names: "distinct (map field_name (schema b))" and sub: "set idxs \<subseteq> {..<length (schema b)}"
    and covers: "\<forall>i. index_of (schema b) (field_name f) = Some i \<longrightarrow> i \<in> set idxs"
    and b': "schema b' = map (\<lambda>i. schema b ! i) idxs" "rows b' = map (\<lambda>r. map (\<lambda>i. r ! i) idxs) (rows b)"
  shows "fill_column b' f = fill_column b f"
proof (cases "index_of (schema b) (field_name f)")
  case None
  then show ?thesis using index_of_sub(2)[OF names sub None] b' by (simp add: fill_column_def num_rows_def)
next
  case (Some i)
  then obtain j where "j < length idxs" "index_of (schema b') (field_name f) = Some j" "idxs ! j = i"
    using index_of_sub(1)[OF names sub Some] covers b'(1) by auto
  then show ?thesis using Some b' by (auto simp: fill_column_def)
qed

lemma valid_sub:
  assumes "valid_batch b" "set idxs \<subseteq> {..<length (schema b)}" "distinct idxs"
    and "schema b' = map (\<lambda>i. schema b ! i) idxs" "rows b' = map (\<lambda>r. map (\<lambda>i. r ! i) idxs) rs" "set rs \<subseteq> set (rows b)"
  shows "valid_batch b'"
proof -
  have names: "distinct (map field_name (schema b))" using assms(1) by (simp add: valid_batch_def)
  have "field_name (schema b ! i) = field_name (schema b ! j) \<Longrightarrow> i = j"
    if "i < length (schema b)" "j < length (schema b)" for i j
    using names that by (metis length_map nth_eq_iff_index_eq nth_map)
  then have "distinct (map field_name (schema b'))"
    using assms(2-4) by (auto simp: distinct_map inj_on_def subset_iff)
  moreover have "\<forall>r \<in> set rs. \<forall>i \<in> set idxs. field_nullable (schema b ! i) \<or> cell_valid (r ! i)"
    using assms(1,2,6) unfolding valid_batch_def list_all2_conv_all_nth by blast
  ultimately show ?thesis
    using assms(4,5) by (auto simp: valid_batch_def wf_batch_def list_all2_conv_all_nth)
qed

lemma selected_rows_map: "selected_rows off len (map g xs) = map g (selected_rows off len xs)"
  by (auto simp: selected_rows_def slice_selection_def slice_rows_def take_map drop_map split: option.splits)

lemma selected_rows_subset: "set (selected_rows off len xs) \<subseteq> set xs"
  by (auto simp: selected_rows_def slice_selection_def slice_rows_def split: option.splits
      dest: in_set_takeD in_set_dropD)

lemma valid_rows_subset: "valid_batch b \<Longrightarrow> set rs \<subseteq> set (rows b) \<Longrightarrow> valid_batch (b\<lparr>rows := rs\<rparr>)"
  by (auto simp: valid_batch_def wf_batch_def)

text \<open>The columns of a file a projection needs.\<close>

definition mask_indices :: "afield list \<Rightarrow> string list \<Rightarrow> nat list" where
  "mask_indices sch names = filter (\<lambda>i. field_name (sch ! i) \<in> set (present_columns sch names)) [0..<length sch]"

lemma mask_indices_props:
  assumes "distinct (map field_name sch)"
  shows "set (mask_indices sch names) \<subseteq> {..<length sch}" "distinct (mask_indices sch names)"
    and "name \<in> set names \<Longrightarrow> index_of sch name = Some i \<Longrightarrow> i \<in> set (mask_indices sch names)"
  by (auto simp: mask_indices_def present_columns_def dest: index_of_Some)

lemma present_resolve:
  "project_schema sch (Some (present_columns sch names)) =
     Inr (map (\<lambda>i. sch ! i) (map (\<lambda>n. the (index_of sch n)) (present_columns sch names)))"
  unfolding project_schema_def option.case
  by (subst resolve_keys_map) (auto simp: present_columns_def)

text \<open>The batch a projected read hands to the shaping tail fills every requested column as
  the whole file would.\<close>

lemma read_in_file_schema_fill:
  assumes valid: "valid_batch file" and found: "store uri = Some file" "get_fault faults uri = None"
  obtains present native where
    "read_in_file_schema faults store uri off len (Some names) = Inr present"
    "read_segment_native faults store uri off len = Inr native"
    "\<forall>f. field_name f \<in> set names \<longrightarrow> fill_column present f = fill_column native f"
    "distinct names \<Longrightarrow> valid_batch present" "valid_batch native"
    "native = file\<lparr>rows := selected_rows off len (rows file)\<rparr>"
proof -
  let ?rs = "selected_rows off len (rows file)" and ?idxs = "mask_indices (schema file) names"
  let ?pidx = "map (\<lambda>n. the (index_of (schema file) n)) (present_columns (schema file) names)"
  let ?native = "file\<lparr>rows := ?rs\<rparr>"
  have names: "distinct (map field_name (schema file))" using valid by (simp add: valid_batch_def)
  note mask = mask_indices_props[OF names]
  have vn: "valid_batch ?native" by (rule valid_rows_subset[OF valid selected_rows_subset])
  have native: "read_segment_native faults store uri off len = Inr ?native"
    using found by (simp add: read_segment_native_def read_in_file_schema_def Let_def empty_batch_def)
  have pidx: "set ?pidx \<subseteq> {..<length (schema file)}"
    by (auto simp: present_columns_def dest: index_of_Some)
  show thesis
  proof (cases "?rs = []")
    case True
    let ?present = "empty_batch (map (\<lambda>i. schema file ! i) ?pidx)"
    have "read_in_file_schema faults store uri off len (Some names) = Inr ?present"
      using found True
      by (simp add: read_in_file_schema_def present_resolve project_def selected_rows_map Let_def)
    moreover have "fill_column ?present f = fill_column ?native f" if "field_name f \<in> set names" for f
      using that True names pidx
      by (intro fill_column_sub[of ?native ?pidx]) (force simp: empty_batch_def present_columns_def)+
    moreover have "valid_batch ?present" if "distinct names"
    proof -
      have "distinct ?pidx"
        using that by (auto simp: distinct_map inj_on_def present_columns_def) (metis index_of_Some)
      then show ?thesis
        using valid_sub[OF vn _ _, of ?pidx ?present "[]"] pidx by (simp add: empty_batch_def)
    qed
    ultimately show thesis using that native vn by blast
  next
    case False
    let ?present = "(project file ?idxs)\<lparr>rows := map (\<lambda>r. map (\<lambda>i. r ! i) ?idxs) ?rs\<rparr>"
    have "read_in_file_schema faults store uri off len (Some names) = Inr ?present"
      using found False
      by (simp add: read_in_file_schema_def present_resolve project_def selected_rows_map Let_def mask_indices_def)
    moreover have "fill_column ?present f = fill_column ?native f" if "field_name f \<in> set names" for f
      using that names mask
      by (intro fill_column_sub[of ?native ?idxs]) (auto simp: project_def)
    moreover have "valid_batch ?present"
      by (rule valid_sub[OF vn, of ?idxs _ ?rs]) (use mask in \<open>auto simp: project_def\<close>)
    ultimately show thesis using that native vn by blast
  qed
qed

lemma shape_same_fill:
  assumes "\<forall>f. field_name f \<in> set (requested_columns sch projection) \<longrightarrow> fill_column b f = fill_column b' f"
    and "valid_batch b" "valid_batch b'" "requested_columns sch projection \<noteq> []"
  shows "shape_to_schema b sch projection = shape_to_schema b' sch projection"
proof (cases "project_schema sch projection")
  case (Inr out)
  note names = project_schema_fields[OF Inr]
  then have "rmap (fill_column b) out = rmap (fill_column b') out"
    using assms(1) by (intro rmap_cong) (auto simp flip: names)
  moreover have "out \<noteq> []" using names assms(4) by auto
  ultimately show ?thesis
    using null_fill_by_name[OF assms(2)] null_fill_by_name[OF assms(3)] Inr by (simp add: shape_to_schema_def)
qed (simp add: shape_to_schema_def)

lemma read_segment_shaped:
  assumes "store uri = Some b" "valid_batch b" "get_fault faults uri = None"
    and names: "distinct (requested_columns sch projection)" "requested_columns sch projection \<noteq> []"
  shows "read_segment faults store uri off len sch projection =
    rbind (read_segment_native faults store uri off len) (\<lambda>b. shape_to_schema b sch projection)"
proof -
  obtain present native where
    "read_in_file_schema faults store uri off len (Some (requested_columns sch projection)) = Inr present"
    "read_segment_native faults store uri off len = Inr native"
    "\<forall>f. field_name f \<in> set (requested_columns sch projection) \<longrightarrow> fill_column present f = fill_column native f"
    "valid_batch present" "valid_batch native"
    using read_in_file_schema_fill[of b store uri faults off len "requested_columns sch projection"] assms(1-3) names(1) by metis
  then show ?thesis using shape_same_fill[of sch projection present native] names(2) by (simp add: read_segment_def)
qed

text \<open>A file read in its own schema gives its rows, or the selected range of them.\<close>

lemma read_segment_own:
  assumes "store uri = Some b" "valid_batch b" "schema b \<noteq> []" "get_fault faults uri = None"
  shows "read_segment faults store uri off len (schema b) None = Inr (b\<lparr>rows := selected_rows off len (rows b)\<rparr>)"
proof -
  have "distinct (requested_columns (schema b) None)" "requested_columns (schema b) None \<noteq> []"
    using assms by (auto simp: requested_columns_def valid_batch_def)
  then show ?thesis
    using assms read_segment_shaped[of store uri b faults "schema b" None off len]
    by (simp add: read_segment_native_def read_in_file_schema_def Let_def empty_batch_def shape_to_schema_def
        project_schema_def null_fill_to_schema_def)
qed

lemma usize_of_i64 [simp]: "0 \<le> i \<Longrightarrow> i < 2 ^ 63 \<Longrightarrow> usize_of i = nat i"
  by (simp add: usize_of_def)

text \<open>What a read returns has the requested schema and respects it.\<close>

lemma try_new_valid:
  assumes "try_new sch cols = Inr b" "distinct (map field_name sch)"
  shows "schema b = sch \<and> valid_batch b"
proof -
  obtain t c0 cs where cols: "cols = (t, c0) # cs" using assms(1) by (auto simp: try_new_def split: list.splits)
  have checks: "length cols = length sch" "list_all (\<lambda>c. length (snd c) = length c0) cols"
    "list_all (\<lambda>(f, c). field_nullable f \<or> list_all cell_valid (snd c)) (zip sch cols)"
    and b: "b = \<lparr>schema = sch, rows = map (\<lambda>i. map (\<lambda>c. snd c ! i) cols) [0..<length c0]\<rparr>"
    using assms(1) unfolding cols by (auto simp: try_new_def split: if_splits)
  have "list_all2 (\<lambda>f c. field_nullable f \<or> cell_valid c) sch (map (\<lambda>c. snd c ! i) cols)" if "i < length c0" for i
    using checks that by (fastforce simp: list_all2_conv_all_nth list_all_length)
  then show ?thesis using checks(1) assms(2) unfolding b by (auto simp: valid_batch_def wf_batch_def)
qed

lemma shape_valid:
  assumes "valid_batch b" "shape_to_schema b sch None = Inr b'" "distinct (map field_name sch)"
  shows "schema b' = sch \<and> valid_batch b'"
proof (cases "schema b = sch")
  case True
  then show ?thesis using assms by (simp add: shape_to_schema_def project_schema_def null_fill_to_schema_def)
next
  case False
  then obtain cols where "try_new sch cols = Inr b'"
    using assms(2) by (auto simp: shape_to_schema_def project_schema_def null_fill_to_schema_def rbind_eq_Inr)
  then show ?thesis using try_new_valid assms(3) by blast
qed

lemma read_segment_valid:
  assumes read: "read_segment faults store uri off len sch None = Inr out"
    and valid: "\<And>b. store uri = Some b \<Longrightarrow> valid_batch b" and names: "distinct (map field_name sch)" "sch \<noteq> []"
  shows "schema out = sch \<and> valid_batch out"
proof -
  obtain b where b: "store uri = Some b" "get_fault faults uri = None"
    using read by (auto simp: read_segment_def read_in_file_schema_def rbind_eq_Inr split: option.splits)
  have req: "distinct (requested_columns sch None)" "requested_columns sch None \<noteq> []"
    using names by (simp_all add: requested_columns_def)
  have "rbind (read_segment_native faults store uri off len) (\<lambda>b. shape_to_schema b sch None) = Inr out"
    using read unfolding read_segment_shaped[of store uri b faults sch None off len, OF b(1) valid[OF b(1)] b(2) req] .
  then obtain native where native: "read_segment_native faults store uri off len = Inr native"
    and shape: "shape_to_schema native sch None = Inr out"
    by (rule rbind_InrE)
  have "native = (if selected_rows off len (rows b) = [] then empty_batch (schema b) else b\<lparr>rows := selected_rows off len (rows b)\<rparr>)"
    using native unfolding read_segment_native_def read_in_file_schema_def b by (simp add: Let_def)
  moreover have "valid_batch (b\<lparr>rows := selected_rows off len (rows b)\<rparr>)"
    by (rule valid_rows_subset[OF valid[OF b(1)] selected_rows_subset])
  moreover have "valid_batch (empty_batch (schema b))"
    using valid[OF b(1)] by (simp add: empty_batch_def valid_batch_def wf_batch_def)
  ultimately have "valid_batch native" by simp
  then show ?thesis using shape_valid[OF _ shape names(1)] by blast
qed

section \<open>Streams of persist segments\<close>

text \<open>The rows of a segment's batch that its ceiling admits.\<close>

definition admitted :: "persist_segment \<Rightarrow> record_batch \<Rightarrow> row list" where
  "admitted seg b =
     (case (seg_max_commit_seq_num seg, index_of (schema b) COMMIT_SEQ_NUM_COLUMN) of
        (None, _) \<Rightarrow> rows b
      | (Some ceiling, Some idx) \<Rightarrow> filter (\<lambda>r. within_ceiling ceiling (r ! idx)) (rows b)
      | (Some _, None) \<Rightarrow> [])"

lemma apply_segment_seq_ceiling_rows:
  "apply_segment_seq_ceiling b seg = Inr b' \<Longrightarrow> rows b' = admitted seg b \<and> schema b' = schema b"
  by (auto simp: apply_segment_seq_ceiling_def admitted_def split: option.splits if_splits)

lemma non_empty_or_rows: "concat (map rows (non_empty_or sch bs)) = concat (map rows bs)"
proof -
  have "concat (map rows (filter (\<lambda>b. num_rows b > 0) bs)) = concat (map rows bs)"
    by (induction bs) (auto simp: num_rows_def)
  then show ?thesis by (auto simp: non_empty_or_def Let_def empty_batch_def)
qed

lemma rmap_zip_concat:
  assumes "rmap f xs = Inr ys" "\<And>x y. x \<in> set xs \<Longrightarrow> f x = Inr y \<Longrightarrow> \<exists>b. g x = Inr b \<and> rows y = h x b"
  shows "\<exists>bs. rmap g xs = Inr bs \<and> concat (map rows ys) = concat (map (\<lambda>(x, b). h x b) (zip xs bs))"
  using assms
proof (induction xs arbitrary: ys)
  case (Cons x xs)
  then obtain y ys' where y: "f x = Inr y" "rmap f xs = Inr ys'" "ys = y # ys'" by (auto simp: rbind_eq_Inr)
  obtain b where b: "g x = Inr b" "rows y = h x b" using Cons.prems(2)[of x y] y(1) by auto
  obtain bs where "rmap g xs = Inr bs" "concat (map rows ys') = concat (map (\<lambda>(x, b). h x b) (zip xs bs))"
    using Cons.IH[OF y(2)] Cons.prems(2) by auto
  then show ?case using b y(3) by auto
qed simp

section \<open>Properties\<close>

text \<open>C21: reading a segment for a caller equals reading it in the file's own schema and shaping
  the result afterwards, with the same errors.  This is what lets one decode be cached and
  served to callers with different schemas.\<close>

theorem read_segment_via_native:
  assumes valid: "\<forall>b. store uri = Some b \<longrightarrow> valid_batch b"
    and names: "distinct (requested_columns sch projection)" "requested_columns sch projection \<noteq> []"
  shows "read_segment faults store uri off len sch projection =
    rbind (read_segment_native faults store uri off len) (\<lambda>b. shape_to_schema b sch projection)"
proof (cases "get_fault faults uri")
  case None
  show ?thesis
  proof (cases "store uri")
    case (Some b)
    then show ?thesis using read_segment_shaped[of store uri b faults sch projection off len] valid None names by simp
  qed (use None in \<open>simp add: read_segment_def read_segment_native_def read_in_file_schema_def\<close>)
qed (simp add: read_segment_def read_segment_native_def read_in_file_schema_def)



definition log_schema :: "afield list" where
  "log_schema = [AField ''row_uuid'' DtUtf8 False, AField ''commit_seq_num'' DtInt64 False]"

definition log_batch :: "(string \<times> int) list \<Rightarrow> record_batch" where
  "log_batch rs = \<lparr>schema = log_schema, rows = map (\<lambda>(u, s). [Cell True (VBytes u), Cell True (VInt s)]) rs\<rparr>"

definition log_segment :: "string \<Rightarrow> int option \<Rightarrow> persist_segment" where
  "log_segment uri ceiling =
     \<lparr>seg_uuid = uri, seg_uri = uri, seg_format = Parquet, seg_row_count = 2, seg_size_bytes = 0,
      seg_metadata_json = [], seg_statistics = [], seg_offset = None, seg_length = None,
      seg_max_commit_seq_num = ceiling, seg_content_hash = uri\<rparr>"

lemma log_batch_valid: "valid_batch (log_batch rs)"
  by (auto simp: valid_batch_def wf_batch_def log_batch_def log_schema_def)

theorem read_segment_via_native_witness:
  "read_segment no_faults [''f'' \<mapsto> log_batch [(''a'', 1), (''b'', 2)]] ''f'' (Some 1) (Some 1)
     (log_schema @ [AField ''note'' DtUtf8 True]) (Some [''note'', ''row_uuid'']) =
   Inr \<lparr>schema = [AField ''note'' DtUtf8 True, AField ''row_uuid'' DtUtf8 False],
        rows = [[Cell False (VBytes []), Cell True (VBytes ''b'')]]\<rparr>"
proof -
  let ?store = "[''f'' \<mapsto> log_batch [(''a'', 1), (''b'', 2)]]" and ?sch = "log_schema @ [AField ''note'' DtUtf8 True]"
  have valid: "\<forall>b. ?store ''f'' = Some b \<longrightarrow> valid_batch b" by (simp add: log_batch_valid)
  have names: "distinct (requested_columns ?sch (Some [''note'', ''row_uuid'']))"
    "requested_columns ?sch (Some [''note'', ''row_uuid'']) \<noteq> []"
    by (simp_all add: requested_columns_def)
  show ?thesis
    unfolding read_segment_via_native[where store = ?store and uri = "''f''", OF valid names] by code_simp
qed



end
