(* ===== verification/Segment_Index.thy ===== *)
theory Segment_Index
  imports Cold_Files Naming
begin

text \<open>
  The cold index artifact (\<open>penca-format/src/index/mod.rs\<close>): the sorted
  \<open>(key_0, \<dots>, row_offset)\<close> batch built per segment, and the binary-searched seek
  over it.  Arrow's sort, strict cast and typed comparators are the fields of \<open>index_lib\<close>;
  \<open>index_lib_sound\<close> states what their documentation promises.
\<close>

section \<open>The kernels of Arrow\<close>

datatype comparison = Less | Equal | Greater

record index_lib =
  il_lexsort :: "(data_type \<times> cell list) list \<Rightarrow> nat list result"
  il_cast :: "data_type \<Rightarrow> string \<Rightarrow> cell result"
  il_comparator :: "data_type \<Rightarrow> (cell \<Rightarrow> cell \<Rightarrow> comparison) result"

section \<open>Building the artifact\<close>

definition INDEX_OFFSET_COL :: string where
  "INDEX_OFFSET_COL = ''row_offset''"

definition index_key_col :: "nat \<Rightarrow> string" where
  "index_key_col idx = ''key_'' @ show_nat idx"

definition segment_index_schema :: "data_type list \<Rightarrow> afield list" where
  "segment_index_schema types =
     map (\<lambda>(idx, t). AField (index_key_col idx) t True) (enumerate 0 types) @
     [AField INDEX_OFFSET_COL DtInt64 False]"

definition build_segment_index :: "index_lib \<Rightarrow> (data_type \<times> cell list) list \<Rightarrow> record_batch result" where
  "build_segment_index lib key_cols =
     (case key_cols of
        [] \<Rightarrow> Inl (FormatErr ''build_segment_index requires at least one key column'')
      | (_, c0) # _ \<Rightarrow>
          if \<exists>col \<in> set key_cols. length (snd col) \<noteq> length c0
          then Inl (FormatErr ''build_segment_index key columns must all have the same length'')
          else rbind (il_lexsort lib key_cols) (\<lambda>indices.
               try_new (segment_index_schema (map fst key_cols))
                 (map (\<lambda>(t, c). (t, map (\<lambda>i. c ! i) indices)) key_cols @
                  [(DtInt64, map (\<lambda>i. Cell True (VInt (int i))) indices)])))"

section \<open>Seeking\<close>

fun cmp_row_to_probe :: "(cell \<Rightarrow> cell \<Rightarrow> comparison) list \<Rightarrow> cell list \<Rightarrow> cell list \<Rightarrow> comparison" where
  "cmp_row_to_probe (c # cs) (k # ks) (p # ps) =
     (case c k p of Equal \<Rightarrow> cmp_row_to_probe cs ks ps | other \<Rightarrow> other)"
| "cmp_row_to_probe _ _ _ = Equal"

function lower_bound :: "(nat \<Rightarrow> comparison) \<Rightarrow> nat \<Rightarrow> nat \<Rightarrow> nat" where
  "lower_bound f lo hi =
     (if lo < hi then
        let mid = lo + (hi - lo) div 2 in
        if f mid = Less then lower_bound f (mid + 1) hi else lower_bound f lo mid
      else lo)"
  by pat_completeness auto
termination
  by (relation "measure (\<lambda>(f, lo, hi). hi - lo)") auto

declare lower_bound.simps [simp del]

function equal_run :: "(nat \<Rightarrow> comparison) \<Rightarrow> nat \<Rightarrow> nat \<Rightarrow> nat list" where
  "equal_run f i n = (if i < n \<and> f i = Equal then i # equal_run f (i + 1) n else [])"
  by pat_completeness auto
termination
  by (relation "measure (\<lambda>(f, i, n). n - i)") auto

declare equal_run.simps [simp del]

definition offset_value :: "cell \<Rightarrow> int" where
  "offset_value c = (case cell_data c of VInt i \<Rightarrow> i | _ \<Rightarrow> 0)"

definition seek_row_offsets :: "index_lib \<Rightarrow> record_batch \<Rightarrow> string list list \<Rightarrow> int list result" where
  "seek_row_offsets lib sidecar probe_tuples =
     (if schema sidecar = [] then Inl (FormatErr ''index sidecar has no columns'')
      else
        let num_keys = length (schema sidecar) - 1 in
        case probe_tuples of
          [] \<Rightarrow> Inr []
        | first # _ \<Rightarrow>
            let probe_arity = length first in
            if \<exists>probe \<in> set probe_tuples. length probe \<noteq> probe_arity
            then Inl (FormatErr ''seek probe tuples have mixed arity'')
            else if probe_arity = 0 \<or> probe_arity > num_keys
            then Inl (FormatErr ''seek probe arity out of range'')
            else if num_rows sidecar = 0 then Inr []
            else
              rbind (rmap (\<lambda>key_idx.
                       let t = field_type (schema sidecar ! key_idx) in
                       rbind (rmap (\<lambda>tuple. il_cast lib t (tuple ! key_idx)) probe_tuples) (\<lambda>probe_col.
                       rbind (il_comparator lib t) (\<lambda>cmp. Inr (cmp, probe_col)))) [0..<probe_arity]) (\<lambda>columns.
              if field_type (schema sidecar ! num_keys) \<noteq> DtInt64
              then Inl (FormatErr ''index sidecar column is absent or mistyped'')
              else
                let n = num_rows sidecar;
                    cmp = (\<lambda>probe_idx row. cmp_row_to_probe (map fst columns) (rows sidecar ! row)
                             (map (\<lambda>c. snd c ! probe_idx) columns));
                    out = concat (map (\<lambda>probe_idx.
                            map (\<lambda>i. offset_value (rows sidecar ! i ! num_keys))
                              (equal_run (cmp probe_idx) (lower_bound (cmp probe_idx) 0 n) n))
                            [0..<length probe_tuples])
                in Inr (remdups_adj (sort out))))"

section \<open>What Arrow promises\<close>

text \<open>A comparator is a total preorder, the sort returns a permutation that puts the key tuples in
  the lexicographic order of the comparators of their types.\<close>

definition comparator_sound :: "(cell \<Rightarrow> cell \<Rightarrow> comparison) \<Rightarrow> bool" where
  "comparator_sound c =
     ((\<forall>a b. c a b = Less \<longleftrightarrow> c b a = Greater) \<and>
      (\<forall>a b d. c a b \<noteq> Greater \<and> c b d \<noteq> Greater \<longrightarrow> c a d \<noteq> Greater))"

definition index_lib_sound :: "index_lib \<Rightarrow> bool" where
  "index_lib_sound lib =
     ((\<forall>t c. il_comparator lib t = Inr c \<longrightarrow> comparator_sound c) \<and>
      (\<forall>cols n indices cs. cols \<noteq> [] \<and> (\<forall>c \<in> set cols. length (snd c) = n) \<and>
         il_lexsort lib cols = Inr indices \<and> rmap (\<lambda>c. il_comparator lib (fst c)) cols = Inr cs \<longrightarrow>
         mset indices = mset [0..<n] \<and>
         sorted_wrt (\<lambda>i j. cmp_row_to_probe cs (map (\<lambda>c. snd c ! i) cols) (map (\<lambda>c. snd c ! j) cols) \<noteq> Greater) indices))"

section \<open>The search\<close>

fun comparison_rank :: "comparison \<Rightarrow> nat" where
  "comparison_rank Less = 0"
| "comparison_rank Equal = 1"
| "comparison_rank Greater = 2"

definition mono_cmp :: "(nat \<Rightarrow> comparison) \<Rightarrow> nat \<Rightarrow> bool" where
  "mono_cmp f n = (\<forall>i j. i \<le> j \<and> j < n \<longrightarrow> comparison_rank (f i) \<le> comparison_rank (f j))"

lemma rank_simps [simp]:
  "comparison_rank c = 0 \<longleftrightarrow> c = Less" "comparison_rank c \<le> 0 \<longleftrightarrow> c = Less" "comparison_rank c \<le> 2"
  by (cases c; simp)+

lemma lower_bound_spec:
  assumes "mono_cmp f n" "lo \<le> hi" "hi \<le> n" "\<forall>i < lo. f i = Less" "\<forall>i. hi \<le> i \<and> i < n \<longrightarrow> f i \<noteq> Less"
  shows "lower_bound f lo hi \<le> n \<and> (\<forall>i < lower_bound f lo hi. f i = Less) \<and>
    (\<forall>i. lower_bound f lo hi \<le> i \<and> i < n \<longrightarrow> f i \<noteq> Less)"
  using assms
proof (induction f lo hi rule: lower_bound.induct)
  case (1 f lo hi)
  show ?case
  proof (cases "lo < hi")
    case True
    let ?mid = "lo + (hi - lo) div 2"
    have mid: "lo \<le> ?mid" "?mid < hi" using True by auto
    show ?thesis
    proof (cases "f ?mid = Less")
      case less: True
      have "f i = Less" if "i < ?mid + 1" for i
      proof -
        have "i \<le> ?mid" "?mid < n" using that mid 1(5) by auto
        then have "comparison_rank (f i) \<le> comparison_rank (f ?mid)" using 1(3) unfolding mono_cmp_def by blast
        then show ?thesis using less by simp
      qed
      then have below: "\<forall>i < ?mid + 1. f i = Less" by blast
      have eq: "lower_bound f lo hi = lower_bound f (?mid + 1) hi"
        using True less by (subst lower_bound.simps) (simp add: Let_def)
      have "?mid + 1 \<le> hi" using mid by simp
      from 1(1)[OF True refl less 1(3) this 1(5) below 1(7)] show ?thesis unfolding eq .
    next
      case False
      have "f i \<noteq> Less" if "?mid \<le> i" "i < n" for i
      proof -
        have "comparison_rank (f ?mid) \<le> comparison_rank (f i)" using 1(3) that unfolding mono_cmp_def by blast
        then show ?thesis using False by auto
      qed
      then have above: "\<forall>i. ?mid \<le> i \<and> i < n \<longrightarrow> f i \<noteq> Less" by blast
      have eq: "lower_bound f lo hi = lower_bound f lo ?mid"
        using True False by (subst lower_bound.simps) (simp add: Let_def)
      have "?mid \<le> n" using mid 1(5) by simp
      from 1(2)[OF True refl False 1(3) mid(1) this 1(6) above] show ?thesis unfolding eq .
    qed
  next
    case False
    then have "lower_bound f lo hi = lo" by (subst lower_bound.simps) simp
    then show ?thesis using 1(3-7) False by auto
  qed
qed

lemma equal_run_spec:
  assumes "mono_cmp f n" "\<forall>k. i \<le> k \<and> k < n \<longrightarrow> f k \<noteq> Less"
  shows "set (equal_run f i n) = {k. i \<le> k \<and> k < n \<and> f k = Equal}"
  using assms
proof (induction f i n rule: equal_run.induct)
  case (1 f i n)
  show ?case
  proof (cases "i < n \<and> f i = Equal")
    case True
    have "\<forall>k. i + 1 \<le> k \<and> k < n \<longrightarrow> f k \<noteq> Less" using 1(3) by auto
    note rest = 1(1)[OF True 1(2) this]
    have "equal_run f i n = i # equal_run f (i + 1) n" using True by (subst equal_run.simps) simp
    then have "set (equal_run f i n) = insert i {k. i + 1 \<le> k \<and> k < n \<and> f k = Equal}" by (simp only: list.set rest)
    also have "\<dots> = {k. i \<le> k \<and> k < n \<and> f k = Equal}"
    proof -
      have "i \<le> k \<longleftrightarrow> k = i \<or> i + 1 \<le> k" for k by linarith
      then show ?thesis using True by blast
    qed
    finally show ?thesis .
  next
    case False
    have "f k \<noteq> Equal" if "i \<le> k" "k < n" for k
    proof -
      have "f i = Greater" using False 1(3) that by (cases "f i") auto
      moreover have "comparison_rank (f i) \<le> comparison_rank (f k)" using 1(2) that unfolding mono_cmp_def by blast
      ultimately show ?thesis by (cases "f k") auto
    qed
    moreover have "equal_run f i n = []" using False by (subst equal_run.simps) simp
    ultimately show ?thesis by auto
  qed
qed

lemma search_finds_equal:
  assumes "mono_cmp f n"
  shows "set (equal_run f (lower_bound f 0 n) n) = {k. k < n \<and> f k = Equal}"
proof -
  let ?lo = "lower_bound f 0 n"
  have "?lo \<le> n \<and> (\<forall>i < ?lo. f i = Less) \<and> (\<forall>i. ?lo \<le> i \<and> i < n \<longrightarrow> f i \<noteq> Less)"
    by (rule lower_bound_spec[OF assms]) auto
  then have lb: "\<forall>i < ?lo. f i = Less" "\<forall>i. ?lo \<le> i \<and> i < n \<longrightarrow> f i \<noteq> Less" by blast+
  have "?lo \<le> k" if "f k = Equal" for k
  proof (rule ccontr)
    assume "\<not> ?lo \<le> k"
    then show False using lb(1) that by simp
  qed
  then have "{k. ?lo \<le> k \<and> k < n \<and> f k = Equal} = {k. k < n \<and> f k = Equal}" by blast
  then show ?thesis using equal_run_spec[OF assms lb(2)] by (simp only:)
qed

section \<open>Lexicographic comparison\<close>

lemma comparator_rank_mono:
  assumes sound: "comparator_sound c" and le: "c a b \<noteq> Greater"
  shows "comparison_rank (c a p) \<le> comparison_rank (c b p)"
    and "c a p = Equal \<Longrightarrow> c b p = Equal \<Longrightarrow> c a b = Equal"
proof -
  have dual: "c x y = Less \<longleftrightarrow> c y x = Greater" for x y
    using sound unfolding comparator_sound_def by blast
  have trans: "c x y \<noteq> Greater \<Longrightarrow> c y z \<noteq> Greater \<Longrightarrow> c x z \<noteq> Greater" for x y z
    using sound unfolding comparator_sound_def by blast
  show "comparison_rank (c a p) \<le> comparison_rank (c b p)"
  proof (cases "c b p")
    case Less
    have "c a p \<noteq> Greater" by (rule trans[OF le]) (simp add: Less)
    moreover have "c a p \<noteq> Equal"
    proof
      assume "c a p = Equal"
      then have "c p a \<noteq> Greater" using dual[of a p] by auto
      then have "c p b \<noteq> Greater" by (rule trans[OF _ le])
      then show False using Less dual[of b p] by blast
    qed
    ultimately show ?thesis by (cases "c a p") auto
  next
    case Equal
    then have "c a p \<noteq> Greater" by (intro trans[OF le]) simp
    then show ?thesis using Equal by (cases "c a p") auto
  next
    case Greater
    then show ?thesis by (cases "c a p") auto
  qed
  show "c a p = Equal \<Longrightarrow> c b p = Equal \<Longrightarrow> c a b = Equal"
  proof -
    assume eq: "c a p = Equal" "c b p = Equal"
    then have "c p a \<noteq> Greater" using dual[of a p] by auto
    then have "c b a \<noteq> Greater" by (intro trans[of b p a]) (simp_all add: eq(2))
    then have "c a b \<noteq> Less" using dual[of a b] by blast
    then show "c a b = Equal" using le by (cases "c a b") auto
  qed
qed

lemma lex_rank_mono:
  assumes "\<forall>c \<in> set cs. comparator_sound c" "length cs \<le> length ds" "take (length cs) ds = cs"
    and "length xs \<ge> length ds" "length ys \<ge> length ds" "length ps = length cs"
    and "cmp_row_to_probe ds xs ys \<noteq> Greater"
  shows "comparison_rank (cmp_row_to_probe cs xs ps) \<le> comparison_rank (cmp_row_to_probe cs ys ps)"
  using assms
proof (induction cs arbitrary: ds xs ys ps)
  case (Cons c cs)
  obtain ds' where ds: "ds = c # ds'" using Cons.prems(2,3) by (cases ds) auto
  obtain x xs' y ys' p ps' where xs: "xs = x # xs'" "ys = y # ys'" "ps = p # ps'"
    using Cons.prems(4-6) ds by (cases xs; cases ys; cases ps) auto
  have le: "c x y \<noteq> Greater" using Cons.prems(7) ds xs by (cases "c x y") auto
  have sound: "comparator_sound c" using Cons.prems(1) by simp
  note mono = comparator_rank_mono[OF sound le, of p]
  show ?case
  proof (cases "c x p = Equal \<and> c y p = Equal")
    case True
    then have "c x y = Equal" using mono(2) by simp
    then have "cmp_row_to_probe ds' xs' ys' \<noteq> Greater" using Cons.prems(7) ds xs by simp
    from Cons.IH[OF _ _ _ _ _ _ this] have
      "comparison_rank (cmp_row_to_probe cs xs' ps') \<le> comparison_rank (cmp_row_to_probe cs ys' ps')"
      using Cons.prems ds xs by auto
    then show ?thesis using True xs by simp
  next
    case False
    then show ?thesis using mono(1) xs by (cases "c x p"; cases "c y p") (auto split: comparison.splits)
  qed
qed simp

lemma cmp_row_extra:
  "length cs \<le> length xs \<Longrightarrow> cmp_row_to_probe cs (xs @ zs) ps = cmp_row_to_probe cs xs ps"
  by (induction cs xs ps rule: cmp_row_to_probe.induct) (auto split: comparison.splits)

lemma cmp_row_Equal:
  "length cs \<le> length xs \<Longrightarrow> length ps = length cs \<Longrightarrow>
   cmp_row_to_probe cs xs ps = Equal \<longleftrightarrow> (\<forall>k < length cs. (cs ! k) (xs ! k) (ps ! k) = Equal)"
proof (induction cs xs ps rule: cmp_row_to_probe.induct)
  case (1 c cs k ks p ps)
  have "(\<forall>j < length (c # cs). ((c # cs) ! j) ((k # ks) ! j) ((p # ps) ! j) = Equal) \<longleftrightarrow>
      c k p = Equal \<and> (\<forall>j < length cs. (cs ! j) (ks ! j) (ps ! j) = Equal)"
    by (auto simp: All_less_Suc2)
  moreover have "cmp_row_to_probe (c # cs) (k # ks) (p # ps) = Equal \<longleftrightarrow>
      c k p = Equal \<and> cmp_row_to_probe cs ks ps = Equal"
    by (cases "c k p") simp_all
  ultimately show ?case using 1 by (cases "c k p") simp_all
qed auto

section \<open>The artifact\<close>

text \<open>The key tuple of a base row, and the comparators of the key columns.\<close>

definition key_tuple :: "(data_type \<times> cell list) list \<Rightarrow> nat \<Rightarrow> cell list" where
  "key_tuple cols i = map (\<lambda>c. snd c ! i) cols"

lemma index_schema_simps [simp]:
  "length (segment_index_schema ts) = Suc (length ts)"
  "k < length ts \<Longrightarrow> field_type (segment_index_schema ts ! k) = ts ! k"
  "field_type (segment_index_schema ts ! length ts) = DtInt64"
  by (auto simp: segment_index_schema_def nth_append nth_enumerate_eq)

lemma build_segment_index_rows:
  assumes build: "build_segment_index lib cols = Inr sidecar"
  obtains n indices where "\<forall>c \<in> set cols. length (snd c) = n" "cols \<noteq> []" "il_lexsort lib cols = Inr indices"
    "schema sidecar = segment_index_schema (map fst cols)"
    "rows sidecar = map (\<lambda>i. key_tuple cols i @ [Cell True (VInt (int i))]) indices"
proof -
  obtain t c0 cs where cols: "cols = (t, c0) # cs" using build by (cases cols) (auto simp: build_segment_index_def)
  then obtain indices where lens: "\<forall>c \<in> set cols. length (snd c) = length c0"
    and sort: "il_lexsort lib cols = Inr indices"
    and new: "try_new (segment_index_schema (map fst cols))
        (map (\<lambda>(t, c). (t, map (\<lambda>i. c ! i) indices)) cols @ [(DtInt64, map (\<lambda>i. Cell True (VInt (int i))) indices)]) = Inr sidecar"
    using build by (auto simp: build_segment_index_def rbind_eq_Inr split: if_splits)
  let ?cols = "map (\<lambda>(t, c). (t, map (\<lambda>i. c ! i) indices)) cols @ [(DtInt64, map (\<lambda>i. Cell True (VInt (int i))) indices)]"
  let ?sch = "segment_index_schema (map fst cols)"
  have "map fst ?cols = map field_type ?sch"
    by (rule nth_equalityI) (auto simp: nth_append segment_index_schema_def nth_enumerate_eq split_def less_Suc_eq)
  moreover have "\<forall>c \<in> set ?cols. length (snd c) = length indices" by auto
  moreover have "list_all (\<lambda>(f, c). field_nullable f \<or> list_all cell_valid (snd c)) (zip ?sch ?cols)"
    by (auto simp: segment_index_schema_def list_all_iff set_zip nth_enumerate_eq)
  ultimately have "sidecar = \<lparr>schema = ?sch, rows = map (\<lambda>i. map (\<lambda>c. snd c ! i) ?cols) [0..<length indices]\<rparr>"
    using new try_new_Inr[of ?cols ?sch "length indices"] by simp
  moreover have "map (\<lambda>i. map (\<lambda>c. snd c ! i) ?cols) [0..<length indices] =
      map (\<lambda>i. key_tuple cols i @ [Cell True (VInt (int i))]) indices"
    by (rule nth_equalityI) (auto simp: key_tuple_def split_def)
  ultimately show thesis using that[OF lens _ sort] cols by simp
qed

lemma sorted_remdups_adj_strict: "sorted xs \<Longrightarrow> sorted_wrt (<) (remdups_adj (xs :: int list))"
  by (induction xs rule: remdups_adj.induct) (auto simp: le_less)

text \<open>A base row matches a probe tuple when its leading key columns compare equal to the probe's
  elements, cast to the columns' types.\<close>

definition row_matches :: "index_lib \<Rightarrow> (data_type \<times> cell list) list \<Rightarrow> nat \<Rightarrow> string list \<Rightarrow> bool" where
  "row_matches lib cols i probe =
     (\<forall>k < length probe. \<exists>cell cmp. il_cast lib (fst (cols ! k)) (probe ! k) = Inr cell \<and>
        il_comparator lib (fst (cols ! k)) = Inr cmp \<and> cmp (snd (cols ! k) ! i) cell = Equal)"

lemma probe_columns_nth:
  assumes "rmap (\<lambda>k. let t = field_type (sch ! k) in
      rbind (rmap (\<lambda>tuple. il_cast lib t (tuple ! k)) probes) (\<lambda>probe_col.
      rbind (il_comparator lib t) (\<lambda>cmp. Inr (cmp, probe_col)))) [0..<a] = Inr pcs"
  shows "length pcs = a"
    and "k < a \<Longrightarrow> il_comparator lib (field_type (sch ! k)) = Inr (fst (pcs ! k))"
    and "k < a \<Longrightarrow> q < length probes \<Longrightarrow> il_cast lib (field_type (sch ! k)) (probes ! q ! k) = Inr (snd (pcs ! k) ! q)"
proof -
  show "length pcs = a" using rmap_length[OF assms] by simp
  assume k: "k < a"
  then obtain probe_col where c: "rmap (\<lambda>tuple. il_cast lib (field_type (sch ! k)) (tuple ! k)) probes = Inr probe_col"
    "il_comparator lib (field_type (sch ! k)) = Inr (fst (pcs ! k))" "snd (pcs ! k) = probe_col"
    using rmap_nth[OF assms, of k] by (cases "pcs ! k") (auto simp: Let_def rbind_eq_Inr)
  then show "il_comparator lib (field_type (sch ! k)) = Inr (fst (pcs ! k))" by simp
  show "il_cast lib (field_type (sch ! k)) (probes ! q ! k) = Inr (snd (pcs ! k) ! q)" if "q < length probes"
    using rmap_nth[OF c(1) that] c(3) by simp
qed

lemma sidecar_mono:
  assumes sound: "index_lib_sound lib" and sort: "il_lexsort lib cols = Inr indices"
    and lens: "\<forall>c \<in> set cols. length (snd c) = n" "cols \<noteq> []"
    and all: "rmap (\<lambda>c. il_comparator lib (fst c)) cols = Inr ds"
    and cs: "length cs \<le> length cols" "take (length cs) ds = cs" "length ps = length cs"
  shows "mono_cmp (\<lambda>j. cmp_row_to_probe cs (key_tuple cols (indices ! j)) ps) (length indices)"
proof -
  have sorted: "sorted_wrt (\<lambda>i j. cmp_row_to_probe ds (key_tuple cols i) (key_tuple cols j) \<noteq> Greater) indices"
    using sound sort lens all unfolding index_lib_sound_def key_tuple_def by blast
  have len: "length ds = length cols" using rmap_length[OF all] .
  have "comparator_sound c" if "c \<in> set ds" for c
  proof -
    obtain k where "k < length cols" "c = ds ! k" using \<open>c \<in> set ds\<close> len by (metis in_set_conv_nth)
    then have "il_comparator lib (fst (cols ! k)) = Inr c" using rmap_nth[OF all] by simp
    then show ?thesis using sound unfolding index_lib_sound_def by blast
  qed
  then have "\<forall>c \<in> set cs. comparator_sound c" using cs(2) by (metis in_set_takeD)
  note lex = lex_rank_mono[OF this _ cs(2) _ _ cs(3)]
  show ?thesis unfolding mono_cmp_def
  proof (intro allI impI)
    fix i j assume ij: "i \<le> j \<and> j < length indices"
    show "comparison_rank (cmp_row_to_probe cs (key_tuple cols (indices ! i)) ps) \<le>
        comparison_rank (cmp_row_to_probe cs (key_tuple cols (indices ! j)) ps)"
    proof (cases "i = j")
      case False
      then have "cmp_row_to_probe ds (key_tuple cols (indices ! i)) (key_tuple cols (indices ! j)) \<noteq> Greater"
        using sorted_wrt_nth_less[OF sorted, of i j] ij by simp
      then show ?thesis using lex cs(1) len by (simp add: key_tuple_def)
    qed simp
  qed
qed

text \<open>One probe of a seek.\<close>

lemma seek_probe_run:
  assumes mono: "mono_cmp (\<lambda>j. cmp_row_to_probe cs (key_tuple cols (indices ! j)) ps) (length indices)"
    and rows: "rows sidecar = map (\<lambda>i. key_tuple cols i @ [Cell True (VInt (int i))]) indices"
    and indices: "set indices = {..<n}"
    and cs: "length cs = length probe" "length ps = length probe" "length probe \<le> length cols"
    and casts: "\<forall>k < length probe. il_comparator lib (fst (cols ! k)) = Inr (cs ! k) \<and>
        il_cast lib (fst (cols ! k)) (probe ! k) = Inr (ps ! k)"
  shows "set (map (\<lambda>i. offset_value (rows sidecar ! i ! length cols))
      (equal_run (\<lambda>row. cmp_row_to_probe cs (rows sidecar ! row) ps)
        (lower_bound (\<lambda>row. cmp_row_to_probe cs (rows sidecar ! row) ps) 0 (length indices)) (length indices))) =
    {int i | i. i < n \<and> row_matches lib cols i probe}" (is "set (map ?off (equal_run ?f _ _)) = _")
proof -
  have f: "?f j = cmp_row_to_probe cs (key_tuple cols (indices ! j)) ps" if "j < length indices" for j
    using that cs by (simp add: rows cmp_row_extra key_tuple_def)
  have mono': "mono_cmp ?f (length indices)"
    using mono f by (simp add: mono_cmp_def)
  have matches: "?f j = Equal \<longleftrightarrow> row_matches lib cols (indices ! j) probe" if "j < length indices" for j
    unfolding f[OF that] row_matches_def
    using cs casts by (subst cmp_row_Equal) (auto simp: key_tuple_def)
  have off: "?off j = int (indices ! j)" if "j < length indices" for j
    using that by (simp add: rows key_tuple_def nth_append offset_value_def)
  have "set (map ?off (equal_run ?f (lower_bound ?f 0 (length indices)) (length indices))) =
      ?off ` {j. j < length indices \<and> ?f j = Equal}"
    using search_finds_equal[OF mono'] by (simp only: set_map)
  also have "\<dots> = {int (indices ! j) | j. j < length indices \<and> row_matches lib cols (indices ! j) probe}"
    using off matches by (auto simp: image_def)
  also have "\<dots> = {int i | i. i \<in> set indices \<and> row_matches lib cols i probe}"
    by (auto simp: in_set_conv_nth)
  also have "\<dots> = {int i | i. i < n \<and> row_matches lib cols i probe}"
    unfolding indices by simp
  finally show ?thesis .
qed

section \<open>Properties\<close>

text \<open>C19: seeking the index of a segment finds exactly the matching rows.  On the artifact built
  from the key columns of a segment, a successful seek returns, in increasing order and without
  duplicates, the positions of the base rows whose leading key columns equal one of the probe
  tuples: no match is missed by the binary search and nothing else is returned.\<close>

theorem seek_finds_matches:
  assumes sound: "index_lib_sound lib" and build: "build_segment_index lib cols = Inr sidecar"
    and comparable: "\<forall>c \<in> set cols. is_ok (il_comparator lib (fst c))"
    and seek: "seek_row_offsets lib sidecar probes = Inr out"
  shows "set out = {int i | i. \<exists>probe \<in> set probes. i < length (snd (hd cols)) \<and> row_matches lib cols i probe} \<and>
    sorted_wrt (<) out"
proof -
  obtain n indices where lens: "\<forall>c \<in> set cols. length (snd c) = n" "cols \<noteq> []"
    and sort: "il_lexsort lib cols = Inr indices"
    and sch: "schema sidecar = segment_index_schema (map fst cols)"
    and rows: "rows sidecar = map (\<lambda>i. key_tuple cols i @ [Cell True (VInt (int i))]) indices"
    by (rule build_segment_index_rows[OF build])
  have n: "length (snd (hd cols)) = n" using lens by simp
  have "rmap (\<lambda>c. il_comparator lib (fst c)) cols = Inr (map (\<lambda>c. projr (il_comparator lib (fst c))) cols)"
    using comparable by (intro rmap_pure) (auto simp: is_ok_iff)
  then obtain ds where ds: "rmap (\<lambda>c. il_comparator lib (fst c)) cols = Inr ds" by blast
  have perm: "mset indices = mset [0..<n]"
    using sound lens sort ds unfolding index_lib_sound_def by blast
  have set_indices: "set indices = {..<n}" using mset_eq_setD[OF perm] by (simp add: atLeast0LessThan)
  show ?thesis
  proof (cases "probes = [] \<or> num_rows sidecar = 0")
    case True
    then have "out = []" "probes = [] \<or> n = 0"
      using seek rows set_indices by (auto simp: seek_row_offsets_def num_rows_def Let_def split: list.splits if_splits)
    then show ?thesis using n by auto
  next
    case False
    then obtain first rest where probes: "probes = first # rest" by (cases probes) auto
    let ?a = "length first"
    have arity: "\<forall>p \<in> set probes. length p = ?a" "?a \<le> length cols" "0 < ?a"
      using seek probes sch by (auto simp: seek_row_offsets_def Let_def split: if_splits)
    obtain pcs where pcs: "rmap (\<lambda>k. let t = field_type (schema sidecar ! k) in
        rbind (rmap (\<lambda>tuple. il_cast lib t (tuple ! k)) probes) (\<lambda>probe_col.
        rbind (il_comparator lib t) (\<lambda>cmp. Inr (cmp, probe_col)))) [0..<?a] = Inr pcs"
      and out: "out = remdups_adj (sort (concat (map (\<lambda>q. map (\<lambda>i. offset_value (rows sidecar ! i ! length cols))
          (equal_run (\<lambda>row. cmp_row_to_probe (map fst pcs) (rows sidecar ! row) (map (\<lambda>c. snd c ! q) pcs))
             (lower_bound (\<lambda>row. cmp_row_to_probe (map fst pcs) (rows sidecar ! row) (map (\<lambda>c. snd c ! q) pcs)) 0 (num_rows sidecar))
             (num_rows sidecar))) [0..<length probes])))"
      using seek probes sch False by (auto simp: seek_row_offsets_def Let_def rbind_eq_Inr split: if_splits)
    note col = probe_columns_nth[OF pcs]
    have rowlen: "num_rows sidecar = length indices" using rows by (simp add: num_rows_def)
    have cs: "map fst pcs = take ?a ds" "length (map fst pcs) = ?a" "length ds = length cols"
    proof -
      show len: "length ds = length cols" using rmap_length[OF ds] .
      have "fst (pcs ! k) = ds ! k" if "k < ?a" for k
        using col(2)[OF that] rmap_nth[OF ds, of k] that arity(2) sch by simp
      then show "map fst pcs = take ?a ds" using col(1) arity(2) len by (intro nth_equalityI) auto
      show "length (map fst pcs) = ?a" using col(1) by simp
    qed
    have mono: "mono_cmp (\<lambda>j. cmp_row_to_probe (map fst pcs) (key_tuple cols (indices ! j)) (map (\<lambda>c. snd c ! q) pcs)) (length indices)" for q
      by (rule sidecar_mono[OF sound sort lens ds]) (use cs col(1) arity(2) in auto)
    have run: "set (map (\<lambda>i. offset_value (rows sidecar ! i ! length cols))
        (equal_run (\<lambda>row. cmp_row_to_probe (map fst pcs) (rows sidecar ! row) (map (\<lambda>c. snd c ! q) pcs))
          (lower_bound (\<lambda>row. cmp_row_to_probe (map fst pcs) (rows sidecar ! row) (map (\<lambda>c. snd c ! q) pcs)) 0 (length indices)) (length indices))) =
        {int i | i. i < n \<and> row_matches lib cols i (probes ! q)}" if "q < length probes" for q
    proof -
      have "length (probes ! q) = ?a" using arity(1) that by simp
      then show ?thesis
        using col sch arity(2) that
        by (intro seek_probe_run[OF mono rows set_indices]) auto
    qed
    have "set out = (\<Union>q < length probes. {int i | i. i < n \<and> row_matches lib cols i (probes ! q)})"
      using run unfolding out rowlen by (simp add: atLeast0LessThan)
    also have "\<dots> = {int i | i. \<exists>probe \<in> set probes. i < n \<and> row_matches lib cols i probe}"
      by (auto simp: in_set_conv_nth intro: nth_mem)
    finally show ?thesis using n out sorted_remdups_adj_strict by simp
  qed
qed

text \<open>C20: the seek fails fast on malformed probes and only then.  Against the artifact of a
  segment it returns an error exactly when the probe tuples are of mixed arity, of arity zero or
  above the number of key columns, or, when the segment has rows, when some probe element cannot
  be cast to the type of its key column.\<close>

theorem seek_rejects_malformed_probes:
  assumes build: "build_segment_index lib cols = Inr sidecar"
    and comparable: "\<forall>c \<in> set cols. is_ok (il_comparator lib (fst c))"
  shows "is_ok (seek_row_offsets lib sidecar probes) \<longleftrightarrow>
    (\<exists>a. 1 \<le> a \<and> a \<le> length cols \<and> (\<forall>p \<in> set probes. length p = a) \<and>
      (rows sidecar = [] \<or> (\<forall>p \<in> set probes. \<forall>k < a. is_ok (il_cast lib (fst (cols ! k)) (p ! k)))))"
proof -
  have sch: "schema sidecar = segment_index_schema (map fst cols)" and ne: "cols \<noteq> []"
    by (rule build_segment_index_rows[OF build], blast)+
  have sch_ne: "schema sidecar \<noteq> []" using arg_cong[OF sch, of length] by auto
  show ?thesis
  proof (cases probes)
    case Nil
    have "1 \<le> length cols" using ne by (cases cols) auto
    then show ?thesis using Nil sch_ne by (auto simp: seek_row_offsets_def Let_def)
  next
    case (Cons first rest)
    let ?a = "length first"
    have casts: "is_ok (rmap (\<lambda>k. let t = field_type (schema sidecar ! k) in
        rbind (rmap (\<lambda>tuple. il_cast lib t (tuple ! k)) probes) (\<lambda>probe_col.
        rbind (il_comparator lib t) (\<lambda>cmp. Inr (cmp, probe_col)))) [0..<?a]) \<longleftrightarrow>
      (\<forall>p \<in> set probes. \<forall>k < ?a. is_ok (il_cast lib (fst (cols ! k)) (p ! k)))" (is "is_ok ?casts = _") if "?a \<le> length cols"
    proof -
      have "is_ok (let t = field_type (schema sidecar ! k) in
          rbind (rmap (\<lambda>tuple. il_cast lib t (tuple ! k)) probes) (\<lambda>probe_col.
          rbind (il_comparator lib t) (\<lambda>cmp. Inr (cmp, probe_col)))) \<longleftrightarrow>
          is_ok (rmap (\<lambda>tuple. il_cast lib (fst (cols ! k)) (tuple ! k)) probes)" if "k < ?a" for k
      proof -
        have "cols ! k \<in> set cols" using that \<open>?a \<le> length cols\<close> by simp
        then obtain cmp where "il_comparator lib (fst (cols ! k)) = Inr cmp"
          using comparable unfolding is_ok_iff by blast
        moreover have "field_type (schema sidecar ! k) = fst (cols ! k)"
          using that \<open>?a \<le> length cols\<close> sch by simp
        ultimately show ?thesis by (auto simp: is_ok_iff rbind_eq_Inr Let_def)
      qed
      then show ?thesis unfolding is_ok_rmap by auto
    qed
    have last: "field_type (schema sidecar ! length cols) = DtInt64"
      unfolding sch using index_schema_simps(3)[of "map fst cols"] by simp
    have seek: "is_ok (seek_row_offsets lib sidecar probes) \<longleftrightarrow>
        (\<forall>p \<in> set probes. length p = ?a) \<and> ?a \<noteq> 0 \<and> ?a \<le> length cols \<and> (num_rows sidecar = 0 \<or> is_ok ?casts)"
      using Cons sch sch_ne last
      by (auto simp: seek_row_offsets_def Let_def is_ok_iff rbind_eq_Inr)
    have "num_rows sidecar = 0 \<longleftrightarrow> rows sidecar = []" by (simp add: num_rows_def)
    then show ?thesis using seek casts Cons by (auto simp: Suc_le_eq)
  qed
qed

section \<open>A concrete kernel\<close>

text \<open>Byte strings in lexicographic order, nulls last.\<close>

definition bytes_key :: "cell \<Rightarrow> bool \<times> string" where
  "bytes_key c = (\<not> cell_valid c, case cell_data c of VBytes s \<Rightarrow> s | _ \<Rightarrow> [])"

definition bytes_compare :: "cell \<Rightarrow> cell \<Rightarrow> comparison" where
  "bytes_compare a b =
     (if bytes_key a < bytes_key b then Less else if bytes_key a = bytes_key b then Equal else Greater)"

definition bytes_lib :: index_lib where
  "bytes_lib =
     \<lparr>il_lexsort = (\<lambda>cols. Inr (sort_key (\<lambda>i. map (\<lambda>c. bytes_key (snd c ! i)) cols)
        [0..<(case cols of [] \<Rightarrow> 0 | c # _ \<Rightarrow> length (snd c))])),
      il_cast = (\<lambda>t s. Inr (Cell True (VBytes s))),
      il_comparator = (\<lambda>t. Inr bytes_compare)\<rparr>"

lemma bytes_compare_sound: "comparator_sound bytes_compare"
  by (auto simp: comparator_sound_def bytes_compare_def split: if_splits)

lemma bytes_compare_lex:
  "length xs = length ys \<Longrightarrow> cmp_row_to_probe (replicate (length xs) bytes_compare) xs ys \<noteq> Greater \<longleftrightarrow>
   map bytes_key xs \<le> map bytes_key ys"
  by (induction xs ys rule: list_induct2) (auto simp: bytes_compare_def)

lemma bytes_lib_sound: "index_lib_sound bytes_lib"
  unfolding index_lib_sound_def
proof (intro conjI allI impI)
  fix t c assume "il_comparator bytes_lib t = Inr c"
  then show "comparator_sound c" using bytes_compare_sound by (simp add: bytes_lib_def)
next
  fix cols :: "(data_type \<times> cell list) list" and n indices cs
  assume a: "cols \<noteq> [] \<and> (\<forall>c \<in> set cols. length (snd c) = n) \<and> il_lexsort bytes_lib cols = Inr indices \<and>
    rmap (\<lambda>c. il_comparator bytes_lib (fst c)) cols = Inr cs"
  then have ind: "indices = sort_key (\<lambda>i. map (\<lambda>c. bytes_key (snd c ! i)) cols) [0..<n]"
    by (cases cols) (auto simp: bytes_lib_def)
  then show "mset indices = mset [0..<n]" by simp
  have "rmap (\<lambda>c. il_comparator bytes_lib (fst c)) cols = Inr (map (\<lambda>_. bytes_compare) cols)"
    by (rule rmap_pure) (simp add: bytes_lib_def)
  then have cs: "cs = replicate (length cols) bytes_compare" using a by (simp add: map_replicate_const)
  have lex: "cmp_row_to_probe cs (map (\<lambda>c. snd c ! i) cols) (map (\<lambda>c. snd c ! j) cols) \<noteq> Greater \<longleftrightarrow>
      map (\<lambda>c. bytes_key (snd c ! i)) cols \<le> map (\<lambda>c. bytes_key (snd c ! j)) cols" for i j
    using bytes_compare_lex[of "map (\<lambda>c. snd c ! i) cols" "map (\<lambda>c. snd c ! j) cols"] cs by (simp add: comp_def)
  have "sorted (map (\<lambda>i. map (\<lambda>c. bytes_key (snd c ! i)) cols) indices)" unfolding ind by simp
  then show "sorted_wrt (\<lambda>i j. cmp_row_to_probe cs (map (\<lambda>c. snd c ! i) cols) (map (\<lambda>c. snd c ! j) cols) \<noteq> Greater) indices"
    unfolding lex by (simp add: sorted_wrt_map)
qed

definition name_columns :: "(data_type \<times> cell list) list" where
  "name_columns =
     [(DtUtf8, map (\<lambda>s. Cell True (VBytes s)) [''s2'', ''s1'', ''s1'']),
      (DtUtf8, [Cell True (VBytes ''t1''), Cell False (VBytes []), Cell True (VBytes ''t1'')])]"

lemma name_columns_comparable: "\<forall>c \<in> set name_columns. is_ok (il_comparator bytes_lib (fst c))"
  by (simp add: bytes_lib_def)

theorem seek_finds_matches_witness:
  "\<exists>sidecar out. build_segment_index bytes_lib name_columns = Inr sidecar \<and>
     seek_row_offsets bytes_lib sidecar [[''s1''], [''s1'']] = Inr out \<and> 1 \<in> set out \<and> sorted_wrt (<) out"
proof -
  have "is_ok (rbind (build_segment_index bytes_lib name_columns) (\<lambda>s. seek_row_offsets bytes_lib s [[''s1''], [''s1'']]))"
    by code_simp
  then obtain sidecar out where run: "build_segment_index bytes_lib name_columns = Inr sidecar"
    "seek_row_offsets bytes_lib sidecar [[''s1''], [''s1'']] = Inr out"
    by (auto simp: is_ok_iff rbind_eq_Inr)
  note found = seek_finds_matches[OF bytes_lib_sound run(1) name_columns_comparable run(2)]
  have "row_matches bytes_lib name_columns 1 [''s1'']"
    by (simp add: row_matches_def bytes_lib_def name_columns_def bytes_compare_def bytes_key_def)
  moreover have "1 < length (snd (hd name_columns))" by (simp add: name_columns_def)
  ultimately have "int 1 \<in> set out" using found by auto
  then show ?thesis using run found by auto
qed

theorem seek_rejects_malformed_probes_witness:
  "\<exists>sidecar. build_segment_index bytes_lib name_columns = Inr sidecar \<and>
     \<not> is_ok (seek_row_offsets bytes_lib sidecar [[''s1''], [''s1'', ''t1'']]) \<and>
     is_ok (seek_row_offsets bytes_lib sidecar [[''s1'', ''t1'']])"
proof -
  have "is_ok (build_segment_index bytes_lib name_columns)" by code_simp
  then obtain sidecar where run: "build_segment_index bytes_lib name_columns = Inr sidecar" by (auto simp: is_ok_iff)
  note rejects = seek_rejects_malformed_probes[OF run name_columns_comparable]
  have "\<not> is_ok (seek_row_offsets bytes_lib sidecar [[''s1''], [''s1'', ''t1'']])" unfolding rejects by auto
  moreover have "is_ok (seek_row_offsets bytes_lib sidecar [[''s1'', ''t1'']])"
    unfolding rejects by (intro exI[of _ 2]) (simp add: bytes_lib_def name_columns_def)
  ultimately show ?thesis using run by blast
qed

end
