(* ===== verification/Compact_Plan.thy ===== *)
theory Compact_Plan
  imports Penca_Prelude
begin

text \<open>
  Planning of one compaction wave over the unsealed persist segments of a scope
  (\<open>penca-api/src/lifecycle/compact_plan.rs\<close>).  The plan names rows by their index.  The order in
  which a \<open>HashMap\<close> yields its keys is the parameter \<open>iter\<close>.
\<close>

section \<open>The plan\<close>

record wave_plan =
  input_indices :: "nat list"
  seal_indices :: "nat list"

text \<open>The loop's variables.\<close>

record wave_state =
  ws_current :: "nat list"
  ws_size :: int
  ws_seals :: "nat list"
  ws_folded :: nat

definition wave_start :: "nat list \<Rightarrow> int \<Rightarrow> wave_state" where
  "wave_start active_indices active_size =
     \<lparr>ws_current = active_indices, ws_size = active_size, ws_seals = [], ws_folded = 0\<rparr>"

fun fold_uncompacted :: "int \<Rightarrow> int list \<Rightarrow> nat list \<Rightarrow> wave_state \<Rightarrow> wave_state" where
  "fold_uncompacted max_segment_bytes sizes [] st = st"
| "fold_uncompacted max_segment_bytes sizes (idx # rest) st =
     (let s = sizes ! idx in
      if ws_size st + s \<le> max_segment_bytes then
        fold_uncompacted max_segment_bytes sizes rest
          (st\<lparr>ws_current := ws_current st @ [idx], ws_size := ws_size st + s, ws_folded := ws_folded st + 1\<rparr>)
      else if ws_folded st \<ge> 1 \<and> length (ws_current st) \<ge> 2 then st
      else if ws_current st \<noteq> [] then
        fold_uncompacted max_segment_bytes sizes rest
          (st\<lparr>ws_seals := ws_seals st @ ws_current st, ws_current := [idx], ws_size := s, ws_folded := 1\<rparr>)
      else
        fold_uncompacted max_segment_bytes sizes rest (st\<lparr>ws_seals := ws_seals st @ [idx]\<rparr>))"

definition active_uri :: "(string list \<Rightarrow> string list) \<Rightarrow> string list \<Rightarrow> string option" where
  "active_uri iter uris = find (\<lambda>u. count_list uris u > 1) (iter uris)"

definition active_rows :: "string option \<Rightarrow> string list \<Rightarrow> nat list" where
  "active_rows active uris =
     (case active of None \<Rightarrow> [] | Some u \<Rightarrow> filter (\<lambda>i. uris ! i = u) [0..<length uris])"

definition uncompacted_rows :: "nat list \<Rightarrow> string list \<Rightarrow> nat list" where
  "uncompacted_rows active_indices uris = filter (\<lambda>i. i \<notin> set active_indices) [0..<length uris]"

definition plan_wave_projected :: "(string list \<Rightarrow> string list) \<Rightarrow> string list \<Rightarrow> int list \<Rightarrow> int \<Rightarrow>
    wave_plan option" where
  "plan_wave_projected iter uris sizes max_segment_bytes =
     (if uris = [] then None
      else
        let active_indices = active_rows (active_uri iter uris) uris;
            active_size = sum_list (map (\<lambda>i. sizes ! i) active_indices);
            st = fold_uncompacted max_segment_bytes sizes (uncompacted_rows active_indices uris)
                   (wave_start active_indices active_size) in
        if ws_folded st = 0 \<and> ws_seals st = [] then None
        else if length (ws_current st) < 2 then
          if ws_seals st = [] then None
          else Some \<lparr>input_indices = [], seal_indices = ws_seals st\<rparr>
        else Some \<lparr>input_indices = ws_current st, seal_indices = ws_seals st\<rparr>)"

definition plan_wave :: "(string list \<Rightarrow> string list) \<Rightarrow> ('row \<Rightarrow> string) \<Rightarrow> ('row \<Rightarrow> int option) \<Rightarrow>
    'row list \<Rightarrow> int \<Rightarrow> wave_plan option" where
  "plan_wave iter uri_of size_of scope max_segment_bytes =
     plan_wave_projected iter (map uri_of scope)
       (map (\<lambda>r. case size_of r of None \<Rightarrow> 0 | Some s \<Rightarrow> s) scope) max_segment_bytes"

section \<open>The fold loop\<close>

text \<open>\<open>A\<close> are the rows of the active file and \<open>before\<close> the uncompacted rows walked so far.\<close>

definition wave_inv :: "int \<Rightarrow> int list \<Rightarrow> nat list \<Rightarrow> nat list \<Rightarrow> wave_state \<Rightarrow> bool" where
  "wave_inv m sizes A before st =
     (mset (ws_current st @ ws_seals st) = mset (A @ before) \<and>
      ws_size st = sum_list (map (\<lambda>i. sizes ! i) (ws_current st)) \<and>
      (ws_folded st = 0 \<longrightarrow>
         ws_current st = A \<and> (A \<noteq> [] \<longrightarrow> before = []) \<and> ws_seals st = before \<and> (\<forall>i \<in> set before. sizes ! i > m)) \<and>
      (ws_folded st \<noteq> 0 \<longrightarrow>
         ws_current st \<noteq> [] \<and> (length (ws_current st) \<ge> 2 \<longrightarrow> ws_size st \<le> m) \<and>
         (set A \<subseteq> set (ws_current st) \<or> set A \<subseteq> set (ws_seals st)) \<and>
         (ws_seals st = [] \<longrightarrow> ws_current st = A @ before \<and> ws_size st \<le> m \<and> before \<noteq> [])))"

lemma wave_inv_start: "wave_inv m sizes A [] (wave_start A (sum_list (map (\<lambda>i. sizes ! i) A)))"
  by (simp add: wave_inv_def wave_start_def)

lemma wave_inv_step:
  assumes inv: "wave_inv m sizes A before st"
    and todo: "fold_uncompacted m sizes (idx # rest) st = out"
  shows "(\<exists>st'. wave_inv m sizes A (before @ [idx]) st' \<and> fold_uncompacted m sizes rest st' = out) \<or>
    out = st \<and> ws_folded st \<ge> 1 \<and> length (ws_current st) \<ge> 2"
proof -
  let ?fold = "st\<lparr>ws_current := ws_current st @ [idx], ws_size := ws_size st + sizes ! idx, ws_folded := ws_folded st + 1\<rparr>"
  let ?restart = "st\<lparr>ws_seals := ws_seals st @ ws_current st, ws_current := [idx], ws_size := sizes ! idx, ws_folded := 1\<rparr>"
  let ?alone = "st\<lparr>ws_seals := ws_seals st @ [idx]\<rparr>"
  consider (fits) "ws_size st + sizes ! idx \<le> m"
    | (full) "\<not> ws_size st + sizes ! idx \<le> m" "ws_folded st \<ge> 1 \<and> length (ws_current st) \<ge> 2"
    | (restart) "\<not> ws_size st + sizes ! idx \<le> m" "\<not> (ws_folded st \<ge> 1 \<and> length (ws_current st) \<ge> 2)" "ws_current st \<noteq> []"
    | (alone) "\<not> ws_size st + sizes ! idx \<le> m" "ws_current st = []"
    by blast
  then show ?thesis
  proof cases
    case fits
    have "wave_inv m sizes A (before @ [idx]) ?fold"
      using inv fits by (cases "ws_folded st = 0") (auto simp: wave_inv_def)
    then show ?thesis using todo fits by (auto simp: Let_def)
  next
    case full
    then show ?thesis using todo by (auto simp: Let_def)
  next
    case restart
    have "set A \<subseteq> set (ws_seals st) \<union> set (ws_current st)"
      using inv by (cases "ws_folded st = 0") (auto simp: wave_inv_def)
    then have "wave_inv m sizes A (before @ [idx]) ?restart"
      using inv restart by (auto simp: wave_inv_def add.commute[of "mset (ws_seals st)"])
    then show ?thesis using todo restart by (auto simp: Let_def)
  next
    case alone
    then have "ws_folded st = 0" "A = []" "ws_size st = 0" using inv by (auto simp: wave_inv_def)
    then have "wave_inv m sizes A (before @ [idx]) ?alone"
      using inv alone by (auto simp: wave_inv_def)
    then show ?thesis using todo alone \<open>ws_folded st = 0\<close> by (auto simp: Let_def)
  qed
qed

lemma fold_uncompacted_inv:
  assumes "wave_inv m sizes A before st" and "fold_uncompacted m sizes todo st = out"
  shows "\<exists>walked rest. todo = walked @ rest \<and> wave_inv m sizes A (before @ walked) out \<and>
    (rest \<noteq> [] \<longrightarrow> ws_folded out \<ge> 1 \<and> length (ws_current out) \<ge> 2)"
  using assms
proof (induction todo arbitrary: before st)
  case Nil
  then show ?case by auto
next
  case (Cons idx todo)
  from wave_inv_step[OF Cons.prems] show ?case
  proof
    assume "\<exists>st'. wave_inv m sizes A (before @ [idx]) st' \<and> fold_uncompacted m sizes todo st' = out"
    then obtain walked rest where w: "todo = walked @ rest" "wave_inv m sizes A ((before @ [idx]) @ walked) out"
      "rest \<noteq> [] \<longrightarrow> ws_folded out \<ge> 1 \<and> length (ws_current out) \<ge> 2"
      using Cons.IH by blast
    then show ?thesis by (intro exI[of _ "idx # walked"] exI[of _ rest]) simp
  next
    assume "out = st \<and> ws_folded st \<ge> 1 \<and> length (ws_current st) \<ge> 2"
    then show ?thesis using Cons.prems(1) by (intro exI[of _ "[]"] exI[of _ "idx # todo"]) simp
  qed
qed

section \<open>Active and uncompacted rows\<close>

text \<open>A hash map yields each of its keys.\<close>

definition iterates_keys :: "(string list \<Rightarrow> string list) \<Rightarrow> bool" where
  "iterates_keys iter = (\<forall>uris. set (iter uris) = set uris)"

text \<open>At most one file is shared by several unsealed rows.\<close>

definition one_active :: "string list \<Rightarrow> bool" where
  "one_active uris = (\<forall>u v. count_list uris u > 1 \<longrightarrow> count_list uris v > 1 \<longrightarrow> u = v)"

definition active_of :: "(string list \<Rightarrow> string list) \<Rightarrow> string list \<Rightarrow> nat list" where
  "active_of iter uris = active_rows (active_uri iter uris) uris"

lemma count_list_index: "count_list xs u = length (filter (\<lambda>i. xs ! i = u) [0..<length xs])"
proof -
  have "filter (\<lambda>x. u = x) (map ((!) xs) [0..<length xs]) = map ((!) xs) (filter (\<lambda>i. xs ! i = u) [0..<length xs])"
    by (simp only: filter_map comp_def eq_commute)
  then show ?thesis by (simp add: count_list_eq_length_filter map_nth)
qed

lemma count_list_set: "count_list uris u > 1 \<Longrightarrow> u \<in> set uris"
  by (metis count_notin less_nat_zero_code)

lemma active_of_length:
  assumes "active_of iter uris \<noteq> []"
  shows "length (active_of iter uris) \<ge> 2"
proof -
  obtain u where u: "active_uri iter uris = Some u" using assms by (auto simp: active_of_def active_rows_def split: option.splits)
  then have "count_list uris u > 1" by (auto simp: active_uri_def find_Some_iff)
  then show ?thesis using u by (simp add: active_of_def active_rows_def count_list_index)
qed

lemma active_of_distinct [simp]: "distinct (active_of iter uris)"
  by (simp add: active_of_def active_rows_def split: option.splits)

lemma active_of_bound: "i \<in> set (active_of iter uris) \<Longrightarrow> i < length uris"
  by (auto simp: active_of_def active_rows_def split: option.splits)

text \<open>Under the invariant the active rows are exactly the rows of a shared file.\<close>

lemma active_of_shared:
  assumes iter: "iterates_keys iter" and one: "one_active uris" and i: "i < length uris"
  shows "i \<in> set (active_of iter uris) \<longleftrightarrow> count_list uris (uris ! i) > 1"
proof (cases "active_uri iter uris")
  case None
  then have "\<forall>u \<in> set uris. \<not> count_list uris u > 1"
    using iter by (auto simp: active_uri_def find_None_iff iterates_keys_def)
  then show ?thesis using None i by (simp add: active_of_def active_rows_def)
next
  case (Some u)
  then have "count_list uris u > 1" by (auto simp: active_uri_def find_Some_iff)
  then have "count_list uris (uris ! i) > 1 \<longleftrightarrow> uris ! i = u" using one by (auto simp: one_active_def)
  then show ?thesis using Some i by (auto simp: active_of_def active_rows_def)
qed

section \<open>What a plan contains\<close>

text \<open>The loop's final state behind a plan.\<close>

lemma plan_wave_state:
  assumes "uris \<noteq> []"
  obtains st walked rest where
    "wave_inv m sizes (active_of iter uris) walked st"
    "uncompacted_rows (active_of iter uris) uris = walked @ rest"
    "rest \<noteq> [] \<longrightarrow> ws_folded st \<ge> 1 \<and> length (ws_current st) \<ge> 2"
    "plan_wave_projected iter uris sizes m =
       (if ws_folded st = 0 \<and> ws_seals st = [] \<or> length (ws_current st) < 2 \<and> ws_seals st = [] then None
        else if length (ws_current st) < 2 then Some \<lparr>input_indices = [], seal_indices = ws_seals st\<rparr>
        else Some \<lparr>input_indices = ws_current st, seal_indices = ws_seals st\<rparr>)"
proof -
  let ?A = "active_of iter uris"
  define st where "st = fold_uncompacted m sizes (uncompacted_rows ?A uris) (wave_start ?A (sum_list (map (\<lambda>i. sizes ! i) ?A)))"
  obtain walked rest where "uncompacted_rows ?A uris = walked @ rest" "wave_inv m sizes ?A walked st"
    "rest \<noteq> [] \<longrightarrow> ws_folded st \<ge> 1 \<and> length (ws_current st) \<ge> 2"
    using fold_uncompacted_inv[OF wave_inv_start st_def[symmetric]] by auto
  moreover have "plan_wave_projected iter uris sizes m =
       (if ws_folded st = 0 \<and> ws_seals st = [] \<or> length (ws_current st) < 2 \<and> ws_seals st = [] then None
        else if length (ws_current st) < 2 then Some \<lparr>input_indices = [], seal_indices = ws_seals st\<rparr>
        else Some \<lparr>input_indices = ws_current st, seal_indices = ws_seals st\<rparr>)"
    using assms by (simp add: plan_wave_projected_def st_def active_of_def Let_def)
  ultimately show thesis using that by blast
qed

lemma uncompacted_rows_mem: "i \<in> set (uncompacted_rows A uris) \<longleftrightarrow> i < length uris \<and> i \<notin> set A"
  by (auto simp: uncompacted_rows_def)

lemma wave_inv_indices:
  assumes inv: "wave_inv m sizes (active_of iter uris) walked st"
    and split: "uncompacted_rows (active_of iter uris) uris = walked @ rest"
  shows "distinct (ws_current st @ ws_seals st)"
    and "\<forall>i \<in> set (ws_current st @ ws_seals st). i < length uris"
proof -
  have m: "mset (ws_current st @ ws_seals st) = mset (active_of iter uris @ walked)" using inv by (simp add: wave_inv_def)
  have "distinct (walked @ rest)" by (simp add: uncompacted_rows_def flip: split)
  moreover have "set walked \<inter> set (active_of iter uris) = {}"
    using arg_cong[OF split, of set] uncompacted_rows_mem by fastforce
  ultimately have "distinct (active_of iter uris @ walked)" by auto
  then show "distinct (ws_current st @ ws_seals st)" using mset_eq_imp_distinct_iff[OF m] by blast
  have "set (active_of iter uris @ walked) \<subseteq> {..<length uris}"
    using arg_cong[OF split, of set] uncompacted_rows_mem[of _ "active_of iter uris" uris]
      active_of_bound[of _ iter uris] by fastforce
  then show "\<forall>i \<in> set (ws_current st @ ws_seals st). i < length uris"
    using mset_eq_setD[OF m] by auto
qed

text \<open>Every plan: valid disjoint indices, at least two inputs that fit the cap or none, and the
  active file folded whole, sealed whole, or absent.\<close>

lemma plan_wave_shape:
  assumes plan: "plan_wave_projected iter uris sizes m = Some p"
  shows "distinct (input_indices p @ seal_indices p)"
    and "\<forall>i \<in> set (input_indices p @ seal_indices p). i < length uris"
    and "input_indices p \<noteq> [] \<longrightarrow> length (input_indices p) \<ge> 2 \<and>
      sum_list (map (\<lambda>i. sizes ! i) (input_indices p)) \<le> m"
    and "set (active_of iter uris) \<subseteq> set (input_indices p) \<or> set (active_of iter uris) \<subseteq> set (seal_indices p)"
    and "seal_indices p = [] \<longrightarrow> (\<exists>i \<in> set (input_indices p). i \<notin> set (active_of iter uris))"
proof -
  have "uris \<noteq> []" using plan by (auto simp: plan_wave_projected_def)
  then obtain st walked rest where st: "wave_inv m sizes (active_of iter uris) walked st"
    "uncompacted_rows (active_of iter uris) uris = walked @ rest"
    and eq: "plan_wave_projected iter uris sizes m =
       (if ws_folded st = 0 \<and> ws_seals st = [] \<or> length (ws_current st) < 2 \<and> ws_seals st = [] then None
        else if length (ws_current st) < 2 then Some \<lparr>input_indices = [], seal_indices = ws_seals st\<rparr>
        else Some \<lparr>input_indices = ws_current st, seal_indices = ws_seals st\<rparr>)"
    by (rule plan_wave_state)
  note ix = wave_inv_indices[OF st]
  have A2: "active_of iter uris = [] \<or> length (active_of iter uris) \<ge> 2" using active_of_length by blast
  consider (short) "length (ws_current st) < 2" "ws_seals st \<noteq> []" "p = \<lparr>input_indices = [], seal_indices = ws_seals st\<rparr>"
    | (full) "length (ws_current st) \<ge> 2" "\<not> (ws_folded st = 0 \<and> ws_seals st = [])"
        "p = \<lparr>input_indices = ws_current st, seal_indices = ws_seals st\<rparr>"
    using plan unfolding eq by (auto split: if_splits)
  note cases_p = this
  show "distinct (input_indices p @ seal_indices p)" using cases_p ix(1) by cases auto
  show "\<forall>i \<in> set (input_indices p @ seal_indices p). i < length uris" using cases_p ix(2) by cases auto
  have folded: "ws_folded st \<noteq> 0" if "length (ws_current st) \<ge> 2" "\<not> (ws_folded st = 0 \<and> ws_seals st = [])"
    using st(1) that by (auto simp: wave_inv_def)
  show "input_indices p \<noteq> [] \<longrightarrow> length (input_indices p) \<ge> 2 \<and>
      sum_list (map (\<lambda>i. sizes ! i) (input_indices p)) \<le> m"
    using cases_p st(1) folded by cases (auto simp: wave_inv_def)
  show "set (active_of iter uris) \<subseteq> set (input_indices p) \<or> set (active_of iter uris) \<subseteq> set (seal_indices p)"
    using cases_p
  proof cases
    case short
    have "\<not> set (active_of iter uris) \<subseteq> set (ws_current st)" if "active_of iter uris \<noteq> []"
    proof
      assume sub: "set (active_of iter uris) \<subseteq> set (ws_current st)"
      have "card (set (active_of iter uris)) \<ge> 2" using A2 that by (simp add: distinct_card)
      moreover have "card (set (active_of iter uris)) \<le> length (ws_current st)"
        using card_mono[OF _ sub] card_length[of "ws_current st"] by simp
      ultimately show False using short(1) by simp
    qed
    then show ?thesis using short st(1) by (cases "ws_folded st = 0") (auto simp: wave_inv_def)
  next
    case full
    then show ?thesis using st(1) folded by (auto simp: wave_inv_def)
  qed
  show "seal_indices p = [] \<longrightarrow> (\<exists>i \<in> set (input_indices p). i \<notin> set (active_of iter uris))"
    using cases_p
  proof cases
    case full
    have "set walked \<inter> set (active_of iter uris) = {}"
      using arg_cong[OF st(2), of set] uncompacted_rows_mem by fastforce
    moreover have "walked \<noteq> [] \<and> ws_current st = active_of iter uris @ walked" if "ws_seals st = []"
      using st(1) folded[OF full(1,2)] that by (auto simp: wave_inv_def)
    ultimately show ?thesis using full(3) by (cases walked) auto
  qed simp
qed

section \<open>Waves\<close>

text \<open>The effect of a wave on the unsealed rows of a scope, as pairs of file and size: sealed rows
  leave the scope and the inputs move to the merged file with their new sizes.\<close>

definition apply_wave :: "string \<Rightarrow> (nat \<Rightarrow> int) \<Rightarrow> wave_plan \<Rightarrow> (string \<times> int) list \<Rightarrow> (string \<times> int) list" where
  "apply_wave merged sz p scope =
     map (\<lambda>i. if i \<in> set (input_indices p) then (merged, sz i) else scope ! i)
       (filter (\<lambda>i. i \<notin> set (seal_indices p)) [0..<length scope])"

inductive wave_run :: "(string list \<Rightarrow> string list) \<Rightarrow> int \<Rightarrow> nat \<Rightarrow> (string \<times> int) list \<Rightarrow> (string \<times> int) list \<Rightarrow> bool"
  for iter m where
  no_wave: "wave_run iter m 0 scope scope"
| one_wave: "plan_wave iter fst (Some \<circ> snd) scope m = Some p \<Longrightarrow> merged \<notin> fst ` set scope \<Longrightarrow>
    wave_run iter m n (apply_wave merged sz p scope) scope' \<Longrightarrow> wave_run iter m (Suc n) scope scope'"

text \<open>Work left: the unsealed rows, and once more those not in a shared file.\<close>

definition wave_work :: "(string \<times> int) list \<Rightarrow> nat" where
  "wave_work scope =
     length scope + card {i. i < length scope \<and> count_list (map fst scope) (fst (scope ! i)) \<le> 1}"

lemma plan_wave_pairs:
  "plan_wave iter fst (Some \<circ> snd) scope m = plan_wave_projected iter (map fst scope) (map snd scope) m"
  by (simp add: plan_wave_def)

lemma count_list_two:
  "count_list xs u > 1 \<longleftrightarrow> (\<exists>i j. i < j \<and> j < length xs \<and> xs ! i = u \<and> xs ! j = u)"
proof -
  have "count_list xs u = card {i. i < length xs \<and> xs ! i = u}"
    using distinct_card[of "filter (\<lambda>i. xs ! i = u) [0..<length xs]"] by (simp add: count_list_index)
  also have "\<dots> > 1 \<longleftrightarrow> (\<exists>i j. i \<noteq> j \<and> {i, j} \<subseteq> {i. i < length xs \<and> xs ! i = u})"
  proof -
    have "finite {i. i < length xs \<and> xs ! i = u}" by simp
    from card_le_Suc0_iff_eq[OF this] show ?thesis unfolding One_nat_def not_le[symmetric] by blast
  qed
  also have "\<dots> \<longleftrightarrow> (\<exists>i j. i < j \<and> j < length xs \<and> xs ! i = u \<and> xs ! j = u)"
  proof
    assume "\<exists>i j. i \<noteq> j \<and> {i, j} \<subseteq> {i. i < length xs \<and> xs ! i = u}"
    then obtain i j where "i < j \<or> j < i" "i < length xs" "xs ! i = u" "j < length xs" "xs ! j = u" by (auto simp: neq_iff)
    then show "\<exists>i j. i < j \<and> j < length xs \<and> xs ! i = u \<and> xs ! j = u" by blast
  next
    assume "\<exists>i j. i < j \<and> j < length xs \<and> xs ! i = u \<and> xs ! j = u"
    then obtain i j where "i < j" "j < length xs" "xs ! i = u" "xs ! j = u" by blast
    then show "\<exists>i j. i \<noteq> j \<and> {i, j} \<subseteq> {i. i < length xs \<and> xs ! i = u}" by (intro exI[of _ i] exI[of _ j]) auto
  qed
  finally show ?thesis .
qed

lemma count_list_twoI:
  assumes "i \<noteq> j" "i < length xs" "j < length xs" "xs ! i = u" "xs ! j = u"
  shows "count_list xs u > 1"
proof -
  have "i < j \<or> j < i" using assms(1) by auto
  then show ?thesis unfolding count_list_two using assms by blast
qed

text \<open>A row of a file other than the merged one stays alone after a wave.\<close>

lemma kept_rows_alone:
  assumes iter: "iterates_keys iter" and one: "one_active (map fst scope)"
    and plan: "plan_wave iter fst (Some \<circ> snd) scope m = Some p"
    and i: "i < length scope" "i \<notin> set (input_indices p)" "i \<notin> set (seal_indices p)"
  shows "count_list (map fst scope) (fst (scope ! i)) \<le> 1"
proof -
  have "i \<notin> set (active_of iter (map fst scope))"
    using plan_wave_shape(4)[OF plan[unfolded plan_wave_pairs]] i by blast
  then show ?thesis using active_of_shared[OF iter one, of i] i(1) by simp
qed

lemma apply_wave_nth:
  assumes "k < length (apply_wave merged sz p scope)"
  obtains i where "i = filter (\<lambda>i. i \<notin> set (seal_indices p)) [0..<length scope] ! k"
    "i < length scope" "i \<notin> set (seal_indices p)"
    "apply_wave merged sz p scope ! k = (if i \<in> set (input_indices p) then (merged, sz i) else scope ! i)"
proof -
  let ?js = "filter (\<lambda>i. i \<notin> set (seal_indices p)) [0..<length scope]"
  have "?js ! k \<in> set ?js" using assms by (intro nth_mem) (simp add: apply_wave_def)
  then show thesis using assms by (intro that[of "?js ! k"]) (auto simp: apply_wave_def)
qed

lemma wave_keeps_one_active:
  assumes iter: "iterates_keys iter" and one: "one_active (map fst scope)"
    and plan: "plan_wave iter fst (Some \<circ> snd) scope m = Some p"
  shows "one_active (map fst (apply_wave merged sz p scope))"
proof -
  let ?after = "apply_wave merged sz p scope"
  let ?js = "filter (\<lambda>i. i \<notin> set (seal_indices p)) [0..<length scope]"
  have "u = merged" if two: "count_list (map fst ?after) u > 1" for u
  proof (rule ccontr)
    assume u: "u \<noteq> merged"
    obtain k l where kl: "k < l" "l < length ?after" "fst (?after ! k) = u" "fst (?after ! l) = u"
      using two unfolding count_list_two by auto
    obtain i where i: "i = ?js ! k" "i < length scope" "i \<notin> set (seal_indices p)"
      "?after ! k = (if i \<in> set (input_indices p) then (merged, sz i) else scope ! i)"
      using apply_wave_nth[of k merged sz p scope] kl by auto
    obtain j where j: "j = ?js ! l" "j < length scope"
      "?after ! l = (if j \<in> set (input_indices p) then (merged, sz j) else scope ! j)"
      using apply_wave_nth[of l merged sz p scope] kl by auto
    have "i \<noteq> j" unfolding i(1) j(1) using kl by (simp add: nth_eq_iff_index_eq apply_wave_def)
    moreover have "fst (scope ! i) = u" "fst (scope ! j) = u" "i \<notin> set (input_indices p)"
      using i(4) j(3) kl u by (auto split: if_splits)
    ultimately have "count_list (map fst scope) u > 1"
      using i(2) j(2) by (intro count_list_twoI[of i j]) simp_all
    then show False
      using kept_rows_alone[OF iter one plan i(2) \<open>i \<notin> set (input_indices p)\<close> i(3)] \<open>fst (scope ! i) = u\<close> by simp
  qed
  then show ?thesis unfolding one_active_def by blast
qed

lemma length_apply_wave:
  assumes "\<forall>i \<in> set (seal_indices p). i < length scope" and "distinct (seal_indices p)"
  shows "length (apply_wave merged sz p scope) + length (seal_indices p) = length scope"
proof -
  have "length (filter (\<lambda>i. i \<in> set (seal_indices p)) [0..<length scope]) = card (set (seal_indices p))"
    using assms(1) by (subst distinct_card[symmetric]) (auto intro!: arg_cong[where f = card])
  then show ?thesis
    using sum_length_filter_compl[of "\<lambda>i. i \<in> set (seal_indices p)" "[0..<length scope]"] assms(2)
    by (simp add: apply_wave_def distinct_card)
qed

lemma wave_work_decreases:
  assumes iter: "iterates_keys iter" and one: "one_active (map fst scope)"
    and plan: "plan_wave iter fst (Some \<circ> snd) scope m = Some p"
  shows "wave_work (apply_wave merged sz p scope) < wave_work scope"
proof -
  let ?after = "apply_wave merged sz p scope"
  let ?js = "filter (\<lambda>i. i \<notin> set (seal_indices p)) [0..<length scope]"
  let ?alone = "{i. i < length scope \<and> count_list (map fst scope) (fst (scope ! i)) \<le> 1}"
  let ?alone' = "{k. k < length ?after \<and> count_list (map fst ?after) (fst (?after ! k)) \<le> 1}"
  note shape = plan_wave_shape[OF plan[unfolded plan_wave_pairs]]
  have len: "length ?after + length (seal_indices p) = length scope" using shape(1,2) by (intro length_apply_wave) auto
  have inj: "inj_on (\<lambda>k. ?js ! k) ?alone'"
    by (intro inj_onI) (simp add: nth_eq_iff_index_eq apply_wave_def)
  have image: "?js ! k \<in> ?alone - set (input_indices p)" if k: "k \<in> ?alone'" for k
  proof -
    obtain i where i: "i = ?js ! k" "i < length scope" "i \<notin> set (seal_indices p)"
      "?after ! k = (if i \<in> set (input_indices p) then (merged, sz i) else scope ! i)"
      using apply_wave_nth[of k merged sz p scope] k by auto
    have "i \<notin> set (input_indices p)"
    proof
      assume mem: "i \<in> set (input_indices p)"
      then have "length (input_indices p) \<ge> 2" using shape(3) by auto
      then obtain j where j: "j \<in> set (input_indices p)" "j \<noteq> i"
        using shape(1) mem by (cases "input_indices p"; cases "tl (input_indices p)") auto
      then have "j \<in> set ?js" using shape(1,2) by auto
      then obtain l where l: "l < length ?js" "?js ! l = j" unfolding in_set_conv_nth by blast
      then have "fst (?after ! l) = merged" "fst (?after ! k) = merged" "l \<noteq> k" "l < length ?after"
        using j i mem by (auto simp: apply_wave_def)
      then have "count_list (map fst ?after) merged > 1"
        using k by (intro count_list_twoI[of l k]) simp_all
      then show False using k \<open>fst (?after ! k) = merged\<close> by simp
    qed
    then show ?thesis using kept_rows_alone[OF iter one plan i(2) _ i(3)] i by simp
  qed
  have le: "card ?alone' \<le> card (?alone - set (input_indices p))"
    using image by (intro card_inj_on_le[OF inj]) auto
  show ?thesis
  proof (cases "seal_indices p = []")
    case True
    then obtain i where i: "i \<in> set (input_indices p)" "i \<notin> set (active_of iter (map fst scope))" using shape(5) by blast
    then have "i \<in> ?alone" using active_of_shared[OF iter one, of i] shape(2) by auto
    then have "card (?alone - set (input_indices p)) < card ?alone" using i(1) by (intro psubset_card_mono) auto
    then show ?thesis using le len True by (simp add: wave_work_def)
  next
    case False
    have "card (?alone - set (input_indices p)) \<le> card ?alone" by (intro card_mono) auto
    then show ?thesis using le len False by (cases "seal_indices p") (auto simp: wave_work_def)
  qed
qed

lemma wave_run_work:
  assumes "wave_run iter m n scope scope'" and "iterates_keys iter" and "one_active (map fst scope)"
  shows "n + wave_work scope' \<le> wave_work scope \<and> one_active (map fst scope')"
  using assms
proof (induction rule: wave_run.induct)
  case (no_wave scope)
  then show ?case by simp
next
  case (one_wave scope p merged n sz scope')
  then show ?case
    using wave_work_decreases[OF one_wave.prems(1) one_wave.prems(2) one_wave.hyps(1), of merged sz]
      wave_keeps_one_active[OF one_wave.prems(1) one_wave.prems(2) one_wave.hyps(1), of merged sz] by fastforce
qed

lemma wave_work_bound: "wave_work scope \<le> 2 * length scope"
proof -
  have "card {i. i < length scope \<and> count_list (map fst scope) (fst (scope ! i)) \<le> 1} \<le> card {..<length scope}"
    by (intro card_mono) auto
  then show ?thesis by (simp add: wave_work_def)
qed

section \<open>When no wave is planned\<close>

lemma plan_projected_none:
  assumes "uris \<noteq> []"
  shows "plan_wave_projected iter uris sizes m = None \<longleftrightarrow>
    uncompacted_rows (active_of iter uris) uris = [] \<or>
    active_of iter uris = [] \<and> (\<exists>i. uncompacted_rows (active_of iter uris) uris = [i] \<and> sizes ! i \<le> m)"
    (is "?none \<longleftrightarrow> ?todo = [] \<or> ?single")
proof
  assume none: ?none
  obtain st walked rest where st: "wave_inv m sizes (active_of iter uris) walked st" "?todo = walked @ rest"
    "rest \<noteq> [] \<longrightarrow> ws_folded st \<ge> 1 \<and> length (ws_current st) \<ge> 2"
    and eq: "plan_wave_projected iter uris sizes m =
       (if ws_folded st = 0 \<and> ws_seals st = [] \<or> length (ws_current st) < 2 \<and> ws_seals st = [] then None
        else if length (ws_current st) < 2 then Some \<lparr>input_indices = [], seal_indices = ws_seals st\<rparr>
        else Some \<lparr>input_indices = ws_current st, seal_indices = ws_seals st\<rparr>)"
    using assms by (rule plan_wave_state)
  have seals: "ws_seals st = []" "ws_folded st = 0 \<or> length (ws_current st) < 2"
    using none unfolding eq by (auto split: if_splits)
  then have rest: "rest = []" using st(3) by auto
  show "?todo = [] \<or> ?single"
  proof (cases "ws_folded st = 0")
    case True
    then show ?thesis using st(1,2) seals rest by (auto simp: wave_inv_def)
  next
    case False
    then have cur: "ws_current st = active_of iter uris @ walked" "walked \<noteq> []" "ws_size st \<le> m"
      "ws_size st = sum_list (map (\<lambda>i. sizes ! i) (ws_current st))"
      using st(1) seals by (auto simp: wave_inv_def)
    then have "length (active_of iter uris @ walked) < 2" using seals False by simp
    then have "active_of iter uris = []" and "\<exists>i. walked = [i]"
      using cur(2) active_of_length[of iter uris] by (cases walked; fastforce)+
    then show ?thesis using cur rest st(2) by auto
  qed
next
  assume "?todo = [] \<or> ?single"
  then show ?none
    using assms by (auto simp: plan_wave_projected_def wave_start_def Let_def simp flip: active_of_def)
qed

lemma all_rows_shared:
  assumes iter: "iterates_keys iter" and one: "one_active (map uri_of scope)" and ne: "scope \<noteq> []"
  shows "uncompacted_rows (active_of iter (map uri_of scope)) (map uri_of scope) = [] \<longleftrightarrow>
    length scope \<ge> 2 \<and> (\<forall>r \<in> set scope. uri_of r = uri_of (hd scope))" (is "?none \<longleftrightarrow> ?shared")
proof
  assume none: ?none
  have all: "count_list (map uri_of scope) (uri_of (scope ! i)) > 1" if "i < length scope" for i
    using none uncompacted_rows_mem[of i "active_of iter (map uri_of scope)" "map uri_of scope"]
      active_of_shared[OF iter one, of i] that by auto
  then have same: "uri_of (scope ! i) = uri_of (hd scope)" if "i < length scope" for i
    using one that ne unfolding one_active_def by (metis hd_conv_nth length_greater_0_conv)
  have "length scope \<ge> 2" using all[of 0] ne count_le_length[of "map uri_of scope" "uri_of (scope ! 0)"] by simp
  then show ?shared using same by (metis in_set_conv_nth)
next
  assume sh: ?shared
  have "i \<in> set (active_of iter (map uri_of scope))" if i: "i < length scope" for i
  proof -
    have "\<exists>j. i \<noteq> j \<and> j < length scope" using sh by (intro exI[of _ "if i = 0 then 1 else 0"]) auto
    then obtain j where j: "i \<noteq> j" "j < length scope" by blast
    have "uri_of (scope ! j) = uri_of (scope ! i)" using sh i j nth_mem by metis
    then have "count_list (map uri_of scope) (uri_of (scope ! i)) > 1"
      using i j by (intro count_list_twoI[of i j]) simp_all
    then show ?thesis using active_of_shared[OF iter one, of i] i by simp
  qed
  then show ?none by (auto simp: uncompacted_rows_def filter_empty_conv)
qed

section \<open>Correctness of the plan\<close>

definition row_size :: "('row \<Rightarrow> int option) \<Rightarrow> 'row \<Rightarrow> int" where
  "row_size size_of r = (case size_of r of None \<Rightarrow> 0 | Some s \<Rightarrow> s)"

text \<open>C24: every planned wave makes progress within the cap.  Its indices are valid and name each
  row at most once; it merges at least two rows whose sizes add up to at most the cap, or none, and
  then it seals a row; and the rows of a shared file are merged together or sealed together.\<close>

theorem wave_plan_progress:
  assumes plan: "plan_wave iter uri_of size_of scope m = Some p"
    and iter: "iterates_keys iter" and one: "one_active (map uri_of scope)"
  shows "distinct (input_indices p @ seal_indices p) \<and>
    (\<forall>i \<in> set (input_indices p @ seal_indices p). i < length scope) \<and>
    (input_indices p = [] \<longrightarrow> seal_indices p \<noteq> []) \<and>
    (input_indices p \<noteq> [] \<longrightarrow> length (input_indices p) \<ge> 2 \<and>
       sum_list (map (\<lambda>i. row_size size_of (scope ! i)) (input_indices p)) \<le> m) \<and>
    (\<forall>i j. i < j \<and> j < length scope \<and> uri_of (scope ! i) = uri_of (scope ! j) \<longrightarrow>
       {i, j} \<subseteq> set (input_indices p) \<or> {i, j} \<subseteq> set (seal_indices p))"
proof -
  let ?sizes = "map (row_size size_of) scope"
  have proj: "plan_wave_projected iter (map uri_of scope) ?sizes m = Some p"
    using plan unfolding plan_wave_def row_size_def[abs_def] .
  note shape = plan_wave_shape[OF proj]
  have bound: "\<forall>i \<in> set (input_indices p). i < length scope" using shape(2) by simp
  have sizes: "map (\<lambda>i. ?sizes ! i) (input_indices p) = map (\<lambda>i. row_size size_of (scope ! i)) (input_indices p)"
    using bound by simp
  have shared: "{i, j} \<subseteq> set (active_of iter (map uri_of scope))"
    if ij: "i < j" "j < length scope" "uri_of (scope ! i) = uri_of (scope ! j)" for i j
  proof -
    have "count_list (map uri_of scope) (uri_of (scope ! j)) > 1"
      using ij by (intro count_list_twoI[of i j]) auto
    then show ?thesis using active_of_shared[OF iter one, of i] active_of_shared[OF iter one, of j] ij by simp
  qed
  have together: "{i, j} \<subseteq> set (input_indices p) \<or> {i, j} \<subseteq> set (seal_indices p)"
    if "i < j" "j < length scope" "uri_of (scope ! i) = uri_of (scope ! j)" for i j
    using shared[OF that] shape(4) by blast
  show ?thesis using shape(1,2,3,5) together unfolding sizes by auto
qed


lemma wave_runs_stop:
  assumes "iterates_keys iter" "one_active (map fst scope)"
  shows "\<exists>n scope'. wave_run iter m n scope scope' \<and> plan_wave iter fst (Some \<circ> snd) scope' m = None"
  using assms(2)
proof (induction "wave_work scope" arbitrary: scope rule: less_induct)
  case less
  show ?case
  proof (cases "plan_wave iter fst (Some \<circ> snd) scope m")
    case None
    then show ?thesis by (blast intro: wave_run.no_wave)
  next
    case (Some p)
    obtain merged :: string where "merged \<notin> fst ` set scope"
      using ex_new_if_finite[OF infinite_UNIV_listI, of "fst ` set scope"] by auto
    then show ?thesis
      using less.hyps[OF wave_work_decreases[OF assms(1) less.prems Some, of merged "\<lambda>_. 0"]
          wave_keeps_one_active[OF assms(1) less.prems Some]]
        wave_run.one_wave[OF Some] by blast
  qed
qed

text \<open>C26: compacting a scope terminates.  From \<open>n\<close> unsealed rows every sequence of waves has at most
  \<open>2 n\<close> waves, whatever the sizes of the merged slices; a sequence that is not finished can be
  continued; and when no wave is left the unsealed rows share one file or are a single row within
  the cap.\<close>

theorem waves_drain:
  assumes iter: "iterates_keys iter" and one: "one_active (map fst scope)"
    and run: "wave_run iter m n scope scope'"
  shows "n \<le> 2 * length scope \<and> one_active (map fst scope') \<and>
    (\<exists>k final. wave_run iter m k scope' final \<and> n + k \<le> 2 * length scope \<and>
       (length final \<le> 1 \<or> (\<forall>r \<in> set final. fst r = fst (hd final))) \<and>
       plan_wave iter fst (Some \<circ> snd) final m = None)"
proof -
  have work: "n + wave_work scope' \<le> wave_work scope" "one_active (map fst scope')"
    using wave_run_work[OF run iter one] by auto
  obtain k final where k: "wave_run iter m k scope' final" "plan_wave iter fst (Some \<circ> snd) final m = None"
    using wave_runs_stop[OF iter work(2)] by blast
  have final: "k + wave_work final \<le> wave_work scope'" "one_active (map fst final)"
    using wave_run_work[OF k(1) iter work(2)] by auto
  have "n + k \<le> 2 * length scope" using work(1) final(1) wave_work_bound[of scope] by linarith
  moreover have "length final \<le> 1 \<or> (\<forall>r \<in> set final. fst r = fst (hd final))"
    using k(2) plan_projected_none[of "map fst final" iter "map snd final" m] all_rows_shared[OF iter final(2)]
    by (cases "final = []") (auto simp: plan_wave_pairs uncompacted_rows_def dest!: arg_cong[of "[0..<length final]" _ length])
  ultimately show ?thesis using work k by (intro conjI) auto
qed

section \<open>Witnesses\<close>

text \<open>Two rows share the active file, two are fresh; the cap admits one of them.\<close>

definition sample_scope :: "(string \<times> int) list" where
  "sample_scope = [(''m'', 20), (''m'', 30), (''a'', 40), (''b'', 30)]"

lemma iterates_remdups: "iterates_keys remdups"
  by (simp add: iterates_keys_def)

lemma sample_scope_one: "one_active (map fst sample_scope)"
  by (auto simp: one_active_def sample_scope_def split: if_splits)

lemma sample_plan:
  "plan_wave remdups fst (Some \<circ> snd) sample_scope 100 = Some \<lparr>input_indices = [0, 1, 2], seal_indices = []\<rparr>"
  by code_simp

theorem wave_plan_progress_witness:
  "\<exists>p. plan_wave remdups fst (Some \<circ> snd) sample_scope 100 = Some p \<and> length (input_indices p) \<ge> 2 \<and>
    sum_list (map (\<lambda>i. row_size (Some \<circ> snd) (sample_scope ! i)) (input_indices p)) \<le> 100"
  using wave_plan_progress[OF sample_plan iterates_remdups sample_scope_one] sample_plan by auto


theorem waves_drain_witness:
  "\<exists>scope'. wave_run remdups 100 1 sample_scope scope' \<and> one_active (map fst scope')"
proof -
  let ?after = "apply_wave ''n'' (\<lambda>_. 30) \<lparr>input_indices = [0, 1, 2], seal_indices = []\<rparr> sample_scope"
  have "wave_run remdups 100 (Suc 0) sample_scope ?after"
    by (rule wave_run.one_wave[OF sample_plan, of "''n''" _ "\<lambda>_. 30"]) (simp_all add: sample_scope_def wave_run.no_wave)
  then show ?thesis using waves_drain[OF iterates_remdups sample_scope_one] by auto
qed

end
