(* ===== verification/Cold_Catalog.thy ===== *)
theory Cold_Catalog
  imports Segment_Packer Cold_Files
begin

text \<open>
  The cold-tier metadata of one catalog (\<open>penca-storage-meta/src/{persist,compact,snapshot,
  segment_index,purge}.rs\<close>, with the tables of \<open>penca-db/src/dialect/pg.rs\<close>).  A table is the list of its
  rows in scan order, of all branches; every statement restricts itself to the branch it is given.
  \<open>now\<close> is the value of SQL's \<open>now()\<close>, the start of the enclosing transaction.
\<close>

named_theorems catalog_ops \<open>the SQL statements as list functions\<close>

section \<open>Rows\<close>

record persist_row =
  pm_uuid :: uuid
  pm_branch :: uuid
  pm_table :: uuid
  pm_persisted_at :: int
  pm_seq :: "int option"
  pm_log_kind :: log_kind
  pm_commit :: "int option"

record persist_seg_row =
  ps_uuid :: uuid
  ps_persist :: uuid
  ps_branch :: uuid
  ps_table :: uuid
  ps_chunk_idx :: nat
  ps_min_tx :: int
  ps_max_tx :: int
  ps_min_seq :: int
  ps_max_seq :: int
  ps_uri :: string
  ps_offset :: "int option"
  ps_length :: "int option"
  ps_row_count :: int
  ps_format :: string
  ps_hash :: uuid
  ps_size :: "int option"
  ps_statistics :: "string option"
  ps_commit :: "int option"
  ps_sealed :: bool

record snapshot_row =
  sm_uuid :: uuid
  sm_branch :: uuid
  sm_table :: uuid
  sm_snapshotted_at :: int
  sm_seq :: int
  sm_durable :: bool
  sm_partition_keys :: "string list option"
  sm_clustering_keys :: "string list option"
  sm_commit :: "int option"

record snapshot_seg_row =
  ss_uuid :: uuid
  ss_snapshot :: uuid
  ss_branch :: uuid
  ss_table :: uuid
  ss_chunk_idx :: nat
  ss_uri :: string
  ss_offset :: int
  ss_length :: int
  ss_size :: "int option"
  ss_format :: string
  ss_hash :: uuid
  ss_statistics :: "string option"
  ss_row_count :: int
  ss_commit :: "int option"

record compact_row =
  cm_uri :: string
  cm_branch :: uuid
  cm_table :: uuid
  cm_commit :: "int option"

record snapshot_index_row =
  si_uuid :: uuid
  si_branch :: uuid
  si_snapshot :: uuid
  si_index :: "uuid option"
  si_key_columns :: "string list option"
  si_commit :: "int option"

record sidecar_row =
  sc_uuid :: uuid
  sc_branch :: uuid
  sc_segment :: uuid
  sc_snapshot_index :: uuid
  sc_uri :: string
  sc_offset :: int
  sc_length :: int
  sc_format :: string
  sc_size :: "int option"
  sc_statistics :: "string option"
  sc_hash :: uuid
  sc_commit :: "int option"

record purge_row =
  pu_uuid :: uuid
  pu_branch :: uuid
  pu_table :: uuid
  pu_commit_seq :: "int option"
  pu_aborted_seq :: "int option"
  pu_commit :: "int option"

record cold_catalog =
  cat_persists :: "persist_row list"
  cat_persist_segs :: "persist_seg_row list"
  cat_snapshots :: "snapshot_row list"
  cat_snapshot_segs :: "snapshot_seg_row list"
  cat_compacts :: "compact_row list"
  cat_snapshot_indexes :: "snapshot_index_row list"
  cat_sidecars :: "sidecar_row list"
  cat_purges :: "purge_row list"
  cat_delete_set :: "(string \<times> int) list"

definition empty_catalog :: cold_catalog where
  "empty_catalog = \<lparr>cat_persists = [], cat_persist_segs = [], cat_snapshots = [], cat_snapshot_segs = [],
     cat_compacts = [], cat_snapshot_indexes = [], cat_sidecars = [], cat_purges = [],
     cat_delete_set = []\<rparr>"

section \<open>Statements\<close>

definition sql_update :: "('r \<Rightarrow> bool) \<Rightarrow> ('r \<Rightarrow> 'r) \<Rightarrow> 'r list \<Rightarrow> 'r list" where
  "sql_update hit f tbl = map (\<lambda>r. if hit r then f r else r) tbl"

definition sql_delete :: "('r \<Rightarrow> bool) \<Rightarrow> 'r list \<Rightarrow> 'r list" where
  "sql_delete hit tbl = filter (\<lambda>r. \<not> hit r) tbl"

text \<open>\<open>INSERT ... ON CONFLICT ... DO UPDATE\<close>, with the conflicting rows given by \<open>hit\<close>.\<close>

definition sql_upsert :: "('r \<Rightarrow> bool) \<Rightarrow> ('r \<Rightarrow> 'r) \<Rightarrow> 'r \<Rightarrow> 'r list \<Rightarrow> 'r list" where
  "sql_upsert hit f r tbl = (if \<exists>x \<in> set tbl. hit x then sql_update hit f tbl else tbl @ [r])"

definition sql_max :: "int list \<Rightarrow> int option" where
  "sql_max xs = (if xs = [] then None else Some (Max (set xs)))"

text \<open>\<open>ORDER BY k DESC LIMIT 1\<close>: the first row with the greatest key.\<close>

definition sql_top :: "('r \<Rightarrow> 'k :: linorder) \<Rightarrow> 'r list \<Rightarrow> 'r option" where
  "sql_top k tbl = (if tbl = [] then None else find (\<lambda>r. k r = Max (k ` set tbl)) tbl)"

section \<open>Persist metadata\<close>

definition persist_key :: "uuid \<Rightarrow> uuid \<Rightarrow> persist_row \<Rightarrow> bool" where
  "persist_key branch u r = (pm_branch r = branch \<and> pm_uuid r = u)"

definition persist_seg_key :: "uuid \<Rightarrow> uuid \<Rightarrow> persist_seg_row \<Rightarrow> bool" where
  "persist_seg_key branch u r = (ps_branch r = branch \<and> ps_uuid r = u)"

definition insert_table_persist :: "uuid \<Rightarrow> uuid \<Rightarrow> uuid \<Rightarrow> int \<Rightarrow> log_kind \<Rightarrow> int option \<Rightarrow>
    cold_catalog \<Rightarrow> cold_catalog" where
  "insert_table_persist u branch table persisted_at kind seq cat =
     cat\<lparr>cat_persists := sql_upsert (persist_key branch u)
       (\<lambda>r. r\<lparr>pm_persisted_at := persisted_at, pm_log_kind := kind, pm_seq := seq\<rparr>)
       \<lparr>pm_uuid = u, pm_branch = branch, pm_table = table, pm_persisted_at = persisted_at, pm_seq = seq,
        pm_log_kind = kind, pm_commit = None\<rparr> (cat_persists cat)\<rparr>"

definition commit_table_persist :: "int \<Rightarrow> uuid \<Rightarrow> uuid \<Rightarrow> cold_catalog \<Rightarrow> cold_catalog" where
  "commit_table_persist now branch u cat =
     cat\<lparr>cat_persists := sql_update (persist_key branch u) (\<lambda>r. r\<lparr>pm_commit := Some now\<rparr>) (cat_persists cat)\<rparr>"

definition delete_uncommitted_table_persist :: "uuid \<Rightarrow> uuid \<Rightarrow> cold_catalog \<Rightarrow> cold_catalog" where
  "delete_uncommitted_table_persist branch u cat =
     cat\<lparr>cat_persists := sql_delete (\<lambda>r. persist_key branch u r \<and> pm_commit r = None) (cat_persists cat)\<rparr>"

definition committed_persists :: "uuid \<Rightarrow> uuid \<Rightarrow> cold_catalog \<Rightarrow> persist_row list" where
  "committed_persists branch table cat =
     filter (\<lambda>r. pm_branch r = branch \<and> pm_table r = table \<and> pm_commit r \<noteq> None) (cat_persists cat)"

definition latest_committed_table_persist_watermark :: "uuid \<Rightarrow> uuid \<Rightarrow> cold_catalog \<Rightarrow> int option" where
  "latest_committed_table_persist_watermark branch table cat =
     sql_max (map pm_persisted_at (committed_persists branch table cat))"

definition latest_committed_table_persist_seq_watermark :: "uuid \<Rightarrow> uuid \<Rightarrow> cold_catalog \<Rightarrow> int option" where
  "latest_committed_table_persist_seq_watermark branch table cat =
     sql_max (List.map_filter pm_seq (committed_persists branch table cat))"

definition insert_table_persist_segment :: "uuid \<Rightarrow> uuid \<Rightarrow> uuid \<Rightarrow> uuid \<Rightarrow> nat \<Rightarrow> int \<times> int \<Rightarrow> int \<times> int \<Rightarrow>
    string \<Rightarrow> int \<Rightarrow> string \<Rightarrow> string \<Rightarrow> uuid \<Rightarrow> cold_catalog \<Rightarrow> cold_catalog" where
  "insert_table_persist_segment branch table u persist chunk_idx tx_bounds seq_bounds uri row_count
       format_text statistics content_hash cat =
     cat\<lparr>cat_persist_segs := sql_upsert (persist_seg_key branch u)
       (\<lambda>r. r\<lparr>ps_uri := uri, ps_row_count := row_count, ps_format := format_text,
             ps_statistics := Some statistics, ps_hash := content_hash\<rparr>)
       \<lparr>ps_uuid = u, ps_persist = persist, ps_branch = branch, ps_table = table, ps_chunk_idx = chunk_idx,
        ps_min_tx = fst tx_bounds, ps_max_tx = snd tx_bounds, ps_min_seq = fst seq_bounds,
        ps_max_seq = snd seq_bounds, ps_uri = uri, ps_offset = None, ps_length = None,
        ps_row_count = row_count, ps_format = format_text, ps_hash = content_hash, ps_size = Some 0,
        ps_statistics = Some statistics, ps_commit = None, ps_sealed = False\<rparr> (cat_persist_segs cat)\<rparr>"

definition repoint_table_persist_segment :: "uuid \<Rightarrow> uuid \<Rightarrow> string \<Rightarrow> int \<Rightarrow> int \<Rightarrow> int \<Rightarrow> string \<Rightarrow> string \<Rightarrow>
    uuid \<Rightarrow> bool \<Rightarrow> cold_catalog \<Rightarrow> cold_catalog" where
  "repoint_table_persist_segment branch u uri off len size_bytes format_text statistics content_hash seal_now cat =
     cat\<lparr>cat_persist_segs := sql_update (persist_seg_key branch u)
       (\<lambda>r. r\<lparr>ps_uri := uri, ps_offset := Some off, ps_length := Some len, ps_size := Some size_bytes,
             ps_format := format_text, ps_statistics := Some statistics, ps_hash := content_hash,
             ps_sealed := (seal_now \<or> ps_sealed r)\<rparr>) (cat_persist_segs cat)\<rparr>"

definition update_table_persist_segment_size :: "uuid \<Rightarrow> uuid \<Rightarrow> int \<Rightarrow> cold_catalog \<Rightarrow> cold_catalog" where
  "update_table_persist_segment_size branch u size_bytes cat =
     cat\<lparr>cat_persist_segs := sql_update (persist_seg_key branch u) (\<lambda>r. r\<lparr>ps_size := Some size_bytes\<rparr>)
       (cat_persist_segs cat)\<rparr>"

definition commit_table_persist_segment :: "int \<Rightarrow> uuid \<Rightarrow> uuid \<Rightarrow> cold_catalog \<Rightarrow> cold_catalog" where
  "commit_table_persist_segment now branch u cat =
     cat\<lparr>cat_persist_segs := sql_update (persist_seg_key branch u) (\<lambda>r. r\<lparr>ps_commit := Some now\<rparr>)
       (cat_persist_segs cat)\<rparr>"

definition delete_uncommitted_table_persist_segment :: "uuid \<Rightarrow> uuid \<Rightarrow> cold_catalog \<Rightarrow> cold_catalog" where
  "delete_uncommitted_table_persist_segment branch u cat =
     cat\<lparr>cat_persist_segs := sql_delete (\<lambda>r. persist_seg_key branch u r \<and> ps_commit r = None)
       (cat_persist_segs cat)\<rparr>"

text \<open>\<open>INNER JOIN table_persist_metadata\<close>: the parent row of a segment, whether or not it is
  committed.\<close>

definition persist_parent :: "cold_catalog \<Rightarrow> persist_seg_row \<Rightarrow> persist_row option" where
  "persist_parent cat s = find (persist_key (ps_branch s) (ps_persist s)) (cat_persists cat)"

definition within_window :: "int option \<Rightarrow> int option \<Rightarrow> int \<Rightarrow> bool" where
  "within_window lo hi t =
     ((case lo of None \<Rightarrow> True | Some l \<Rightarrow> l \<le> t) \<and> (case hi of None \<Rightarrow> True | Some h \<Rightarrow> t < h))"

definition unsealed_in_window :: "uuid \<Rightarrow> int option \<Rightarrow> int option \<Rightarrow> persist_seg_row \<Rightarrow> bool" where
  "unsealed_in_window branch lo hi s =
     (ps_branch s = branch \<and> \<not> ps_sealed s \<and>
      (case ps_commit s of None \<Rightarrow> False | Some t \<Rightarrow> within_window lo hi t))"

definition unsealed_scopes :: "uuid \<Rightarrow> int option \<Rightarrow> int option \<Rightarrow> cold_catalog \<Rightarrow> (uuid \<times> log_kind) list" where
  "unsealed_scopes branch lo hi cat =
     remdups (List.map_filter (\<lambda>s. map_option (\<lambda>p. (ps_table s, pm_log_kind p)) (persist_parent cat s))
       (filter (unsealed_in_window branch lo hi) (cat_persist_segs cat)))"

definition list_unsealed_persist_scopes_on_branch :: "uuid \<Rightarrow> int option \<Rightarrow> int option \<Rightarrow> cold_catalog \<Rightarrow>
    (uuid \<times> log_kind) list" where
  "list_unsealed_persist_scopes_on_branch branch lo hi cat =
     sort_key (\<lambda>(t, k). (t, log_kind_as_str k)) (unsealed_scopes branch lo hi cat)"

definition list_unsealed_persist_scopes_on_table :: "uuid \<Rightarrow> uuid \<Rightarrow> int option \<Rightarrow> int option \<Rightarrow> cold_catalog \<Rightarrow>
    log_kind list" where
  "list_unsealed_persist_scopes_on_table branch table lo hi cat =
     sort_key log_kind_as_str (map snd (filter (\<lambda>(t, k). t = table) (unsealed_scopes branch lo hi cat)))"

definition enumerate_unsealed_persist_segments_for_scope :: "uuid \<Rightarrow> uuid \<Rightarrow> log_kind \<Rightarrow> int option \<Rightarrow> int option \<Rightarrow>
    cold_catalog \<Rightarrow> persist_seg_row list" where
  "enumerate_unsealed_persist_segments_for_scope branch table kind lo hi cat =
     sort_key (\<lambda>s. (ps_min_tx s, ps_chunk_idx s))
       (filter (\<lambda>s. unsealed_in_window branch lo hi s \<and> ps_table s = table \<and>
                map_option pm_log_kind (persist_parent cat s) = Some kind) (cat_persist_segs cat))"

definition get_table_persist_segments_for_branch :: "uuid \<Rightarrow> cold_catalog \<Rightarrow> (uuid \<times> string) list" where
  "get_table_persist_segments_for_branch branch cat =
     map (\<lambda>s. (ps_uuid s, ps_uri s)) (filter (\<lambda>s. ps_branch s = branch) (cat_persist_segs cat))"

definition get_table_persist_segments_for_tables :: "uuid \<Rightarrow> uuid list \<Rightarrow> cold_catalog \<Rightarrow> (uuid \<times> string) list" where
  "get_table_persist_segments_for_tables branch tables cat =
     map (\<lambda>s. (ps_uuid s, ps_uri s))
       (filter (\<lambda>s. ps_branch s = branch \<and> ps_table s \<in> set tables) (cat_persist_segs cat))"

definition delete_table_persist_segments_by_uuids :: "uuid \<Rightarrow> uuid list \<Rightarrow> cold_catalog \<Rightarrow> cold_catalog" where
  "delete_table_persist_segments_by_uuids branch uuids cat =
     cat\<lparr>cat_persist_segs := sql_delete (\<lambda>s. ps_branch s = branch \<and> ps_uuid s \<in> set uuids) (cat_persist_segs cat)\<rparr>"

section \<open>Compaction and the delete set\<close>

definition insert_compact_segment :: "uuid \<Rightarrow> uuid \<Rightarrow> string \<Rightarrow> cold_catalog \<Rightarrow> cold_catalog result" where
  "insert_compact_segment branch table uri cat =
     (if \<exists>r \<in> set (cat_compacts cat). cm_branch r = branch \<and> cm_uri r = uri
      then Inl (MetadataErr ''duplicate key in compact_segment_metadata'')
      else Inr (cat\<lparr>cat_compacts := cat_compacts cat @
             [\<lparr>cm_uri = uri, cm_branch = branch, cm_table = table, cm_commit = None\<rparr>]\<rparr>))"

definition commit_compact_segment :: "int \<Rightarrow> uuid \<Rightarrow> string \<Rightarrow> cold_catalog \<Rightarrow> cold_catalog" where
  "commit_compact_segment now branch uri cat =
     cat\<lparr>cat_compacts := sql_update (\<lambda>r. cm_branch r = branch \<and> cm_uri r = uri) (\<lambda>r. r\<lparr>cm_commit := Some now\<rparr>)
       (cat_compacts cat)\<rparr>"

definition seal_table_persist_segments_by_uuids :: "uuid \<Rightarrow> uuid list \<Rightarrow> cold_catalog \<Rightarrow> cold_catalog" where
  "seal_table_persist_segments_by_uuids branch uuids cat =
     (if uuids = [] then cat
      else cat\<lparr>cat_persist_segs := sql_update (\<lambda>s. ps_branch s = branch \<and> ps_uuid s \<in> set uuids)
             (\<lambda>s. s\<lparr>ps_sealed := True\<rparr>) (cat_persist_segs cat)\<rparr>)"

definition get_compact_segment_uris_for_branch :: "uuid \<Rightarrow> cold_catalog \<Rightarrow> string list" where
  "get_compact_segment_uris_for_branch branch cat =
     map cm_uri (filter (\<lambda>r. cm_branch r = branch) (cat_compacts cat))"

text \<open>One \<open>unnest\<close> statement; the callers pass distinct URIs.\<close>

definition insert_segment_delete_set_rows :: "int \<Rightarrow> string list \<Rightarrow> cold_catalog \<Rightarrow> cold_catalog" where
  "insert_segment_delete_set_rows now uris cat =
     cat\<lparr>cat_delete_set := fold (\<lambda>u. sql_upsert (\<lambda>d. fst d = u) (\<lambda>d. (u, now)) (u, now)) uris (cat_delete_set cat)\<rparr>"

definition segment_delete_set_referenced_predicate :: "bool \<Rightarrow> cold_catalog \<Rightarrow> string \<Rightarrow> bool" where
  "segment_delete_set_referenced_predicate committed_only cat uri =
     ((\<exists>s \<in> set (cat_snapshot_segs cat). ss_uri s = uri \<and> (committed_only \<longrightarrow> ss_commit s \<noteq> None)) \<or>
      (\<exists>s \<in> set (cat_sidecars cat). sc_uri s = uri \<and> (committed_only \<longrightarrow> sc_commit s \<noteq> None)) \<or>
      (\<exists>s \<in> set (cat_persist_segs cat). ps_uri s = uri \<and> (committed_only \<longrightarrow> ps_commit s \<noteq> None)))"

definition eligible_segment_delete_set_rows :: "int \<Rightarrow> int \<Rightarrow> cold_catalog \<Rightarrow> string list" where
  "eligible_segment_delete_set_rows now query_timeout cat =
     map fst (filter (\<lambda>(uri, written_at). written_at < now - query_timeout \<and>
       \<not> segment_delete_set_referenced_predicate False cat uri) (cat_delete_set cat))"

definition REAP_GRACE_MULTIPLE :: int where "REAP_GRACE_MULTIPLE = 10"

definition i64_saturating_mul :: "int \<Rightarrow> int \<Rightarrow> int" where
  "i64_saturating_mul a b = max i64_min (min i64_max (a * b))"

definition reap_referenced_segment_delete_set_rows :: "int \<Rightarrow> int \<Rightarrow> cold_catalog \<Rightarrow> cold_catalog \<times> nat" where
  "reap_referenced_segment_delete_set_rows now query_timeout cat =
     (let horizon = now - i64_saturating_mul query_timeout REAP_GRACE_MULTIPLE;
          hit = (\<lambda>(uri, written_at). written_at < horizon \<and> segment_delete_set_referenced_predicate True cat uri) in
      (cat\<lparr>cat_delete_set := sql_delete hit (cat_delete_set cat)\<rparr>, length (filter hit (cat_delete_set cat))))"

definition delete_segment_delete_set_row :: "string \<Rightarrow> cold_catalog \<Rightarrow> cold_catalog" where
  "delete_segment_delete_set_row uri cat =
     cat\<lparr>cat_delete_set := sql_delete (\<lambda>d. fst d = uri) (cat_delete_set cat)\<rparr>"

section \<open>Snapshot metadata\<close>

definition snapshot_key :: "uuid \<Rightarrow> uuid \<Rightarrow> snapshot_row \<Rightarrow> bool" where
  "snapshot_key branch u r = (sm_branch r = branch \<and> sm_uuid r = u)"

definition snapshot_seg_key :: "uuid \<Rightarrow> uuid \<Rightarrow> snapshot_seg_row \<Rightarrow> bool" where
  "snapshot_seg_key branch u r = (ss_branch r = branch \<and> ss_uuid r = u)"

definition insert_snapshot_metadata :: "uuid \<Rightarrow> uuid \<Rightarrow> uuid \<Rightarrow> int \<Rightarrow> string list \<Rightarrow> string list \<Rightarrow> int \<Rightarrow> bool \<Rightarrow>
    cold_catalog \<Rightarrow> cold_catalog" where
  "insert_snapshot_metadata branch table u snapshotted_at partition_keys clustering_keys seq durable cat =
     cat\<lparr>cat_snapshots := sql_upsert (snapshot_key branch u)
       (\<lambda>r. r\<lparr>sm_snapshotted_at := snapshotted_at, sm_partition_keys := Some partition_keys,
             sm_clustering_keys := Some clustering_keys, sm_seq := seq\<rparr>)
       \<lparr>sm_uuid = u, sm_branch = branch, sm_table = table, sm_snapshotted_at = snapshotted_at, sm_seq = seq,
        sm_durable = durable, sm_partition_keys = Some partition_keys, sm_clustering_keys = Some clustering_keys,
        sm_commit = None\<rparr> (cat_snapshots cat)\<rparr>"

definition last_durable_snapshot_at :: "uuid \<Rightarrow> uuid \<Rightarrow> cold_catalog \<Rightarrow> int option" where
  "last_durable_snapshot_at branch table cat =
     sql_max (map sm_snapshotted_at
       (filter (\<lambda>r. sm_branch r = branch \<and> sm_table r = table \<and> sm_durable r \<and> sm_commit r \<noteq> None) (cat_snapshots cat)))"

definition insert_snapshot_segment :: "uuid \<Rightarrow> uuid \<Rightarrow> uuid \<Rightarrow> uuid \<Rightarrow> nat \<Rightarrow> string \<Rightarrow> int \<Rightarrow> int \<Rightarrow> int \<Rightarrow> string \<Rightarrow>
    string \<Rightarrow> uuid \<Rightarrow> cold_catalog \<Rightarrow> cold_catalog" where
  "insert_snapshot_segment branch table u snapshot chunk_idx uri off len row_count format_text statistics
       content_hash cat =
     cat\<lparr>cat_snapshot_segs := sql_upsert (snapshot_seg_key branch u)
       (\<lambda>r. r\<lparr>ss_uri := uri, ss_offset := off, ss_length := len, ss_row_count := row_count,
             ss_format := format_text, ss_statistics := Some statistics, ss_hash := content_hash\<rparr>)
       \<lparr>ss_uuid = u, ss_snapshot = snapshot, ss_branch = branch, ss_table = table, ss_chunk_idx = chunk_idx,
        ss_uri = uri, ss_offset = off, ss_length = len, ss_size = Some 0, ss_format = format_text,
        ss_hash = content_hash, ss_statistics = Some statistics, ss_row_count = row_count,
        ss_commit = None\<rparr> (cat_snapshot_segs cat)\<rparr>"

definition update_snapshot_segment_size :: "uuid \<Rightarrow> uuid \<Rightarrow> int \<Rightarrow> cold_catalog \<Rightarrow> cold_catalog" where
  "update_snapshot_segment_size branch u size_bytes cat =
     cat\<lparr>cat_snapshot_segs := sql_update (snapshot_seg_key branch u) (\<lambda>r. r\<lparr>ss_size := Some size_bytes\<rparr>)
       (cat_snapshot_segs cat)\<rparr>"

definition commit_snapshot_segment :: "int \<Rightarrow> uuid \<Rightarrow> uuid \<Rightarrow> cold_catalog \<Rightarrow> cold_catalog" where
  "commit_snapshot_segment now branch u cat =
     cat\<lparr>cat_snapshot_segs := sql_update (snapshot_seg_key branch u) (\<lambda>r. r\<lparr>ss_commit := Some now\<rparr>)
       (cat_snapshot_segs cat)\<rparr>"

definition delete_uncommitted_snapshot_segment :: "uuid \<Rightarrow> uuid \<Rightarrow> cold_catalog \<Rightarrow> cold_catalog" where
  "delete_uncommitted_snapshot_segment branch u cat =
     cat\<lparr>cat_snapshot_segs := sql_delete (\<lambda>r. snapshot_seg_key branch u r \<and> ss_commit r = None)
       (cat_snapshot_segs cat)\<rparr>"

definition delete_uncommitted_snapshot_metadata :: "uuid \<Rightarrow> uuid \<Rightarrow> cold_catalog \<Rightarrow> cold_catalog" where
  "delete_uncommitted_snapshot_metadata branch u cat =
     cat\<lparr>cat_snapshots := sql_delete (\<lambda>r. snapshot_key branch u r \<and> sm_commit r = None) (cat_snapshots cat)\<rparr>"

definition commit_snapshot_metadata :: "int \<Rightarrow> uuid \<Rightarrow> uuid \<Rightarrow> cold_catalog \<Rightarrow> cold_catalog" where
  "commit_snapshot_metadata now branch u cat =
     cat\<lparr>cat_snapshots := sql_update (snapshot_key branch u) (\<lambda>r. r\<lparr>sm_commit := Some now\<rparr>) (cat_snapshots cat)\<rparr>"

definition get_snapshot_segments_for_branch :: "uuid \<Rightarrow> cold_catalog \<Rightarrow> (uuid \<times> string) list" where
  "get_snapshot_segments_for_branch branch cat =
     map (\<lambda>s. (ss_uuid s, ss_uri s)) (filter (\<lambda>s. ss_branch s = branch) (cat_snapshot_segs cat))"

definition snapshot_parent :: "cold_catalog \<Rightarrow> snapshot_seg_row \<Rightarrow> snapshot_row option" where
  "snapshot_parent cat s = find (snapshot_key (ss_branch s) (ss_snapshot s)) (cat_snapshots cat)"

definition get_snapshot_segments_for_table :: "uuid \<Rightarrow> uuid \<Rightarrow> cold_catalog \<Rightarrow> (uuid \<times> string) list" where
  "get_snapshot_segments_for_table branch table cat =
     map (\<lambda>s. (ss_uuid s, ss_uri s))
       (filter (\<lambda>s. ss_branch s = branch \<and> map_option sm_table (snapshot_parent cat s) = Some table)
         (cat_snapshot_segs cat))"

definition latest_committed_snapshot :: "uuid \<Rightarrow> uuid \<Rightarrow> cold_catalog \<Rightarrow> snapshot_row option" where
  "latest_committed_snapshot branch table cat =
     sql_top sm_snapshotted_at
       (filter (\<lambda>r. sm_table r = table \<and> sm_branch r = branch \<and> sm_commit r \<noteq> None) (cat_snapshots cat))"

definition get_retired_snapshot_segments :: "uuid \<Rightarrow> uuid \<Rightarrow> cold_catalog \<Rightarrow> (uuid \<times> string) list" where
  "get_retired_snapshot_segments branch table cat =
     map (\<lambda>s. (ss_uuid s, ss_uri s))
       (filter (\<lambda>s. ss_branch s = branch \<and>
          (case snapshot_parent cat s of
             None \<Rightarrow> False
           | Some snap \<Rightarrow> sm_table snap = table \<and> sm_commit snap \<noteq> None \<and>
               (case latest_committed_snapshot branch table cat of
                  None \<Rightarrow> False | Some latest \<Rightarrow> sm_uuid snap \<noteq> sm_uuid latest)))
         (cat_snapshot_segs cat))"

definition delete_snapshot_segments_by_uuids :: "uuid \<Rightarrow> uuid list \<Rightarrow> cold_catalog \<Rightarrow> cold_catalog" where
  "delete_snapshot_segments_by_uuids branch uuids cat =
     cat\<lparr>cat_snapshot_segs := sql_delete (\<lambda>s. ss_branch s = branch \<and> ss_uuid s \<in> set uuids) (cat_snapshot_segs cat)\<rparr>"

text \<open>The rows \<open>UNNEST\<close> joined with the source branch's partition produces.\<close>

definition carried_rows :: "uuid \<Rightarrow> uuid \<Rightarrow> uuid \<Rightarrow> carried_segment_spec list \<Rightarrow> cold_catalog \<Rightarrow> snapshot_seg_row list" where
  "carried_rows branch source_branch snapshot specs cat =
     concat (map (\<lambda>spec. map (\<lambda>old. old\<lparr>ss_uuid := cs_new_seg_uuid spec, ss_snapshot := snapshot,
           ss_branch := branch, ss_chunk_idx := cs_chunk_idx spec, ss_commit := None\<rparr>)
         (filter (snapshot_seg_key source_branch (cs_prior_seg_uuid spec)) (cat_snapshot_segs cat))) specs)"

definition upsert_carried :: "snapshot_seg_row \<Rightarrow> snapshot_seg_row list \<Rightarrow> snapshot_seg_row list" where
  "upsert_carried new tbl =
     sql_upsert (snapshot_seg_key (ss_branch new) (ss_uuid new))
       (\<lambda>r. r\<lparr>ss_snapshot := ss_snapshot new, ss_chunk_idx := ss_chunk_idx new, ss_uri := ss_uri new,
             ss_offset := ss_offset new, ss_length := ss_length new, ss_row_count := ss_row_count new,
             ss_size := ss_size new, ss_format := ss_format new, ss_statistics := ss_statistics new,
             ss_hash := ss_hash new\<rparr>) new tbl"

definition insert_carried_snapshot_segments :: "uuid \<Rightarrow> uuid \<Rightarrow> uuid \<Rightarrow> carried_segment_spec list \<Rightarrow> cold_catalog \<Rightarrow>
    cold_catalog result" where
  "insert_carried_snapshot_segments branch source_branch snapshot specs cat =
     (if specs = [] then Inr cat
      else
        let inserted = carried_rows branch source_branch snapshot specs cat in
        if length inserted \<noteq> length specs
        then Inl (MetadataErr ''carry-forward insert affected an unexpected number of rows'')
        else Inr (cat\<lparr>cat_snapshot_segs := fold upsert_carried inserted (cat_snapshot_segs cat)\<rparr>))"

definition commit_snapshot_segments_by_uuids :: "int \<Rightarrow> uuid \<Rightarrow> uuid list \<Rightarrow> cold_catalog \<Rightarrow> cold_catalog" where
  "commit_snapshot_segments_by_uuids now branch uuids cat =
     (if uuids = [] then cat
      else cat\<lparr>cat_snapshot_segs := sql_update (\<lambda>s. ss_branch s = branch \<and> ss_uuid s \<in> set uuids)
             (\<lambda>s. s\<lparr>ss_commit := Some now\<rparr>) (cat_snapshot_segs cat)\<rparr>)"

definition delete_uncommitted_snapshot_segments_by_uuids :: "uuid \<Rightarrow> uuid list \<Rightarrow> cold_catalog \<Rightarrow> cold_catalog" where
  "delete_uncommitted_snapshot_segments_by_uuids branch uuids cat =
     (if uuids = [] then cat
      else cat\<lparr>cat_snapshot_segs :=
             sql_delete (\<lambda>s. ss_branch s = branch \<and> ss_uuid s \<in> set uuids \<and> ss_commit s = None) (cat_snapshot_segs cat)\<rparr>)"

definition delete_orphaned_snapshot_metadata :: "uuid \<Rightarrow> uuid \<Rightarrow> cold_catalog \<Rightarrow> cold_catalog" where
  "delete_orphaned_snapshot_metadata branch table cat =
     cat\<lparr>cat_snapshots := sql_delete (\<lambda>snap. sm_branch snap = branch \<and> sm_table snap = table \<and>
       \<not> (\<exists>s \<in> set (cat_snapshot_segs cat). ss_branch s = branch \<and> ss_snapshot s = sm_uuid snap)) (cat_snapshots cat)\<rparr>"

record retention_floor_pick =
  rf_commit_seq_num :: int
  rf_snapshotted_at :: int

definition retention_floor_select :: "uuid \<Rightarrow> uuid \<Rightarrow> int \<Rightarrow> cold_catalog \<Rightarrow> retention_floor_pick option" where
  "retention_floor_select branch table window_start cat =
     map_option (\<lambda>r. \<lparr>rf_commit_seq_num = sm_seq r, rf_snapshotted_at = sm_snapshotted_at r\<rparr>)
       (sql_top (\<lambda>r. (sm_snapshotted_at r, sm_seq r))
         (filter (\<lambda>r. sm_branch r = branch \<and> sm_table r = table \<and> sm_durable r \<and> sm_commit r \<noteq> None \<and>
                  sm_snapshotted_at r \<le> window_start) (cat_snapshots cat)))"

definition retention_floor :: "uuid \<Rightarrow> uuid \<Rightarrow> int option \<Rightarrow> int \<Rightarrow> cold_catalog \<Rightarrow> (int \<times> int) option" where
  "retention_floor branch table retention_duration_seconds now_micros cat =
     (case retention_duration_seconds of
        None \<Rightarrow> None
      | Some seconds \<Rightarrow> map_option (\<lambda>f. (rf_commit_seq_num f, rf_snapshotted_at f))
          (retention_floor_select branch table (now_micros - seconds * 1000000) cat))"

definition hot_min_commit_micros :: "int \<Rightarrow> uuid \<Rightarrow> uuid \<Rightarrow> int option \<Rightarrow> cold_catalog \<Rightarrow>
    int \<times> retention_floor_pick option" where
  "hot_min_commit_micros now branch table retention_duration_seconds cat =
     (let persist_wm = latest_committed_table_persist_watermark branch table cat;
          hot_min = (case persist_wm of None \<Rightarrow> 0 | Some p \<Rightarrow> p + 1) in
      case retention_duration_seconds of
        None \<Rightarrow> (hot_min, None)
      | Some seconds \<Rightarrow> (hot_min, retention_floor_select branch table (now - seconds * 1000000) cat))"

section \<open>Purge metadata\<close>

definition insert_table_purge :: "uuid \<Rightarrow> uuid \<Rightarrow> uuid \<Rightarrow> int option \<Rightarrow> int option \<Rightarrow> cold_catalog \<Rightarrow> cold_catalog" where
  "insert_table_purge u branch table commit_seq aborted_seq cat =
     cat\<lparr>cat_purges := sql_upsert (\<lambda>r. pu_branch r = branch \<and> pu_uuid r = u)
       (\<lambda>r. r\<lparr>pu_commit_seq := commit_seq, pu_aborted_seq := aborted_seq\<rparr>)
       \<lparr>pu_uuid = u, pu_branch = branch, pu_table = table, pu_commit_seq = commit_seq,
        pu_aborted_seq = aborted_seq, pu_commit = None\<rparr> (cat_purges cat)\<rparr>"

definition commit_table_purge :: "int \<Rightarrow> uuid \<Rightarrow> uuid \<Rightarrow> cold_catalog \<Rightarrow> cold_catalog" where
  "commit_table_purge now branch u cat =
     cat\<lparr>cat_purges := sql_update (\<lambda>r. pu_branch r = branch \<and> pu_uuid r = u) (\<lambda>r. r\<lparr>pu_commit := Some now\<rparr>)
       (cat_purges cat)\<rparr>"

definition delete_uncommitted_table_purge :: "uuid \<Rightarrow> uuid \<Rightarrow> cold_catalog \<Rightarrow> cold_catalog" where
  "delete_uncommitted_table_purge branch u cat =
     cat\<lparr>cat_purges := sql_delete (\<lambda>r. pu_branch r = branch \<and> pu_uuid r = u \<and> pu_commit r = None) (cat_purges cat)\<rparr>"

definition max_committed_purge_column :: "(purge_row \<Rightarrow> int option) \<Rightarrow> uuid \<Rightarrow> uuid \<Rightarrow> cold_catalog \<Rightarrow> int option" where
  "max_committed_purge_column col branch table cat =
     sql_max (List.map_filter col
       (filter (\<lambda>r. pu_branch r = branch \<and> pu_table r = table \<and> pu_commit r \<noteq> None) (cat_purges cat)))"

definition latest_committed_table_purge_seq_watermark :: "uuid \<Rightarrow> uuid \<Rightarrow> cold_catalog \<Rightarrow> int option" where
  "latest_committed_table_purge_seq_watermark branch table cat = max_committed_purge_column pu_commit_seq branch table cat"

definition latest_committed_table_purge_aborted_seq_watermark :: "uuid \<Rightarrow> uuid \<Rightarrow> cold_catalog \<Rightarrow> int option" where
  "latest_committed_table_purge_aborted_seq_watermark branch table cat =
     max_committed_purge_column pu_aborted_seq branch table cat"

definition latest_committed_table_snapshot_seq_watermark :: "uuid \<Rightarrow> uuid \<Rightarrow> cold_catalog \<Rightarrow> int option" where
  "latest_committed_table_snapshot_seq_watermark branch table cat =
     sql_max (map sm_seq
       (filter (\<lambda>r. sm_branch r = branch \<and> sm_table r = table \<and> sm_commit r \<noteq> None) (cat_snapshots cat)))"

section \<open>Index metadata\<close>

definition insert_table_snapshot_index :: "uuid \<Rightarrow> uuid \<Rightarrow> uuid \<Rightarrow> uuid option \<Rightarrow> string list option \<Rightarrow>
    cold_catalog \<Rightarrow> cold_catalog" where
  "insert_table_snapshot_index branch u snapshot index key_columns cat =
     cat\<lparr>cat_snapshot_indexes := sql_upsert (\<lambda>r. si_branch r = branch \<and> si_uuid r = u)
       (\<lambda>r. r\<lparr>si_snapshot := snapshot, si_index := index, si_key_columns := key_columns\<rparr>)
       \<lparr>si_uuid = u, si_branch = branch, si_snapshot = snapshot, si_index = index, si_key_columns = key_columns,
        si_commit = None\<rparr> (cat_snapshot_indexes cat)\<rparr>"

definition commit_table_snapshot_index_for_snapshot :: "int \<Rightarrow> uuid \<Rightarrow> uuid \<Rightarrow> cold_catalog \<Rightarrow> cold_catalog" where
  "commit_table_snapshot_index_for_snapshot now branch snapshot cat =
     cat\<lparr>cat_snapshot_indexes :=
       sql_update (\<lambda>r. si_branch r = branch \<and> si_snapshot r = snapshot \<and> si_commit r = None)
         (\<lambda>r. r\<lparr>si_commit := Some now\<rparr>) (cat_snapshot_indexes cat)\<rparr>"

definition delete_uncommitted_table_snapshot_index_for_snapshot :: "uuid \<Rightarrow> uuid \<Rightarrow> cold_catalog \<Rightarrow> cold_catalog" where
  "delete_uncommitted_table_snapshot_index_for_snapshot branch snapshot cat =
     cat\<lparr>cat_snapshot_indexes :=
       sql_delete (\<lambda>r. si_branch r = branch \<and> si_snapshot r = snapshot \<and> si_commit r = None) (cat_snapshot_indexes cat)\<rparr>"

definition delete_orphaned_table_snapshot_index_rows :: "uuid \<Rightarrow> cold_catalog \<Rightarrow> cold_catalog" where
  "delete_orphaned_table_snapshot_index_rows branch cat =
     cat\<lparr>cat_snapshot_indexes := sql_delete (\<lambda>r. si_branch r = branch \<and>
       \<not> (\<exists>snap \<in> set (cat_snapshots cat). sm_branch snap = branch \<and> sm_uuid snap = si_snapshot r)) (cat_snapshot_indexes cat)\<rparr>"

definition list_table_snapshot_index :: "uuid \<Rightarrow> uuid \<Rightarrow> cold_catalog \<Rightarrow> (uuid \<times> uuid option) list" where
  "list_table_snapshot_index branch snapshot cat =
     map (\<lambda>r. (si_uuid r, si_index r))
       (filter (\<lambda>r. si_branch r = branch \<and> si_snapshot r = snapshot \<and> si_commit r \<noteq> None) (cat_snapshot_indexes cat))"

definition upsert_sidecar :: "sidecar_row \<Rightarrow> sidecar_row list \<Rightarrow> sidecar_row list" where
  "upsert_sidecar new tbl =
     sql_upsert (\<lambda>r. sc_branch r = sc_branch new \<and> sc_uuid r = sc_uuid new)
       (\<lambda>r. r\<lparr>sc_segment := sc_segment new, sc_snapshot_index := sc_snapshot_index new, sc_uri := sc_uri new,
             sc_offset := sc_offset new, sc_length := sc_length new, sc_format := sc_format new,
             sc_size := sc_size new, sc_statistics := sc_statistics new, sc_hash := sc_hash new\<rparr>) new tbl"

definition insert_segment_index_metadata :: "uuid \<Rightarrow> uuid \<Rightarrow> uuid \<Rightarrow> uuid \<Rightarrow> string \<Rightarrow> int \<Rightarrow> int \<Rightarrow> string \<Rightarrow> int \<Rightarrow>
    string \<Rightarrow> uuid \<Rightarrow> cold_catalog \<Rightarrow> cold_catalog" where
  "insert_segment_index_metadata branch u segment snapshot_index uri off len format_text size_bytes statistics
       content_hash cat =
     cat\<lparr>cat_sidecars := upsert_sidecar
       \<lparr>sc_uuid = u, sc_branch = branch, sc_segment = segment, sc_snapshot_index = snapshot_index, sc_uri = uri,
        sc_offset = off, sc_length = len, sc_format = format_text, sc_size = Some size_bytes,
        sc_statistics = Some statistics, sc_hash = content_hash, sc_commit = None\<rparr> (cat_sidecars cat)\<rparr>"

definition commit_segment_index_metadata_for_segments :: "int \<Rightarrow> uuid \<Rightarrow> uuid list \<Rightarrow> cold_catalog \<Rightarrow> cold_catalog" where
  "commit_segment_index_metadata_for_segments now branch segments cat =
     (if segments = [] then cat
      else cat\<lparr>cat_sidecars :=
             sql_update (\<lambda>r. sc_branch r = branch \<and> sc_segment r \<in> set segments \<and> sc_commit r = None)
               (\<lambda>r. r\<lparr>sc_commit := Some now\<rparr>) (cat_sidecars cat)\<rparr>)"

definition delete_uncommitted_segment_index_for_segments :: "uuid \<Rightarrow> uuid list \<Rightarrow> cold_catalog \<Rightarrow> cold_catalog" where
  "delete_uncommitted_segment_index_for_segments branch segments cat =
     (if segments = [] then cat
      else cat\<lparr>cat_sidecars :=
             sql_delete (\<lambda>r. sc_branch r = branch \<and> sc_segment r \<in> set segments \<and> sc_commit r = None) (cat_sidecars cat)\<rparr>)"

definition delete_segment_index_metadata_for_segments :: "uuid \<Rightarrow> uuid list \<Rightarrow> cold_catalog \<Rightarrow> cold_catalog" where
  "delete_segment_index_metadata_for_segments branch segments cat =
     (if segments = [] then cat
      else cat\<lparr>cat_sidecars := sql_delete (\<lambda>r. sc_branch r = branch \<and> sc_segment r \<in> set segments) (cat_sidecars cat)\<rparr>)"

definition list_segment_index_metadata :: "uuid \<Rightarrow> uuid list \<Rightarrow> cold_catalog \<Rightarrow> sidecar_row list" where
  "list_segment_index_metadata branch segments cat =
     (if segments = [] then []
      else filter (\<lambda>r. sc_branch r = branch \<and> sc_segment r \<in> set segments \<and> sc_commit r \<noteq> None) (cat_sidecars cat))"

definition list_all_segment_index_uris :: "uuid \<Rightarrow> cold_catalog \<Rightarrow> string list" where
  "list_all_segment_index_uris branch cat = map sc_uri (filter (\<lambda>r. sc_branch r = branch) (cat_sidecars cat))"

definition carried_sidecars :: "hash_fn \<Rightarrow> uuid \<Rightarrow> uuid \<Rightarrow> uuid \<Rightarrow> string \<Rightarrow> (uuid \<times> uuid) list \<Rightarrow> cold_catalog \<Rightarrow>
    sidecar_row list" where
  "carried_sidecars h branch source_branch parent_index index_slug pairs cat =
     concat (map (\<lambda>(new_seg, prior_seg).
         map (\<lambda>old. old\<lparr>sc_uuid := row_uuid_for_pk h new_seg [index_slug], sc_branch := branch, sc_segment := new_seg,
               sc_snapshot_index := parent_index, sc_commit := None\<rparr>)
           (filter (\<lambda>old. sc_branch old = source_branch \<and> sc_uuid old = row_uuid_for_pk h prior_seg [index_slug] \<and>
                    sc_commit old \<noteq> None) (cat_sidecars cat))) pairs)"

definition insert_carried_segment_indexes :: "hash_fn \<Rightarrow> uuid \<Rightarrow> uuid \<Rightarrow> uuid \<Rightarrow> string \<Rightarrow> (uuid \<times> uuid) list \<Rightarrow>
    cold_catalog \<Rightarrow> cold_catalog" where
  "insert_carried_segment_indexes h branch source_branch parent_index index_slug pairs cat =
     (if pairs = [] then cat
      else cat\<lparr>cat_sidecars :=
             fold upsert_sidecar (carried_sidecars h branch source_branch parent_index index_slug pairs cat) (cat_sidecars cat)\<rparr>)"

section \<open>Facts about statements\<close>

lemma set_sql_delete [simp]: "set (sql_delete hit tbl) = {r \<in> set tbl. \<not> hit r}"
  by (auto simp: sql_delete_def)

lemma set_sql_update: "set (sql_update hit f tbl) = {r \<in> set tbl. \<not> hit r} \<union> f ` {r \<in> set tbl. hit r}"
  by (auto simp: sql_update_def)

lemma set_sql_upsert:
  "set (sql_upsert hit f new tbl) =
     {r \<in> set tbl. \<not> hit r} \<union> (if \<exists>r \<in> set tbl. hit r then f ` {r \<in> set tbl. hit r} else {new})"
  by (auto simp: sql_upsert_def set_sql_update)

lemma sql_max_ge: "x \<in> set xs \<Longrightarrow> \<exists>m. sql_max xs = Some m \<and> x \<le> m"
  by (auto simp: sql_max_def)

lemma sql_max_mem: "sql_max xs = Some m \<Longrightarrow> m \<in> set xs"
  by (auto simp: sql_max_def split: if_splits)

lemma sql_max_None [simp]: "sql_max xs = None \<longleftrightarrow> xs = []"
  by (simp add: sql_max_def)

lemma sql_top_mem: "sql_top k tbl = Some r \<Longrightarrow> r \<in> set tbl"
  by (auto simp: sql_top_def find_Some_iff split: if_splits)

text \<open>An enqueue leaves one row per file, dated now.\<close>

lemma delete_set_insert:
  "set (cat_delete_set (insert_segment_delete_set_rows now uris cat)) =
     {d \<in> set (cat_delete_set cat). fst d \<notin> set uris} \<union> (\<lambda>u. (u, now)) ` set uris"
proof -
  have "set (fold (\<lambda>u. sql_upsert (\<lambda>d. fst d = u) (\<lambda>d. (u, now)) (u, now)) uris tbl) =
     {d \<in> set tbl. fst d \<notin> set uris} \<union> (\<lambda>u. (u, now)) ` set uris" for tbl
  proof (induction uris arbitrary: tbl)
    case (Cons u uris)
    have "set (sql_upsert (\<lambda>d. fst d = u) (\<lambda>d. (u, now)) (u, now) tbl) = {d \<in> set tbl. fst d \<noteq> u} \<union> {(u, now)}"
      by (auto simp: set_sql_upsert)
    then show ?case using Cons.IH by auto
  qed simp
  then show ?thesis by (simp add: insert_segment_delete_set_rows_def)
qed

lemma insert_delete_set_other [simp]:
  "cat_persists (insert_segment_delete_set_rows now uris cat) = cat_persists cat"
  "cat_persist_segs (insert_segment_delete_set_rows now uris cat) = cat_persist_segs cat"
  "cat_snapshots (insert_segment_delete_set_rows now uris cat) = cat_snapshots cat"
  "cat_snapshot_segs (insert_segment_delete_set_rows now uris cat) = cat_snapshot_segs cat"
  "cat_sidecars (insert_segment_delete_set_rows now uris cat) = cat_sidecars cat"
  "cat_compacts (insert_segment_delete_set_rows now uris cat) = cat_compacts cat"
  by (simp_all add: insert_segment_delete_set_rows_def)

end
