(* ===== verification/Compact_Scope.thy ===== *)
theory Compact_Scope
  imports Compact_Plan Cold_Catalog
begin

text \<open>
  Compaction of one scope (\<open>penca-api/src/lifecycle/compact.rs\<close>): the wave's inputs are read and
  written as one merged file, the input rows are repointed to their slices of it, the planned rows
  are sealed and the replaced files are queued for deletion in the same transaction.  The table's
  schema, the segment statistics, the content digest, the fresh UUID of the merged file and the
  format readers are parameters; \<open>now\<close> is the start of the transaction.
\<close>

section \<open>The operation\<close>

record compact_env =
  ce_iter :: "string list \<Rightarrow> string list"
  ce_readers :: "file_store \<Rightarrow> int \<Rightarrow> format_reader option"
  ce_faults :: store_faults
  ce_schema :: "afield list option result"
  ce_stats :: "record_batch \<Rightarrow> string"
  ce_hash :: "record_batch \<Rightarrow> uuid result"
  ce_fresh :: uuid

record compact_args =
  ca_catalog :: uuid
  ca_branch :: uuid
  ca_table :: uuid
  ca_kind :: log_kind
  ca_min_at :: "int option"
  ca_max_at :: "int option"
  ca_max_bytes :: int
  ca_base_uri :: string
  ca_format :: format

definition segment_from_row :: "persist_seg_row \<Rightarrow> persist_segment result" where
  "segment_from_row s =
     (case format_from_str (ps_format s) of
        Inl e \<Rightarrow> Inl (MetadataErr (''table_persist_segment_metadata.format decode failed: '' @ e))
      | Inr f \<Rightarrow> Inr \<lparr>seg_uuid = ps_uuid s, seg_uri = ps_uri s, seg_format = f, seg_row_count = ps_row_count s,
          seg_size_bytes = 0, seg_metadata_json = [], seg_statistics = [], seg_offset = ps_offset s,
          seg_length = ps_length s, seg_max_commit_seq_num = Some (ps_max_seq s), seg_content_hash = ps_hash s\<rparr>)"

definition scope_rows :: "compact_args \<Rightarrow> cold_catalog \<Rightarrow> persist_seg_row list" where
  "scope_rows args cat =
     enumerate_unsealed_persist_segments_for_scope (ca_branch args) (ca_table args) (ca_kind args)
       (ca_min_at args) (ca_max_at args) cat"

definition scope_plan :: "compact_env \<Rightarrow> compact_args \<Rightarrow> cold_catalog \<Rightarrow> wave_plan option" where
  "scope_plan env args cat = plan_wave (ce_iter env) ps_uri ps_size (scope_rows args cat) (ca_max_bytes args)"

definition proportional_size :: "int \<Rightarrow> int \<Rightarrow> int \<Rightarrow> int" where
  "proportional_size merged_size row_count total_rows =
     (if total_rows > 0 then merged_size * row_count div total_rows else 0)"

text \<open>The repoint loop; a slice past the end of the merged batch panics.\<close>

fun repoint_inputs :: "compact_env \<Rightarrow> compact_args \<Rightarrow> string \<Rightarrow> record_batch \<Rightarrow> int \<Rightarrow> int \<Rightarrow> int \<Rightarrow>
    persist_seg_row list \<Rightarrow> cold_catalog \<Rightarrow> cold_catalog result" where
  "repoint_inputs env args uri merged msize ntotal cumulative [] cat = Inr cat"
| "repoint_inputs env args uri merged msize ntotal cumulative (m # ms) cat =
     (if usize_of cumulative + usize_of (ps_row_count m) > num_rows merged
      then Inl (Internal ''slice past the end of the merged batch'')
      else rbind (ce_hash env (batch_slice merged (usize_of cumulative) (usize_of (ps_row_count m)))) (\<lambda>slice_hash.
        repoint_inputs env args uri merged msize ntotal (cumulative + ps_row_count m) ms
          (repoint_table_persist_segment (ca_branch args) (ps_uuid m) uri cumulative (ps_row_count m)
             (proportional_size msize (ps_row_count m) ntotal) (extension (ca_format args)) (ce_stats env merged)
             slice_hash False cat)))"

definition deferred_uris :: "string \<Rightarrow> persist_seg_row list \<Rightarrow> string list" where
  "deferred_uris merged_uri inputs = remdups (filter (\<lambda>u. u \<noteq> merged_uri) (map ps_uri inputs))"

definition compact_commit :: "compact_env \<Rightarrow> compact_args \<Rightarrow> int \<Rightarrow> string \<Rightarrow> record_batch \<Rightarrow>
    persist_seg_row list \<Rightarrow> uuid list \<Rightarrow> cold_catalog \<Rightarrow> cold_catalog result" where
  "compact_commit env args now merged_uri merged inputs seals cat =
     rbind (batch_in_memory_bytes merged) (\<lambda>merged_size.
     rbind (repoint_inputs env args merged_uri merged merged_size (sum_list (map ps_row_count inputs)) 0 inputs cat) (\<lambda>cat1.
     let cat2 = seal_table_persist_segments_by_uuids (ca_branch args) seals cat1;
         cat3 = commit_compact_segment now (ca_branch args) merged_uri cat2;
         defer = deferred_uris merged_uri inputs in
     Inr (if defer = [] then cat3 else insert_segment_delete_set_rows now defer cat3)))"

definition merged_batch :: "compact_env \<Rightarrow> afield list \<Rightarrow> persist_seg_row list \<Rightarrow> file_store \<Rightarrow> record_batch result" where
  "merged_batch env sch inputs files =
     rbind (rmap segment_from_row inputs) (\<lambda>segments.
     rbind (read_persist_segments (ce_readers env files) segments sch None) (\<lambda>batches.
     concat_batches sch batches))"

definition merged_uri :: "compact_env \<Rightarrow> compact_args \<Rightarrow> persist_seg_row list \<Rightarrow> string" where
  "merged_uri env args inputs =
     persist_segment_uri (ca_base_uri args) (ca_catalog args) (ca_branch args) (ps_persist (hd inputs)) (ce_fresh env)
       (extension (ca_format args))"

text \<open>The rows a plan names.\<close>

definition plan_inputs :: "persist_seg_row list \<Rightarrow> wave_plan \<Rightarrow> persist_seg_row list" where
  "plan_inputs scope plan = map (\<lambda>i. scope ! i) (input_indices plan)"

definition plan_seals :: "persist_seg_row list \<Rightarrow> wave_plan \<Rightarrow> uuid list" where
  "plan_seals scope plan = map (\<lambda>i. ps_uuid (scope ! i)) (seal_indices plan)"

text \<open>The transaction rolls back on every error; the tracking row of the merged file and the file
  itself are written outside of it and stay.\<close>

definition write_merged :: "compact_env \<Rightarrow> compact_args \<Rightarrow> int \<Rightarrow> record_batch \<Rightarrow> persist_seg_row list \<Rightarrow> uuid list \<Rightarrow>
    cold_catalog \<times> file_store \<Rightarrow> (cold_catalog \<times> file_store) \<times> string option result" where
  "write_merged env args now merged inputs seals = (\<lambda>(cat, files).
     let uri = merged_uri env args inputs in
     case insert_compact_segment (ca_branch args) (ca_table args) uri cat of
       Inl e \<Rightarrow> ((cat, files), Inl e)
     | Inr cat1 \<Rightarrow>
         (case write_cold_file (ce_faults env) files uri merged of
            Inl e \<Rightarrow> ((cat1, files), Inl e)
          | Inr (files1, _) \<Rightarrow>
              (case compact_commit env args now uri merged inputs seals cat1 of
                 Inl e \<Rightarrow> ((cat1, files1), Inl e)
               | Inr cat2 \<Rightarrow> ((cat2, files1), Inr (Some uri)))))"

definition compact_one_scope :: "compact_env \<Rightarrow> compact_args \<Rightarrow> int \<Rightarrow> cold_catalog \<times> file_store \<Rightarrow>
    (cold_catalog \<times> file_store) \<times> string option result" where
  "compact_one_scope env args now = (\<lambda>(cat, files).
     let scope = scope_rows args cat in
     case scope_plan env args cat of
       None \<Rightarrow> ((cat, files), Inr None)
     | Some plan \<Rightarrow>
         if input_indices plan = []
         then ((seal_table_persist_segments_by_uuids (ca_branch args) (plan_seals scope plan) cat, files), Inr None)
         else (case ce_schema env of
            Inl e \<Rightarrow> ((cat, files), Inl e)
          | Inr None \<Rightarrow> ((cat, files), Inr None)
          | Inr (Some sch) \<Rightarrow>
              (case merged_batch env sch (plan_inputs scope plan) files of
                 Inl e \<Rightarrow> ((cat, files), Inl e)
               | Inr merged \<Rightarrow>
                   write_merged env args now merged (plan_inputs scope plan) (plan_seals scope plan) (cat, files))))"

section \<open>The rows after a wave\<close>

text \<open>The effect of the repoint loop on one row.\<close>

fun repointed :: "compact_env \<Rightarrow> compact_args \<Rightarrow> string \<Rightarrow> record_batch \<Rightarrow> int \<Rightarrow> int \<Rightarrow> int \<Rightarrow>
    persist_seg_row list \<Rightarrow> persist_seg_row \<Rightarrow> persist_seg_row" where
  "repointed env args uri merged msize ntotal cumulative [] s = s"
| "repointed env args uri merged msize ntotal cumulative (m # ms) s =
     (if persist_seg_key (ca_branch args) (ps_uuid m) s
      then s\<lparr>ps_uri := uri, ps_offset := Some cumulative, ps_length := Some (ps_row_count m),
             ps_size := Some (proportional_size msize (ps_row_count m) ntotal), ps_format := extension (ca_format args),
             ps_statistics := Some (ce_stats env merged),
             ps_hash := projr (ce_hash env (batch_slice merged (usize_of cumulative) (usize_of (ps_row_count m))))\<rparr>
      else repointed env args uri merged msize ntotal (cumulative + ps_row_count m) ms s)"

lemma repointed_other:
  "\<not> (ps_branch s = ca_branch args \<and> ps_uuid s \<in> ps_uuid ` set ms) \<Longrightarrow>
   repointed env args uri merged msize ntotal cumulative ms s = s"
  by (induction ms arbitrary: cumulative) (auto simp: persist_seg_key_def)

lemma repointed_keeps [simp]:
  "ps_uuid (repointed env args uri merged msize ntotal c ms s) = ps_uuid s"
  "ps_persist (repointed env args uri merged msize ntotal c ms s) = ps_persist s"
  "ps_branch (repointed env args uri merged msize ntotal c ms s) = ps_branch s"
  "ps_table (repointed env args uri merged msize ntotal c ms s) = ps_table s"
  "ps_chunk_idx (repointed env args uri merged msize ntotal c ms s) = ps_chunk_idx s"
  "ps_min_tx (repointed env args uri merged msize ntotal c ms s) = ps_min_tx s"
  "ps_max_tx (repointed env args uri merged msize ntotal c ms s) = ps_max_tx s"
  "ps_min_seq (repointed env args uri merged msize ntotal c ms s) = ps_min_seq s"
  "ps_max_seq (repointed env args uri merged msize ntotal c ms s) = ps_max_seq s"
  "ps_row_count (repointed env args uri merged msize ntotal c ms s) = ps_row_count s"
  "ps_commit (repointed env args uri merged msize ntotal c ms s) = ps_commit s"
  "ps_sealed (repointed env args uri merged msize ntotal c ms s) = ps_sealed s"
  by (induction ms arbitrary: c) auto

lemma repoint_inputs_effect:
  assumes "repoint_inputs env args uri merged msize ntotal cumulative ms cat = Inr cat'"
    and "distinct (map ps_uuid ms)"
  shows "cat' = cat\<lparr>cat_persist_segs := map (repointed env args uri merged msize ntotal cumulative ms) (cat_persist_segs cat)\<rparr>"
  using assms
proof (induction ms arbitrary: cumulative cat)
  case Nil
  then show ?case by simp
next
  case (Cons m ms)
  let ?len = "usize_of (ps_row_count m)"
  obtain hsh where hsh: "ce_hash env (batch_slice merged (usize_of cumulative) ?len) = Inr hsh"
    and rest: "repoint_inputs env args uri merged msize ntotal (cumulative + ps_row_count m) ms
          (repoint_table_persist_segment (ca_branch args) (ps_uuid m) uri cumulative (ps_row_count m)
             (proportional_size msize (ps_row_count m) ntotal) (extension (ca_format args)) (ce_stats env merged)
             hsh False cat) = Inr cat'"
    using Cons.prems(1) by (auto simp: rbind_eq_Inr split: if_splits)
  have step: "repointed env args uri merged msize ntotal (cumulative + ps_row_count m) ms
      (if persist_seg_key (ca_branch args) (ps_uuid m) s
       then s\<lparr>ps_uri := uri, ps_offset := Some cumulative, ps_length := Some (ps_row_count m),
              ps_size := Some (proportional_size msize (ps_row_count m) ntotal), ps_format := extension (ca_format args),
              ps_statistics := Some (ce_stats env merged), ps_hash := hsh\<rparr> else s) =
      repointed env args uri merged msize ntotal cumulative (m # ms) s" for s
    using Cons.prems(2) hsh by (auto simp: repointed_other persist_seg_key_def)
  have "cat' = cat\<lparr>cat_persist_segs := map (\<lambda>s. repointed env args uri merged msize ntotal (cumulative + ps_row_count m) ms
      (if persist_seg_key (ca_branch args) (ps_uuid m) s
       then s\<lparr>ps_uri := uri, ps_offset := Some cumulative, ps_length := Some (ps_row_count m),
              ps_size := Some (proportional_size msize (ps_row_count m) ntotal), ps_format := extension (ca_format args),
              ps_statistics := Some (ce_stats env merged), ps_hash := hsh\<rparr> else s)) (cat_persist_segs cat)\<rparr>"
    using Cons.IH[OF rest] Cons.prems(2) by (simp add: repoint_table_persist_segment_def sql_update_def comp_def)
  then show ?case unfolding step .
qed

section \<open>What a successful wave did\<close>

definition unique_segs :: "cold_catalog \<Rightarrow> bool" where
  "unique_segs cat = distinct (map (\<lambda>s. (ps_branch s, ps_uuid s)) (cat_persist_segs cat))"

definition after_wave :: "compact_env \<Rightarrow> compact_args \<Rightarrow> string \<Rightarrow> record_batch \<Rightarrow> int \<Rightarrow> persist_seg_row list \<Rightarrow>
    uuid list \<Rightarrow> persist_seg_row \<Rightarrow> persist_seg_row" where
  "after_wave env args uri merged msize inputs seals s =
     (let s' = repointed env args uri merged msize (sum_list (map ps_row_count inputs)) 0 inputs s in
      if ps_branch s = ca_branch args \<and> ps_uuid s \<in> set seals then s'\<lparr>ps_sealed := True\<rparr> else s')"

lemma scope_rows_mem:
  "s \<in> set (scope_rows args cat) \<longleftrightarrow> s \<in> set (cat_persist_segs cat) \<and>
     unsealed_in_window (ca_branch args) (ca_min_at args) (ca_max_at args) s \<and> ps_table s = ca_table args \<and>
     map_option pm_log_kind (persist_parent cat s) = Some (ca_kind args)"
  by (auto simp: scope_rows_def enumerate_unsealed_persist_segments_for_scope_def)

lemma scope_rows_branch: "s \<in> set (scope_rows args cat) \<Longrightarrow> ps_branch s = ca_branch args"
  by (simp add: scope_rows_mem unsealed_in_window_def)

lemma distinct_map_sort_key: "distinct (map f (sort_key k xs)) = distinct (map f xs)"
  by (metis mset_eq_imp_distinct_iff mset_map mset_sort)

lemma scope_uuids_distinct:
  assumes "unique_segs cat"
  shows "distinct (map ps_uuid (scope_rows args cat))"
proof -
  have "distinct (map (\<lambda>s. (ps_branch s, ps_uuid s)) (scope_rows args cat))"
    using assms unfolding scope_rows_def enumerate_unsealed_persist_segments_for_scope_def unique_segs_def
    by (simp add: distinct_map_sort_key distinct_map_filter)
  then show ?thesis
    using scope_rows_branch[of _ args cat] by (auto simp: distinct_map inj_on_def)
qed

lemma scope_plan_shape:
  assumes "scope_plan env args cat = Some plan"
  shows "distinct (input_indices plan @ seal_indices plan)"
    and "\<forall>i \<in> set (input_indices plan @ seal_indices plan). i < length (scope_rows args cat)"
  using plan_wave_shape(1,2)[OF assms[unfolded scope_plan_def plan_wave_def]] by simp_all

lemma plan_inputs_props:
  assumes "scope_plan env args cat = Some plan" "unique_segs cat"
  shows "distinct (map ps_uuid (plan_inputs (scope_rows args cat) plan))"
    and "set (plan_inputs (scope_rows args cat) plan) \<subseteq> set (scope_rows args cat)"
proof -
  note shape = scope_plan_shape[OF assms(1)]
  have "inj_on (\<lambda>i. ps_uuid (scope_rows args cat ! i)) (set (input_indices plan))"
    using distinct_map_nth_inj[OF scope_uuids_distinct[OF assms(2), of args]] shape(2) by (auto simp: inj_on_def)
  then show "distinct (map ps_uuid (plan_inputs (scope_rows args cat) plan))"
    using shape(1) by (simp add: plan_inputs_def distinct_map comp_def inj_on_def)
  show "set (plan_inputs (scope_rows args cat) plan) \<subseteq> set (scope_rows args cat)"
    using shape(2) by (auto simp: plan_inputs_def)
qed

lemma compact_commit_effect:
  assumes commit: "compact_commit env args now uri merged inputs seals cat = Inr cat'"
    and "distinct (map ps_uuid inputs)"
  obtains msize where "batch_in_memory_bytes merged = Inr msize"
    "cat_persist_segs cat' = map (after_wave env args uri merged msize inputs seals) (cat_persist_segs cat)"
    "cat_persists cat' = cat_persists cat" "cat_snapshots cat' = cat_snapshots cat"
    "cat_snapshot_segs cat' = cat_snapshot_segs cat" "cat_sidecars cat' = cat_sidecars cat"
    "cat_delete_set cat' = cat_delete_set (insert_segment_delete_set_rows now (deferred_uris uri inputs) cat)"
proof -
  obtain msize cat1 where size: "batch_in_memory_bytes merged = Inr msize"
    and re: "repoint_inputs env args uri merged msize (sum_list (map ps_row_count inputs)) 0 inputs cat = Inr cat1"
    and cat': "cat' = (let cat3 = commit_compact_segment now (ca_branch args) uri
          (seal_table_persist_segments_by_uuids (ca_branch args) seals cat1);
         defer = deferred_uris uri inputs in if defer = [] then cat3 else insert_segment_delete_set_rows now defer cat3)"
    using commit by (auto simp: compact_commit_def rbind_eq_Inr Let_def)
  note cat1 = repoint_inputs_effect[OF re assms(2)]
  have "cat_persist_segs cat' = map (after_wave env args uri merged msize inputs seals) (cat_persist_segs cat)"
    unfolding cat' cat1
    by (auto simp: Let_def insert_segment_delete_set_rows_def commit_compact_segment_def
        seal_table_persist_segments_by_uuids_def sql_update_def after_wave_def)
  moreover have "cat_persists cat' = cat_persists cat \<and> cat_snapshots cat' = cat_snapshots cat \<and>
    cat_snapshot_segs cat' = cat_snapshot_segs cat \<and> cat_sidecars cat' = cat_sidecars cat \<and>
    cat_delete_set cat' = cat_delete_set (insert_segment_delete_set_rows now (deferred_uris uri inputs) cat)"
    unfolding cat' cat1
    by (simp add: Let_def insert_segment_delete_set_rows_def commit_compact_segment_def
        seal_table_persist_segments_by_uuids_def)
  ultimately show thesis using size that by blast
qed

lemma compact_one_scope_success:
  assumes run: "compact_one_scope env args now (cat, files) = ((cat', files'), Inr (Some uri))"
  obtains plan sch merged cat1 where
    "scope_plan env args cat = Some plan" "ce_schema env = Inr (Some sch)"
    "uri = merged_uri env args (plan_inputs (scope_rows args cat) plan)"
    "merged_batch env sch (plan_inputs (scope_rows args cat) plan) files = Inr merged"
    "insert_compact_segment (ca_branch args) (ca_table args) uri cat = Inr cat1"
    "files' = files(uri \<mapsto> merged)"
    "compact_commit env args now uri merged (plan_inputs (scope_rows args cat) plan)
       (plan_seals (scope_rows args cat) plan) cat1 = Inr cat'"
proof -
  obtain plan where plan: "scope_plan env args cat = Some plan"
    using run by (auto simp: compact_one_scope_def Let_def split: option.splits)
  have ne: "input_indices plan \<noteq> []"
    using run plan by (auto simp: compact_one_scope_def Let_def)
  obtain sch where sch: "ce_schema env = Inr (Some sch)"
    using run plan ne by (auto simp: compact_one_scope_def Let_def split: sum.splits option.splits)
  obtain merged where merged: "merged_batch env sch (plan_inputs (scope_rows args cat) plan) files = Inr merged"
    "write_merged env args now merged (plan_inputs (scope_rows args cat) plan) (plan_seals (scope_rows args cat) plan)
       (cat, files) = ((cat', files'), Inr (Some uri))"
    using run plan ne sch by (auto simp: compact_one_scope_def Let_def split: sum.splits)
  then show thesis using plan sch that
    by (auto simp: write_merged_def Let_def write_cold_file_def write_file_def split: sum.splits option.splits prod.splits)
qed

section \<open>Reading a segment row\<close>

definition segment_batch :: "(int \<Rightarrow> format_reader option) \<Rightarrow> afield list \<Rightarrow> persist_seg_row \<Rightarrow> record_batch result" where
  "segment_batch readers sch s =
     rbind (segment_from_row s) (\<lambda>seg. rbind (reader_for readers seg) (\<lambda>reader.
       read_one_persist_segment reader seg sch None))"

text \<open>A deployment with the Parquet format only.\<close>

definition parquet_readers :: "store_faults \<Rightarrow> file_store \<Rightarrow> int \<Rightarrow> format_reader option" where
  "parquet_readers faults files code = (if code = as_wire_code Parquet then Some (read_segment faults files) else None)"

lemma segment_batch_read:
  assumes "segment_batch (parquet_readers faults files) sch s = Inr b"
  shows "read_segment faults files (ps_uri s) (ps_offset s) (ps_length s) sch None = Inr b"
  using assms
  by (auto simp: segment_batch_def segment_from_row_def reader_for_def parquet_readers_def read_one_persist_segment_def
      rbind_eq_Inr split: sum.splits option.splits if_splits)

lemma segment_batch_parquet:
  "ps_format s = ''parquet'' \<Longrightarrow> segment_batch (parquet_readers faults files) sch s =
    read_segment faults files (ps_uri s) (ps_offset s) (ps_length s) sch None"
  by (simp add: segment_batch_def segment_from_row_def format_from_str_def reader_for_def parquet_readers_def
      read_one_persist_segment_def)

lemma merged_batch_rows:
  assumes "merged_batch env sch inputs files = Inr merged"
  shows "\<exists>bs. rmap (segment_batch (ce_readers env files) sch) inputs = Inr bs \<and>
    merged = \<lparr>schema = sch, rows = concat (map rows bs)\<rparr>"
proof -
  obtain segs bs where segs: "rmap segment_from_row inputs = Inr segs"
    and bs: "rmap (\<lambda>seg. rbind (reader_for (ce_readers env files) seg) (\<lambda>reader. read_one_persist_segment reader seg sch None)) segs = Inr bs"
    and merged: "concat_batches sch (non_empty_or sch bs) = Inr merged"
    using assms by (auto simp: merged_batch_def read_persist_segments_def rbind_eq_Inr)
  let ?read = "\<lambda>seg. rbind (reader_for (ce_readers env files) seg) (\<lambda>reader. read_one_persist_segment reader seg sch None)"
  have "rbind (rmap segment_from_row inputs) (rmap ?read) = rmap (\<lambda>s. rbind (segment_from_row s) ?read) inputs"
    by (rule rmap_rbind) (simp add: segs)
  then have "rmap (segment_batch (ce_readers env files) sch) inputs = Inr bs"
    using segs bs by (simp add: segment_batch_def[abs_def])
  moreover have "merged = \<lparr>schema = sch, rows = concat (map rows bs)\<rparr>"
    using merged non_empty_or_rows[of sch bs] by (auto simp: concat_batches_def split: if_splits)
  ultimately show ?thesis by blast
qed

lemma repointed_input:
  assumes "distinct (map ps_uuid ms)" "k < length ms" "ps_branch s = ca_branch args" "ps_uuid s = ps_uuid (ms ! k)"
  shows "ps_uri (repointed env args uri merged msize ntotal c ms s) = uri"
    "ps_offset (repointed env args uri merged msize ntotal c ms s) = Some (c + sum_list (map ps_row_count (take k ms)))"
    "ps_length (repointed env args uri merged msize ntotal c ms s) = Some (ps_row_count (ms ! k))"
    "ps_format (repointed env args uri merged msize ntotal c ms s) = extension (ca_format args)"
    "ps_size (repointed env args uri merged msize ntotal c ms s) = Some (proportional_size msize (ps_row_count (ms ! k)) ntotal)"
  using assms
proof (induction ms arbitrary: k c)
  case (Cons m ms)
  have other: "ps_uuid (ms ! j) \<noteq> ps_uuid m" if "distinct (map ps_uuid (m # ms))" "j < length ms" for j
    using that by (metis distinct.simps(2) imageI list.set_map list.simps(9) nth_mem)
  {
    case 1
    then show ?case using other[of "k - 1"] Cons.IH(1)[of "k - 1"] by (cases k) (auto simp: persist_seg_key_def)
  next
    case 2
    then show ?case using other[of "k - 1"] Cons.IH(2)[of "k - 1" "c + ps_row_count m"] by (cases k) (auto simp: persist_seg_key_def)
  next
    case 3
    then show ?case using other[of "k - 1"] Cons.IH(3)[of "k - 1"] by (cases k) (auto simp: persist_seg_key_def)
  next
    case 4
    then show ?case using other[of "k - 1"] Cons.IH(4)[of "k - 1"] by (cases k) (auto simp: persist_seg_key_def)
  next
    case 5
    then show ?case using other[of "k - 1"] Cons.IH(5)[of "k - 1"] by (cases k) (auto simp: persist_seg_key_def)
  }
qed simp_all

section \<open>Segments keep their rows\<close>

definition sound_segments :: "store_faults \<Rightarrow> afield list \<Rightarrow> cold_catalog \<Rightarrow> file_store \<Rightarrow> bool" where
  "sound_segments faults sch cat files =
     (unique_segs cat \<and> (\<forall>u b. files u = Some b \<longrightarrow> valid_batch b) \<and>
      (\<forall>s \<in> set (cat_persist_segs cat). \<forall>b. segment_batch (parquet_readers faults files) sch s = Inr b \<longrightarrow>
         ps_row_count s = int (num_rows b)))"

text \<open>The columns compaction never writes.\<close>

definition same_identity :: "persist_seg_row \<Rightarrow> persist_seg_row \<Rightarrow> bool" where
  "same_identity s s' =
     (ps_uuid s' = ps_uuid s \<and> ps_persist s' = ps_persist s \<and> ps_branch s' = ps_branch s \<and> ps_table s' = ps_table s \<and>
      ps_chunk_idx s' = ps_chunk_idx s \<and> ps_min_tx s' = ps_min_tx s \<and> ps_max_tx s' = ps_max_tx s \<and>
      ps_min_seq s' = ps_min_seq s \<and> ps_max_seq s' = ps_max_seq s \<and> ps_row_count s' = ps_row_count s \<and>
      ps_commit s' = ps_commit s)"

lemma after_wave_identity: "same_identity s (after_wave env args uri merged msize inputs seals s)"
  by (simp add: same_identity_def after_wave_def Let_def)

lemma after_wave_storage:
  "ps_uri (after_wave env args uri merged msize inputs seals s) = ps_uri (repointed env args uri merged msize (sum_list (map ps_row_count inputs)) 0 inputs s)"
  "ps_offset (after_wave env args uri merged msize inputs seals s) = ps_offset (repointed env args uri merged msize (sum_list (map ps_row_count inputs)) 0 inputs s)"
  "ps_length (after_wave env args uri merged msize inputs seals s) = ps_length (repointed env args uri merged msize (sum_list (map ps_row_count inputs)) 0 inputs s)"
  "ps_format (after_wave env args uri merged msize inputs seals s) = ps_format (repointed env args uri merged msize (sum_list (map ps_row_count inputs)) 0 inputs s)"
  "ps_size (after_wave env args uri merged msize inputs seals s) = ps_size (repointed env args uri merged msize (sum_list (map ps_row_count inputs)) 0 inputs s)"
  "ps_sealed (after_wave env args uri merged msize inputs seals s) = (ps_sealed s \<or> ps_branch s = ca_branch args \<and> ps_uuid s \<in> set seals)"
  by (auto simp: after_wave_def Let_def)

lemma read_segment_same_file:
  assumes "files' u = files u"
  shows "read_segment faults files' u off len sch projection = read_segment faults files u off len sch projection"
  unfolding read_segment_def read_in_file_schema_def assms ..

lemma segment_batch_cong:
  assumes "ps_format s' = ps_format s" "ps_uri s' = ps_uri s" "ps_offset s' = ps_offset s" "ps_length s' = ps_length s"
    and "files' (ps_uri s) = files (ps_uri s)"
  shows "segment_batch (parquet_readers faults files') sch s' = segment_batch (parquet_readers faults files) sch s"
  using assms read_segment_same_file[of files' "ps_uri s" files]
  by (auto simp: segment_batch_def segment_from_row_def reader_for_def parquet_readers_def read_one_persist_segment_def
      split: sum.splits)

lemma unique_segs_eq:
  assumes "unique_segs cat" "s \<in> set (cat_persist_segs cat)" "t \<in> set (cat_persist_segs cat)"
    and "ps_branch s = ps_branch t" "ps_uuid s = ps_uuid t"
  shows "s = t"
  using assms by (auto simp: unique_segs_def distinct_map inj_on_def)

lemma sum_row_counts: "sum_list (map (\<lambda>b. int (length (rows b))) bs) = int (length (concat (map rows bs)))"
  by (induction bs) auto

text \<open>The offsets the loop assigns are the positions of the inputs' rows in the merged batch.\<close>

lemma input_slice:
  assumes bs: "rmap (segment_batch readers sch) inputs = Inr bs"
    and counts: "\<forall>s \<in> set inputs. \<forall>b. segment_batch readers sch s = Inr b \<longrightarrow> ps_row_count s = int (num_rows b)"
    and k: "k < length inputs" and small: "int (length (concat (map rows bs))) < 2 ^ 63"
  shows "selected_rows (Some (sum_list (map ps_row_count (take k inputs)))) (Some (ps_row_count (inputs ! k)))
    (concat (map rows bs)) = rows (bs ! k)"
proof -
  have len: "length bs = length inputs" using rmap_length[OF bs] .
  have count: "ps_row_count (inputs ! j) = int (length (rows (bs ! j)))" if "j < length inputs" for j
    using counts rmap_nth[OF bs that] nth_mem[OF that] by (auto simp: num_rows_def)
  have "map ps_row_count (take k inputs) = map (\<lambda>b. int (length (rows b))) (take k bs)"
    using k len count by (intro nth_equalityI) auto
  then have off: "sum_list (map ps_row_count (take k inputs)) = int (length (concat (take k (map rows bs))))"
    by (simp add: sum_row_counts take_map)
  have "length (concat (take k (map rows bs))) + length (rows (bs ! k)) \<le> length (concat (map rows bs))"
    using k len
  proof -
    have "map rows bs = take k (map rows bs) @ rows (bs ! k) # drop (Suc k) (map rows bs)"
      using k len id_take_nth_drop[of k "map rows bs"] by simp
    then have "concat (map rows bs) = concat (take k (map rows bs)) @ rows (bs ! k) @ concat (drop (Suc k) (map rows bs))"
      by (metis concat.simps(2) concat_append)
    then show ?thesis by (metis add_le_cancel_left le_add1 length_append)
  qed
  then show ?thesis
    using slice_of_concat[of k "map rows bs"] off count[OF k] small k len
    by (simp add: selected_rows_def slice_selection_def)
qed

lemma inputs_valid:
  assumes valid: "\<forall>u b. files u = Some b \<longrightarrow> valid_batch b" and names: "distinct (map field_name sch)" "sch \<noteq> []"
    and bs: "rmap (segment_batch (parquet_readers faults files) sch) inputs = Inr bs"
  shows "\<forall>b \<in> set bs. schema b = sch \<and> valid_batch b"
    and "valid_batch \<lparr>schema = sch, rows = concat (map rows bs)\<rparr>"
proof -
  have "schema (bs ! j) = sch \<and> valid_batch (bs ! j)" if "j < length bs" for j
    using read_segment_valid[OF segment_batch_read[OF rmap_nth[OF bs]] _ names, of j] valid that rmap_length[OF bs] by auto
  then show each: "\<forall>b \<in> set bs. schema b = sch \<and> valid_batch b" by (metis in_set_conv_nth)
  then show "valid_batch \<lparr>schema = sch, rows = concat (map rows bs)\<rparr>"
    using names(1) unfolding valid_batch_def wf_batch_def by fastforce
qed

text \<open>One row through a wave.\<close>

lemma wave_keeps_batch:
  assumes sound: "sound_segments faults sch cat files" and names: "distinct (map field_name sch)" "sch \<noteq> []"
    and s: "s \<in> set (cat_persist_segs cat)" and uri: "ps_uri s \<noteq> uri"
    and inputs: "distinct (map ps_uuid inputs)" "set inputs \<subseteq> set (cat_persist_segs cat)"
      "\<forall>t \<in> set inputs. ps_branch t = ca_branch args"
    and bs: "rmap (segment_batch (parquet_readers faults files) sch) inputs = Inr bs"
    and merged: "merged = \<lparr>schema = sch, rows = concat (map rows bs)\<rparr>"
    and store: "files' = files(uri \<mapsto> merged)" "get_fault faults uri = None" "ca_format args = Parquet"
    and small: "int (num_rows merged) < 2 ^ 63"
  shows "segment_batch (parquet_readers faults files') sch (after_wave env args uri merged msize inputs seals s) =
    segment_batch (parquet_readers faults files) sch s"
proof (cases "ps_branch s = ca_branch args \<and> ps_uuid s \<in> ps_uuid ` set inputs")
  case True
  then obtain k where k: "k < length inputs" "ps_uuid s = ps_uuid (inputs ! k)"
    by (auto simp: in_set_conv_nth)
  have mem: "inputs ! k \<in> set inputs" using k(1) by simp
  have "inputs ! k = s"
    using unique_segs_eq[of cat "inputs ! k" s] sound subsetD[OF inputs(2) mem] bspec[OF inputs(3) mem] s k True
    by (simp add: sound_segments_def)
  then have read: "segment_batch (parquet_readers faults files) sch s = Inr (bs ! k)" using rmap_nth[OF bs k(1)] by simp
  have "\<forall>u b. files u = Some b \<longrightarrow> valid_batch b" using sound by (simp add: sound_segments_def)
  note each = inputs_valid[OF this names bs]
  then have "read_segment faults files' uri off len sch None = Inr (merged\<lparr>rows := selected_rows off len (rows merged)\<rparr>)" for off len
    using read_segment_own[of files' uri merged faults off len] store names(2) merged by simp
  moreover have counts: "\<forall>s \<in> set inputs. \<forall>b. segment_batch (parquet_readers faults files) sch s = Inr b \<longrightarrow> ps_row_count s = int (num_rows b)"
    using sound inputs(2) unfolding sound_segments_def by blast
  moreover have "selected_rows (Some (sum_list (map ps_row_count (take k inputs)))) (Some (ps_row_count (inputs ! k))) (rows merged) = rows (bs ! k)"
    using input_slice[OF bs counts k(1)] small merged by (simp add: num_rows_def)
  moreover have "merged\<lparr>rows := rows (bs ! k)\<rparr> = bs ! k"
    using bspec[OF each(1), of "bs ! k"] k(1) rmap_length[OF bs] merged by simp
  ultimately show ?thesis
    using repointed_input[OF inputs(1) k(1) conjunct1[OF True] k(2)] store(3) read
    by (simp add: segment_batch_parquet after_wave_storage)
next
  case False
  then have "repointed env args uri merged msize (sum_list (map ps_row_count inputs)) 0 inputs s = s"
    using repointed_other by blast
  then show ?thesis
    using uri store(1) by (intro segment_batch_cong) (simp_all add: after_wave_storage)
qed

lemma after_wave_unique:
  assumes "unique_segs cat" "cat_persist_segs cat' = map (after_wave env args uri merged msize inputs seals) (cat_persist_segs cat)"
  shows "unique_segs cat'"
  using assms after_wave_identity[of _ env args uri merged msize inputs seals]
  by (simp add: unique_segs_def same_identity_def comp_def)

lemma after_wave_moved:
  assumes "ps_uri (after_wave env args uri merged msize inputs seals s) \<noteq> ps_uri s" "unique_segs cat"
    and "s \<in> set (cat_persist_segs cat)" "set inputs \<subseteq> set (cat_persist_segs cat)"
    "\<forall>t \<in> set inputs. ps_branch t = ca_branch args"
  shows "s \<in> set inputs"
proof (rule ccontr)
  assume "s \<notin> set inputs"
  then have "\<not> (ps_branch s = ca_branch args \<and> ps_uuid s \<in> ps_uuid ` set inputs)"
    using unique_segs_eq[OF assms(2,3)] assms(4,5) by auto
  then show False using assms(1) repointed_other by (simp add: after_wave_storage)
qed

section \<open>The scope after a wave\<close>

definition scope_abs :: "persist_seg_row list \<Rightarrow> (string \<times> int) list" where
  "scope_abs scope = map (\<lambda>s. (ps_uri s, row_size ps_size s)) scope"

lemma scope_plan_abs: "scope_plan env args cat = plan_wave (ce_iter env) fst (Some \<circ> snd) (scope_abs (scope_rows args cat)) (ca_max_bytes args)"
  by (simp add: scope_plan_def plan_wave_def scope_abs_def row_size_def comp_def)

lemma insort_key_map:
  "(\<And>x. k (f x) = k x) \<Longrightarrow> insort_key k (f x) (map f ys) = map f (insort_key k x ys)"
  by (induction ys) auto

lemma sort_key_map: "(\<And>x. k (f x) = k x) \<Longrightarrow> sort_key k (map f xs) = map f (sort_key k xs)"
  by (induction xs) (auto simp: insort_key_map)

text \<open>A change of the segment rows that keeps identities and seals the given rows.\<close>

lemma scope_rows_map:
  assumes segs: "cat_persist_segs cat' = map f (cat_persist_segs cat)" and parents: "cat_persists cat' = cat_persists cat"
    and ident: "\<And>s. same_identity s (f s)"
    and sealed: "\<And>s. ps_sealed (f s) = (ps_sealed s \<or> ps_branch s = ca_branch args \<and> ps_uuid s \<in> seals)"
  shows "scope_rows args cat' = map f (filter (\<lambda>s. ps_uuid s \<notin> seals) (scope_rows args cat))"
proof -
  let ?hit = "\<lambda>cat s. unsealed_in_window (ca_branch args) (ca_min_at args) (ca_max_at args) s \<and> ps_table s = ca_table args \<and>
      map_option pm_log_kind (persist_parent cat s) = Some (ca_kind args)"
  have hit: "?hit cat' (f s) = (?hit cat s \<and> ps_uuid s \<notin> seals)" for s
    using ident[of s] sealed[of s]
    by (auto simp: unsealed_in_window_def same_identity_def persist_parent_def parents split: option.splits)
  have "filter (?hit cat') (map f (cat_persist_segs cat)) = map f (filter (\<lambda>s. ?hit cat s \<and> ps_uuid s \<notin> seals) (cat_persist_segs cat))"
    by (simp only: filter_map comp_def hit)
  moreover have "filter (\<lambda>s. ?hit cat s \<and> ps_uuid s \<notin> seals) (cat_persist_segs cat) =
      filter (\<lambda>s. ps_uuid s \<notin> seals) (filter (?hit cat) (cat_persist_segs cat))"
    by (auto intro: filter_cong)
  moreover have "sort_key (\<lambda>s. (ps_min_tx s, ps_chunk_idx s)) (map f xs) = map f (sort_key (\<lambda>s. (ps_min_tx s, ps_chunk_idx s)) xs)" for xs
    using ident by (intro sort_key_map) (simp add: same_identity_def)
  ultimately show ?thesis
    unfolding scope_rows_def enumerate_unsealed_persist_segments_for_scope_def segs by (simp add: filter_sort)
qed

lemma filter_nth: "filter P xs = map (\<lambda>i. xs ! i) (filter (\<lambda>i. P (xs ! i)) [0..<length xs])"
proof -
  have "filter P (map (\<lambda>i. xs ! i) [0..<length xs]) = map (\<lambda>i. xs ! i) (filter (\<lambda>i. P (xs ! i)) [0..<length xs])"
    by (simp only: filter_map comp_def)
  then show ?thesis by (simp add: map_nth)
qed

lemma plan_seals_mem:
  assumes "scope_plan env args cat = Some plan" "unique_segs cat" "i < length (scope_rows args cat)"
  shows "ps_uuid (scope_rows args cat ! i) \<in> set (plan_seals (scope_rows args cat) plan) \<longleftrightarrow> i \<in> set (seal_indices plan)"
  using scope_plan_shape(2)[OF assms(1)] distinct_map_nth_inj[OF scope_uuids_distinct[OF assms(2), of args] assms(3)]
  by (auto simp: plan_seals_def)

text \<open>Rewriting the scope's rows by a function that gives the inputs their new file and size
  refines the abstract wave.\<close>

lemma scope_wave:
  assumes plan: "scope_plan env args cat = Some plan" and unique: "unique_segs cat"
    and after: "scope_rows args cat' = map f (filter (\<lambda>s. ps_uuid s \<notin> set (plan_seals (scope_rows args cat) plan)) (scope_rows args cat))"
    and abs: "\<And>i. i < length (scope_rows args cat) \<Longrightarrow>
      (ps_uri (f (scope_rows args cat ! i)), row_size ps_size (f (scope_rows args cat ! i))) =
      (if i \<in> set (input_indices plan) then (uri, sz i) else (ps_uri (scope_rows args cat ! i), row_size ps_size (scope_rows args cat ! i)))"
  shows "scope_abs (scope_rows args cat') = apply_wave uri sz plan (scope_abs (scope_rows args cat))"
proof -
  let ?scope = "scope_rows args cat"
  have "filter (\<lambda>s. ps_uuid s \<notin> set (plan_seals ?scope plan)) ?scope =
      map (\<lambda>i. ?scope ! i) (filter (\<lambda>i. i \<notin> set (seal_indices plan)) [0..<length ?scope])"
    unfolding filter_nth[of "\<lambda>s. ps_uuid s \<notin> set (plan_seals ?scope plan)" ?scope]
    using plan_seals_mem[OF plan unique] by (intro arg_cong[where f = "map _"] filter_cong) auto
  then have "scope_abs (scope_rows args cat') =
      map (\<lambda>i. (ps_uri (f (?scope ! i)), row_size ps_size (f (?scope ! i)))) (filter (\<lambda>i. i \<notin> set (seal_indices plan)) [0..<length ?scope])"
    unfolding after by (simp add: scope_abs_def comp_def)
  also have "\<dots> = apply_wave uri sz plan (scope_abs ?scope)"
    using abs by (auto simp: apply_wave_def scope_abs_def)
  finally show ?thesis .
qed

section \<open>Properties\<close>

text \<open>C27: compaction moves rows between files and loses none.  After a wave that wrote a merged
  file, every segment row of the catalog reads exactly the batch it read before, with the same
  identity, bounds and row count; a file that a row moved away from is queued for deletion in the
  same transaction; every file but the merged one is untouched; and the wave leaves the catalog and
  its files as sound as it found them.\<close>

theorem compact_preserves_segments:
  assumes run: "compact_one_scope env args now (cat, files) = ((cat', files'), Inr (Some uri))"
    and sound: "sound_segments (ce_faults env) sch cat files"
    and sch: "ce_schema env = Inr (Some sch)" "distinct (map field_name sch)" "sch \<noteq> []"
    and parquet: "ce_readers env = parquet_readers (ce_faults env)" "ca_format args = Parquet"
      "get_fault (ce_faults env) uri = None"
    and fresh: "\<forall>s \<in> set (cat_persist_segs cat). ps_uri s \<noteq> uri"
    and small: "\<forall>b. files' uri = Some b \<longrightarrow> int (num_rows b) < 2 ^ 63"
  shows "list_all2 (\<lambda>s s'. same_identity s s' \<and>
      segment_batch (parquet_readers (ce_faults env) files') sch s' = segment_batch (parquet_readers (ce_faults env) files) sch s \<and>
      (ps_uri s' \<noteq> ps_uri s \<longrightarrow> ps_uri s' = uri \<and> (ps_uri s, now) \<in> set (cat_delete_set cat')))
      (cat_persist_segs cat) (cat_persist_segs cat') \<and>
    (\<forall>u. u \<noteq> uri \<longrightarrow> files' u = files u) \<and> sound_segments (ce_faults env) sch cat' files'"
proof -
  obtain plan sch' merged cat1 where plan: "scope_plan env args cat = Some plan" and sch': "ce_schema env = Inr (Some sch')"
    and merged': "merged_batch env sch' (plan_inputs (scope_rows args cat) plan) files = Inr merged"
    and cat1: "insert_compact_segment (ca_branch args) (ca_table args) uri cat = Inr cat1"
    and files': "files' = files(uri \<mapsto> merged)"
    and commit: "compact_commit env args now uri merged (plan_inputs (scope_rows args cat) plan)
       (plan_seals (scope_rows args cat) plan) cat1 = Inr cat'"
    by (rule compact_one_scope_success[OF run])
  note merged = merged'[folded sch'[unfolded sch(1) sum.inject option.inject]]
  let ?inputs = "plan_inputs (scope_rows args cat) plan" and ?seals = "plan_seals (scope_rows args cat) plan"
  have unique: "unique_segs cat" using sound by (simp add: sound_segments_def)
  note inputs = plan_inputs_props[OF plan unique]
  have inputs': "set ?inputs \<subseteq> set (cat_persist_segs cat)" "\<forall>t \<in> set ?inputs. ps_branch t = ca_branch args"
    using inputs(2) scope_rows_mem scope_rows_branch by blast+
  have same1: "cat_persist_segs cat1 = cat_persist_segs cat" "cat_delete_set cat1 = cat_delete_set cat"
    using cat1 by (auto simp: insert_compact_segment_def split: if_splits)
  obtain msize where segs: "cat_persist_segs cat' = map (after_wave env args uri merged msize ?inputs ?seals) (cat_persist_segs cat)"
    and del: "cat_delete_set cat' = cat_delete_set (insert_segment_delete_set_rows now (deferred_uris uri ?inputs) cat1)"
    using compact_commit_effect[OF commit inputs(1)] same1(1) by metis
  obtain bs where bs: "rmap (segment_batch (parquet_readers (ce_faults env) files) sch) ?inputs = Inr bs"
    "merged = \<lparr>schema = sch, rows = concat (map rows bs)\<rparr>"
    using merged_batch_rows[OF merged] parquet(1) by auto
  have moved: "ps_uri (after_wave env args uri merged msize ?inputs ?seals s) = uri \<and> (ps_uri s, now) \<in> set (cat_delete_set cat')"
    if "s \<in> set (cat_persist_segs cat)" "ps_uri (after_wave env args uri merged msize ?inputs ?seals s) \<noteq> ps_uri s" for s
  proof -
    have "s \<in> set ?inputs" using after_wave_moved[OF that(2) unique that(1) inputs'] .
    then obtain k where "k < length ?inputs" "?inputs ! k = s" by (auto simp: in_set_conv_nth)
    then have "ps_uri (after_wave env args uri merged msize ?inputs ?seals s) = uri"
      using repointed_input(1)[OF inputs(1)] inputs'(2) nth_mem by (fastforce simp: after_wave_storage)
    moreover have "ps_uri s \<in> set (deferred_uris uri ?inputs)"
      using \<open>s \<in> set ?inputs\<close> fresh that(1) by (auto simp: deferred_uris_def)
    ultimately show ?thesis unfolding del delete_set_insert by blast
  qed
  have keeps: "segment_batch (parquet_readers (ce_faults env) files') sch (after_wave env args uri merged msize ?inputs ?seals s) =
      segment_batch (parquet_readers (ce_faults env) files) sch s" if "s \<in> set (cat_persist_segs cat)" for s
    using wave_keeps_batch[OF sound sch(2,3) that _ inputs(1) inputs' bs files' parquet(3,2)] fresh that small files' by auto
  have "valid_batch b" if "files' u = Some b" for u b
    using that sound inputs_valid(2)[OF _ sch(2,3) bs(1)] bs(2) unfolding files' sound_segments_def
    by (auto split: if_splits)
  then have "sound_segments (ce_faults env) sch cat' files'"
    using sound keeps after_wave_unique[OF unique segs] after_wave_identity[of _ env args uri merged msize ?inputs ?seals]
    unfolding sound_segments_def segs by (auto simp: same_identity_def)
  then show ?thesis
    using moved keeps files' unfolding segs list_all2_map2
    by (auto intro!: list_all2_same[THEN iffD2] after_wave_identity)
qed

lemma compact_one_scope_cases:
  assumes "compact_one_scope env args now (cat, files) = ((cat', files'), r)"
  obtains (unchanged) "cat' = cat" "files' = files" "r = Inr None \<or> (\<exists>e. r = Inl e)"
    | (sealed) plan where "scope_plan env args cat = Some plan" "input_indices plan = []" "files' = files" "r = Inr None"
        "cat' = seal_table_persist_segments_by_uuids (ca_branch args) (plan_seals (scope_rows args cat) plan) cat"
    | (failed) e where "r = Inl e" "cat_persist_segs cat' = cat_persist_segs cat" "cat_persists cat' = cat_persists cat"
        "cat_delete_set cat' = cat_delete_set cat" "\<exists>u. \<forall>v. v \<noteq> u \<longrightarrow> files' v = files v"
    | (merged) uri where "r = Inr (Some uri)"
proof (cases "\<exists>uri. r = Inr (Some uri)")
  case False
  have write_kept: "r = Inl e \<and> cat_persist_segs cat' = cat_persist_segs cat \<and> cat_persists cat' = cat_persists cat \<and>
      cat_delete_set cat' = cat_delete_set cat \<and> (\<exists>u. \<forall>v. v \<noteq> u \<longrightarrow> files' v = files v)"
    if "write_merged env args now merged inputs seals (cat, files) = ((cat', files'), r)" "r = Inl e" for merged inputs seals e
    using that
    by (auto simp: write_merged_def Let_def insert_compact_segment_def write_cold_file_def write_file_def
        split: sum.splits option.splits prod.splits if_splits)
  have write_error: "\<exists>e. r = Inl e"
    if "write_merged env args now merged inputs seals (cat, files) = ((cat', files'), r)" for merged inputs seals
    using that False by (auto simp: write_merged_def Let_def split: sum.splits prod.splits)
  show thesis
  proof (cases "scope_plan env args cat")
    case None
    then have "cat' = cat \<and> files' = files \<and> r = Inr None" using assms by (auto simp: compact_one_scope_def Let_def)
    then show thesis using unchanged by blast
  next
    case (Some plan)
    show thesis
    proof (cases "input_indices plan = []")
      case True
      then have "files' = files \<and> r = Inr None \<and>
          cat' = seal_table_persist_segments_by_uuids (ca_branch args) (plan_seals (scope_rows args cat) plan) cat"
        using assms Some by (auto simp: compact_one_scope_def Let_def)
      then show thesis using sealed[OF Some True] by blast
    next
      case ne: False
      show thesis
      proof (cases "\<exists>sch merged. ce_schema env = Inr (Some sch) \<and> merged_batch env sch (plan_inputs (scope_rows args cat) plan) files = Inr merged")
        case True
        then obtain merged where wm: "write_merged env args now merged (plan_inputs (scope_rows args cat) plan)
            (plan_seals (scope_rows args cat) plan) (cat, files) = ((cat', files'), r)"
          using assms Some ne by (auto simp: compact_one_scope_def Let_def)
        obtain e where e: "r = Inl e" using write_error[OF wm] by blast
        show thesis using write_kept[OF wm e] failed[OF e] by blast
      next
        case False
        then have "cat' = cat \<and> files' = files \<and> (r = Inr None \<or> (\<exists>e. r = Inl e))" using assms Some ne
          by (auto simp: compact_one_scope_def Let_def split: sum.splits option.splits)
        then show thesis using unchanged by blast
      qed
    qed
  qed
qed (use merged in blast)

text \<open>C28: a call of the operation is one wave of the planner.  A call that merged files turns the
  scope's unsealed rows into the rows of the abstract wave; a call without a merged file sealed the
  planned rows or changed nothing; and a failed call leaves every segment row, the delete set and
  all files but one unused one as they were.\<close>

theorem compact_refines_wave:
  assumes run: "compact_one_scope env args now (cat, files) = ((cat', files'), r)" and unique: "unique_segs cat"
  shows "case r of
      Inr (Some uri) \<Rightarrow> (\<exists>plan sz.
        plan_wave (ce_iter env) fst (Some \<circ> snd) (scope_abs (scope_rows args cat)) (ca_max_bytes args) = Some plan \<and>
        scope_abs (scope_rows args cat') = apply_wave uri sz plan (scope_abs (scope_rows args cat)))
    | Inr None \<Rightarrow> files' = files \<and> (cat' = cat \<or> (\<exists>plan.
        plan_wave (ce_iter env) fst (Some \<circ> snd) (scope_abs (scope_rows args cat)) (ca_max_bytes args) = Some plan \<and>
        input_indices plan = [] \<and>
        (\<forall>uri sz. scope_abs (scope_rows args cat') = apply_wave uri sz plan (scope_abs (scope_rows args cat)))))
    | Inl e \<Rightarrow> cat_persist_segs cat' = cat_persist_segs cat \<and> cat_persists cat' = cat_persists cat \<and>
        cat_delete_set cat' = cat_delete_set cat \<and> (\<exists>u. \<forall>v. v \<noteq> u \<longrightarrow> files' v = files v)"
  using run
proof (cases rule: compact_one_scope_cases)
  case unchanged
  then show ?thesis by auto
next
  case (sealed plan)
  let ?seals = "set (plan_seals (scope_rows args cat) plan)"
  let ?f = "\<lambda>s. if ps_branch s = ca_branch args \<and> ps_uuid s \<in> ?seals then s\<lparr>ps_sealed := True\<rparr> else s"
  have "cat_persist_segs cat' = map ?f (cat_persist_segs cat)" "cat_persists cat' = cat_persists cat"
    unfolding sealed(5) by (auto simp: seal_table_persist_segments_by_uuids_def sql_update_def intro: map_idI[symmetric])
  then have "scope_rows args cat' = map ?f (filter (\<lambda>s. ps_uuid s \<notin> ?seals) (scope_rows args cat))"
    by (rule scope_rows_map) (auto simp: same_identity_def)
  then have "scope_abs (scope_rows args cat') = apply_wave uri sz plan (scope_abs (scope_rows args cat))" for uri sz
    by (rule scope_wave[OF sealed(1) unique]) (simp add: sealed(2) row_size_def)
  then show ?thesis using sealed by (auto simp: scope_plan_abs)
next
  case (failed e)
  then show ?thesis by auto
next
  case (merged uri)
  obtain plan sch m cat1 where plan: "scope_plan env args cat = Some plan"
    and cat1: "insert_compact_segment (ca_branch args) (ca_table args) uri cat = Inr cat1"
    and commit: "compact_commit env args now uri m (plan_inputs (scope_rows args cat) plan)
       (plan_seals (scope_rows args cat) plan) cat1 = Inr cat'"
    by (rule compact_one_scope_success[OF run[unfolded merged]])
  let ?scope = "scope_rows args cat"
  let ?inputs = "plan_inputs ?scope plan" and ?seals = "plan_seals ?scope plan"
  note inputs = plan_inputs_props[OF plan unique]
  have same1: "cat_persist_segs cat1 = cat_persist_segs cat" "cat_persists cat1 = cat_persists cat"
    using cat1 by (auto simp: insert_compact_segment_def split: if_splits)
  obtain msize where segs: "cat_persist_segs cat' = map (after_wave env args uri m msize ?inputs ?seals) (cat_persist_segs cat)"
    and parents: "cat_persists cat' = cat_persists cat"
    using compact_commit_effect[OF commit inputs(1)] same1 by metis
  have after: "scope_rows args cat' = map (after_wave env args uri m msize ?inputs ?seals) (filter (\<lambda>s. ps_uuid s \<notin> set ?seals) ?scope)"
    by (rule scope_rows_map[OF segs parents after_wave_identity]) (simp add: after_wave_storage)
  define sz where "sz i = proportional_size msize (ps_row_count (?scope ! i)) (sum_list (map ps_row_count ?inputs))" for i
  have "(ps_uri (after_wave env args uri m msize ?inputs ?seals (?scope ! i)), row_size ps_size (after_wave env args uri m msize ?inputs ?seals (?scope ! i))) =
      (if i \<in> set (input_indices plan) then (uri, sz i) else (ps_uri (?scope ! i), row_size ps_size (?scope ! i)))"
    if i: "i < length ?scope" for i
  proof (cases "i \<in> set (input_indices plan)")
    case True
    then obtain k where k: "k < length ?inputs" "?inputs ! k = ?scope ! i"
      by (auto simp: plan_inputs_def in_set_conv_nth)
    then show ?thesis
      using repointed_input[OF inputs(1) k(1), of "?scope ! i" args env uri m msize "sum_list (map ps_row_count ?inputs)" 0]
        scope_rows_branch[OF nth_mem[OF i]] True by (simp add: after_wave_storage row_size_def sz_def)
  next
    case False
    then have "ps_uuid (?scope ! i) \<notin> ps_uuid ` set ?inputs"
      using distinct_map_nth_inj[OF scope_uuids_distinct[OF unique, of args] i] scope_plan_shape(2)[OF plan]
      by (auto simp: plan_inputs_def)
    then show ?thesis using False by (simp add: after_wave_storage repointed_other row_size_def)
  qed
  then have "scope_abs (scope_rows args cat') = apply_wave uri sz plan (scope_abs ?scope)"
    by (rule scope_wave[OF plan unique after])
  then show ?thesis using plan merged by (auto simp: scope_plan_abs)
qed

section \<open>Witnesses\<close>

definition demo_segment :: "uuid \<Rightarrow> nat \<Rightarrow> string \<Rightarrow> int \<Rightarrow> persist_seg_row" where
  "demo_segment u idx uri n =
     \<lparr>ps_uuid = u, ps_persist = ''p'', ps_branch = ''b'', ps_table = ''t'', ps_chunk_idx = idx, ps_min_tx = 1, ps_max_tx = 5,
      ps_min_seq = 1, ps_max_seq = 9, ps_uri = uri, ps_offset = None, ps_length = None, ps_row_count = n,
      ps_format = ''parquet'', ps_hash = u, ps_size = Some 40, ps_statistics = None, ps_commit = Some 6, ps_sealed = False\<rparr>"

definition demo_catalog :: cold_catalog where
  "demo_catalog = empty_catalog\<lparr>
     cat_persists := [\<lparr>pm_uuid = ''p'', pm_branch = ''b'', pm_table = ''t'', pm_persisted_at = 5, pm_seq = Some 9,
       pm_log_kind = UpsertLog, pm_commit = Some 6\<rparr>],
     cat_persist_segs := [demo_segment ''s'' 0 ''f'' 2, demo_segment ''r'' 1 ''g'' 1]\<rparr>"

definition demo_files :: file_store where
  "demo_files = [''f'' \<mapsto> log_batch [(''a'', 1), (''b'', 2)], ''g'' \<mapsto> log_batch [(''c'', 3)]]"

definition demo_env :: compact_env where
  "demo_env = \<lparr>ce_iter = remdups, ce_readers = parquet_readers no_faults, ce_faults = no_faults,
     ce_schema = Inr (Some log_schema), ce_stats = (\<lambda>_. []), ce_hash = (\<lambda>_. Inr ''h''), ce_fresh = ''m''\<rparr>"

definition demo_args :: compact_args where
  "demo_args = \<lparr>ca_catalog = ''c'', ca_branch = ''b'', ca_table = ''t'', ca_kind = UpsertLog, ca_min_at = None,
     ca_max_at = None, ca_max_bytes = 100, ca_base_uri = ''base'', ca_format = Parquet\<rparr>"

lemma demo_result: "snd (compact_one_scope demo_env demo_args 8 (demo_catalog, demo_files)) = Inr (Some ''base/c/b/persist/p/m/data.parquet'')"
  by code_simp

lemma demo_counts: "map (\<lambda>s. rbind (segment_batch (parquet_readers no_faults demo_files) log_schema s) (\<lambda>b. Inr (num_rows b)))
    (cat_persist_segs demo_catalog) = [Inr 2, Inr 1]"
  by code_simp

lemma demo_merged_rows: "map_option num_rows (snd (fst (compact_one_scope demo_env demo_args 8 (demo_catalog, demo_files)))
    ''base/c/b/persist/p/m/data.parquet'') = Some 3"
  by code_simp

lemma demo_sound: "sound_segments no_faults log_schema demo_catalog demo_files"
proof -
  have "unique_segs demo_catalog" by (simp add: unique_segs_def demo_catalog_def demo_segment_def)
  moreover have "valid_batch b" if "demo_files u = Some b" for u b
    using that log_batch_valid by (auto simp: demo_files_def split: if_splits)
  moreover have "ps_row_count s = int (num_rows b)"
    if "s \<in> set (cat_persist_segs demo_catalog)" "segment_batch (parquet_readers no_faults demo_files) log_schema s = Inr b" for s b
    using that demo_counts by (auto simp: demo_catalog_def demo_segment_def)
  ultimately show ?thesis by (simp add: sound_segments_def)
qed

lemma demo_run: "\<exists>cat' files'. compact_one_scope demo_env demo_args 8 (demo_catalog, demo_files) =
    ((cat', files'), Inr (Some ''base/c/b/persist/p/m/data.parquet'')) \<and>
    map_option num_rows (files' ''base/c/b/persist/p/m/data.parquet'') = Some 3"
  using demo_result demo_merged_rows by (metis prod.collapse)

theorem compact_preserves_segments_witness:
  "\<exists>cat' files'. compact_one_scope demo_env demo_args 8 (demo_catalog, demo_files) =
      ((cat', files'), Inr (Some ''base/c/b/persist/p/m/data.parquet'')) \<and>
    list_all2 (\<lambda>s s'. segment_batch (parquet_readers no_faults files') log_schema s' =
        segment_batch (parquet_readers no_faults demo_files) log_schema s) (cat_persist_segs demo_catalog) (cat_persist_segs cat') \<and>
    files' ''f'' = demo_files ''f''"
proof -
  obtain cat' files' where run: "compact_one_scope demo_env demo_args 8 (demo_catalog, demo_files) =
      ((cat', files'), Inr (Some ''base/c/b/persist/p/m/data.parquet''))"
    and n: "map_option num_rows (files' ''base/c/b/persist/p/m/data.parquet'') = Some 3"
    using demo_run by blast
  have "\<forall>b. files' ''base/c/b/persist/p/m/data.parquet'' = Some b \<longrightarrow> int (num_rows b) < 2 ^ 63"
    using n by auto
  from compact_preserves_segments[OF run, of log_schema] this demo_sound
  have "list_all2 (\<lambda>s s'. same_identity s s' \<and>
      segment_batch (parquet_readers no_faults files') log_schema s' = segment_batch (parquet_readers no_faults demo_files) log_schema s \<and>
      (ps_uri s' \<noteq> ps_uri s \<longrightarrow> ps_uri s' = ''base/c/b/persist/p/m/data.parquet'' \<and> (ps_uri s, 8) \<in> set (cat_delete_set cat')))
      (cat_persist_segs demo_catalog) (cat_persist_segs cat') \<and>
    (\<forall>u. u \<noteq> ''base/c/b/persist/p/m/data.parquet'' \<longrightarrow> files' u = demo_files u)"
    by (simp add: demo_env_def demo_args_def demo_catalog_def demo_segment_def log_schema_def no_faults_def)
  then show ?thesis using run by (auto elim!: list_all2_mono)
qed

theorem compact_refines_wave_witness:
  "\<exists>cat' files' uri plan sz. compact_one_scope demo_env demo_args 8 (demo_catalog, demo_files) = ((cat', files'), Inr (Some uri)) \<and>
    scope_abs (scope_rows demo_args cat') = apply_wave uri sz plan (scope_abs (scope_rows demo_args demo_catalog))"
proof -
  obtain cat' files' where run: "compact_one_scope demo_env demo_args 8 (demo_catalog, demo_files) =
      ((cat', files'), Inr (Some ''base/c/b/persist/p/m/data.parquet''))"
    using demo_run by blast
  have "unique_segs demo_catalog" using demo_sound by (simp add: sound_segments_def)
  from compact_refines_wave[OF run this] run show ?thesis by auto
qed

end
