(* ===== verification/Segment_Listing.thy ===== *)
theory Segment_Listing
  imports Cold_Catalog
begin

text \<open>
  How a read plan lists a table's persist segments (\<open>read_and_classify_persist_segments\<close>,
  \<open>max_persisted_segment_seq_for_window\<close> and \<open>persist_segment_overlap_clause\<close> of
  \<open>penca-api/src/query/meta_plan.rs\<close>).  The listing is gated by the commit of the segment row; the
  join with the persist header supplies the log kind and is not gated by the header's commit.
\<close>

section \<open>Listing\<close>

definition persist_segment_overlap_clause :: "int option \<Rightarrow> int option \<Rightarrow> int option \<Rightarrow> persist_seg_row \<Rightarrow> bool" where
  "persist_segment_overlap_clause min_segment_max max_segment_min commit_seq_upper s =
     ((case min_segment_max of None \<Rightarrow> True | Some ts \<Rightarrow> ps_max_tx s > ts) \<and>
      (case max_segment_min of None \<Rightarrow> True | Some aom \<Rightarrow> ps_min_tx s \<le> aom) \<and>
      (case commit_seq_upper of None \<Rightarrow> True | Some seq \<Rightarrow> ps_min_seq s \<le> seq))"

text \<open>The segment with the kind of its header, when the header belongs to the table.\<close>

definition listed :: "uuid \<Rightarrow> uuid \<Rightarrow> cold_catalog \<Rightarrow> persist_seg_row \<Rightarrow> (log_kind \<times> persist_seg_row) option" where
  "listed branch table cat s =
     (if ps_branch s = branch \<and> ps_commit s \<noteq> None then
        (case persist_parent cat s of
           Some p \<Rightarrow> if pm_table p = table then Some (pm_log_kind p, s) else None
         | None \<Rightarrow> None)
      else None)"

definition listing_rows :: "uuid \<Rightarrow> uuid \<Rightarrow> int option \<Rightarrow> int option \<Rightarrow> int option \<Rightarrow> cold_catalog \<Rightarrow>
    (log_kind \<times> persist_seg_row) list" where
  "listing_rows branch table min_segment_max max_segment_min commit_seq_upper cat =
     sort_key (\<lambda>(k, s). (ps_min_seq s, ps_chunk_idx s))
       (filter (\<lambda>(k, s). persist_segment_overlap_clause min_segment_max max_segment_min commit_seq_upper s)
         (List.map_filter (listed branch table cat) (cat_persist_segs cat)))"

definition listed_segment :: "persist_seg_row \<Rightarrow> persist_segment result" where
  "listed_segment s =
     (case format_from_str (ps_format s) of
        Inl e \<Rightarrow> Inl (MetadataErr (''table_persist_segment_metadata.format decode failed: '' @ e))
      | Inr f \<Rightarrow> Inr \<lparr>seg_uuid = ps_uuid s, seg_uri = ps_uri s, seg_format = f, seg_row_count = ps_row_count s,
          seg_size_bytes = (case ps_size s of None \<Rightarrow> 0 | Some n \<Rightarrow> n), seg_metadata_json = ''{}'',
          seg_statistics = (case ps_statistics s of None \<Rightarrow> [] | Some b \<Rightarrow> b), seg_offset = ps_offset s,
          seg_length = ps_length s, seg_max_commit_seq_num = Some (ps_max_seq s), seg_content_hash = ps_hash s\<rparr>)"

record classified_segments =
  upsert_segments :: "persist_segment list"
  delete_segments :: "persist_segment list"

fun classify_rows :: "(log_kind \<times> persist_seg_row) list \<Rightarrow> classified_segments result" where
  "classify_rows [] = Inr \<lparr>upsert_segments = [], delete_segments = []\<rparr>"
| "classify_rows ((k, s) # rest) =
     (if ps_row_count s = 0 then classify_rows rest
      else rbind (listed_segment s) (\<lambda>seg. rbind (classify_rows rest) (\<lambda>c.
        Inr (case k of UpsertLog \<Rightarrow> c\<lparr>upsert_segments := seg # upsert_segments c\<rparr>
                     | DeleteLog \<Rightarrow> c\<lparr>delete_segments := seg # delete_segments c\<rparr>))))"

definition read_and_classify_persist_segments :: "uuid \<Rightarrow> uuid \<Rightarrow> int option \<Rightarrow> int option \<Rightarrow> int option \<Rightarrow>
    cold_catalog \<Rightarrow> classified_segments result" where
  "read_and_classify_persist_segments branch table min_segment_max max_segment_min commit_seq_upper cat =
     classify_rows (listing_rows branch table min_segment_max max_segment_min commit_seq_upper cat)"

definition max_persisted_segment_seq_for_window :: "uuid \<Rightarrow> uuid \<Rightarrow> int option \<Rightarrow> int option \<Rightarrow> cold_catalog \<Rightarrow> int option" where
  "max_persisted_segment_seq_for_window branch table from_micros to_micros cat =
     sql_max (map (\<lambda>(k, s). ps_max_seq s)
       (listing_rows branch table (map_option (\<lambda>f. i64_saturating_add f (-1)) from_micros)
         (map_option (\<lambda>t. i64_saturating_add t (-1)) to_micros) None cat))"

section \<open>Facts\<close>

lemma set_map_filter: "set (List.map_filter f xs) = {y. \<exists>x \<in> set xs. f x = Some y}"
  by (induction xs) (auto simp: map_filter_simps split: option.splits)

lemma listing_rows_mem:
  "(k, s) \<in> set (listing_rows branch table lo hi sq cat) \<longleftrightarrow>
     s \<in> set (cat_persist_segs cat) \<and> listed branch table cat s = Some (k, s) \<and> persist_segment_overlap_clause lo hi sq s"
proof -
  have "listed branch table cat x = Some (k, s) \<Longrightarrow> x = s" for x
    by (auto simp: listed_def split: if_splits option.splits)
  then show ?thesis by (auto simp: listing_rows_def set_map_filter)
qed

lemma classify_rows_upserts:
  "classify_rows rs = Inr c \<Longrightarrow>
     rmap listed_segment (map snd (filter (\<lambda>(k, s). k = UpsertLog \<and> ps_row_count s \<noteq> 0) rs)) = Inr (upsert_segments c) \<and>
     rmap listed_segment (map snd (filter (\<lambda>(k, s). k = DeleteLog \<and> ps_row_count s \<noteq> 0) rs)) = Inr (delete_segments c)"
proof (induction rs arbitrary: c rule: classify_rows.induct)
  case (2 k s rest)
  then show ?case by (cases k) (auto simp: rbind_eq_Inr split: if_splits)
qed simp

end
