(* ===== verification/Fork_Copy.thy ===== *)
theory Fork_Copy
  imports Segment_Listing
begin

text \<open>
  What a new branch inherits from its parent's cold tier
  (\<open>penca-storage-meta/src/fork_copy.rs\<close>): the snapshot at or below the fork position with its
  segments and index sidecars, and the persist segments above that snapshot, clamped to the fork
  position and sealed.  Only metadata is copied; every copied row names the parent's file.
\<close>

section \<open>Copying the baseline snapshot\<close>

text \<open>\<open>INSERT ... ON CONFLICT DO NOTHING\<close>.\<close>

definition sql_insert_new :: "('r \<Rightarrow> bool) \<Rightarrow> 'r \<Rightarrow> 'r list \<Rightarrow> 'r list" where
  "sql_insert_new hit r tbl = (if \<exists>x \<in> set tbl. hit x then tbl else tbl @ [r])"

definition insert_new_snapshot_seg :: "snapshot_seg_row \<Rightarrow> snapshot_seg_row list \<Rightarrow> snapshot_seg_row list" where
  "insert_new_snapshot_seg r tbl = sql_insert_new (snapshot_seg_key (ss_branch r) (ss_uuid r)) r tbl"

definition insert_new_snapshot_index :: "snapshot_index_row \<Rightarrow> snapshot_index_row list \<Rightarrow> snapshot_index_row list" where
  "insert_new_snapshot_index r tbl = sql_insert_new (\<lambda>x. si_branch x = si_branch r \<and> si_uuid x = si_uuid r) r tbl"

definition insert_new_sidecar :: "sidecar_row \<Rightarrow> sidecar_row list \<Rightarrow> sidecar_row list" where
  "insert_new_sidecar r tbl = sql_insert_new (\<lambda>x. sc_branch x = sc_branch r \<and> sc_uuid x = sc_uuid r) r tbl"

definition insert_new_persist :: "persist_row \<Rightarrow> persist_row list \<Rightarrow> persist_row list" where
  "insert_new_persist r tbl = sql_insert_new (persist_key (pm_branch r) (pm_uuid r)) r tbl"

definition insert_new_persist_seg :: "persist_seg_row \<Rightarrow> persist_seg_row list \<Rightarrow> persist_seg_row list" where
  "insert_new_persist_seg r tbl = sql_insert_new (persist_seg_key (ps_branch r) (ps_uuid r)) r tbl"

definition baseline_pick :: "uuid \<Rightarrow> uuid \<Rightarrow> int \<Rightarrow> int \<Rightarrow> cold_catalog \<Rightarrow> snapshot_row option" where
  "baseline_pick parent table fork_seq fork_micros cat =
     sql_top (\<lambda>r. (sm_snapshotted_at r, sm_seq r))
       (filter (\<lambda>r. sm_branch r = parent \<and> sm_table r = table \<and> sm_commit r \<noteq> None \<and> sm_seq r \<le> fork_seq \<and>
                sm_snapshotted_at r \<le> fork_micros) (cat_snapshots cat))"

definition baseline_segments :: "uuid \<Rightarrow> uuid \<Rightarrow> cold_catalog \<Rightarrow> snapshot_seg_row list" where
  "baseline_segments parent snapshot cat =
     sort_key (\<lambda>s. (ss_chunk_idx s, ss_offset s))
       (filter (\<lambda>s. ss_branch s = parent \<and> ss_snapshot s = snapshot \<and> ss_commit s \<noteq> None) (cat_snapshot_segs cat))"

definition seg_map :: "hash_fn \<Rightarrow> uuid \<Rightarrow> snapshot_seg_row list \<Rightarrow> (uuid \<times> uuid \<times> nat) list" where
  "seg_map h new_snap segs =
     map (\<lambda>(i, s). (table_snapshot_segment_uuid h new_snap i, ss_uuid s, i)) (enumerate 0 segs)"

definition copied_snapshot_segs :: "uuid \<Rightarrow> uuid \<Rightarrow> uuid \<Rightarrow> int \<Rightarrow> (uuid \<times> uuid \<times> nat) list \<Rightarrow> cold_catalog \<Rightarrow>
    snapshot_seg_row list" where
  "copied_snapshot_segs child parent new_snap commit m cat =
     concat (map (\<lambda>(new_uuid, old_uuid, idx).
         map (\<lambda>old. old\<lparr>ss_uuid := new_uuid, ss_snapshot := new_snap, ss_branch := child, ss_chunk_idx := idx,
               ss_commit := Some commit\<rparr>)
           (filter (snapshot_seg_key parent old_uuid) (cat_snapshot_segs cat))) m)"

definition index_map :: "hash_fn \<Rightarrow> uuid \<Rightarrow> snapshot_index_row list \<Rightarrow> (uuid \<times> uuid \<times> string) list" where
  "index_map h new_snap idxs =
     map (\<lambda>r. (table_snapshot_index_uuid h new_snap (si_index r), si_uuid r,
               case si_index r of None \<Rightarrow> ''row_uuid'' | Some u \<Rightarrow> u)) idxs"

definition copied_indexes :: "uuid \<Rightarrow> uuid \<Rightarrow> uuid \<Rightarrow> int \<Rightarrow> (uuid \<times> uuid \<times> string) list \<Rightarrow> cold_catalog \<Rightarrow>
    snapshot_index_row list" where
  "copied_indexes child parent new_snap commit m cat =
     concat (map (\<lambda>(new_parent, old_parent, _).
         map (\<lambda>old. old\<lparr>si_uuid := new_parent, si_branch := child, si_snapshot := new_snap, si_commit := Some commit\<rparr>)
           (filter (\<lambda>r. si_branch r = parent \<and> si_uuid r = old_parent) (cat_snapshot_indexes cat))) m)"

definition copied_sidecars :: "hash_fn \<Rightarrow> uuid \<Rightarrow> uuid \<Rightarrow> int \<Rightarrow> (uuid \<times> uuid \<times> string) list \<Rightarrow> (uuid \<times> uuid \<times> nat) list \<Rightarrow>
    cold_catalog \<Rightarrow> sidecar_row list" where
  "copied_sidecars h child parent commit parent_map segs cat =
     concat (map (\<lambda>(new_parent, old_parent, slug). concat (map (\<lambda>(new_seg, old_seg, _).
         map (\<lambda>old. old\<lparr>sc_uuid := row_uuid_for_pk h new_seg [slug], sc_branch := child, sc_segment := new_seg,
               sc_snapshot_index := new_parent, sc_commit := Some commit\<rparr>)
           (filter (\<lambda>r. sc_branch r = parent \<and> sc_segment r = old_seg \<and> sc_snapshot_index r = old_parent \<and>
                    sc_commit r \<noteq> None) (cat_sidecars cat))) segs)) parent_map)"

definition copy_inherited_snapshot :: "hash_fn \<Rightarrow> uuid \<Rightarrow> uuid \<Rightarrow> uuid \<Rightarrow> uuid \<Rightarrow> int \<Rightarrow> int \<Rightarrow> int \<Rightarrow> cold_catalog \<Rightarrow>
    cold_catalog \<times> (uuid \<times> int) option" where
  "copy_inherited_snapshot h catalog child parent table fork_seq fork_micros commit cat =
     (case baseline_pick parent table fork_seq fork_micros cat of
        None \<Rightarrow> (cat, None)
      | Some old \<Rightarrow>
          let new_snap = table_snapshot_uuid h catalog child table (sm_snapshotted_at old);
              cat1 = cat\<lparr>cat_snapshots := sql_insert_new (snapshot_key child new_snap)
                (old\<lparr>sm_uuid := new_snap, sm_branch := child, sm_commit := Some commit\<rparr>) (cat_snapshots cat)\<rparr>;
              segs = seg_map h new_snap (baseline_segments parent (sm_uuid old) cat1);
              cat2 = cat1\<lparr>cat_snapshot_segs :=
                fold insert_new_snapshot_seg (copied_snapshot_segs child parent new_snap commit segs cat1) (cat_snapshot_segs cat1)\<rparr>;
              parents = index_map h new_snap (filter (\<lambda>r. si_branch r = parent \<and> si_snapshot r = sm_uuid old \<and>
                si_commit r \<noteq> None) (cat_snapshot_indexes cat2));
              cat3 = cat2\<lparr>cat_snapshot_indexes :=
                fold insert_new_snapshot_index (copied_indexes child parent new_snap commit parents cat2) (cat_snapshot_indexes cat2)\<rparr>;
              cat4 = cat3\<lparr>cat_sidecars :=
                fold insert_new_sidecar (copied_sidecars h child parent commit parents segs cat3) (cat_sidecars cat3)\<rparr> in
          (cat4, Some (new_snap, sm_snapshotted_at old)))"

section \<open>Copying persist segments\<close>

definition least_seq :: "int option \<Rightarrow> int \<Rightarrow> int option" where
  "least_seq seq fork_seq = (case seq of None \<Rightarrow> Some fork_seq | Some s \<Rightarrow> Some (min s fork_seq))"

definition copied_header :: "uuid \<Rightarrow> uuid \<Rightarrow> int \<Rightarrow> int \<Rightarrow> persist_row \<Rightarrow> persist_row" where
  "copied_header child new_header fork_seq commit old =
     old\<lparr>pm_uuid := new_header, pm_branch := child, pm_seq := least_seq (pm_seq old) fork_seq, pm_commit := Some commit\<rparr>"

definition header_segments :: "uuid \<Rightarrow> uuid \<Rightarrow> int \<Rightarrow> cold_catalog \<Rightarrow> persist_seg_row list" where
  "header_segments parent header fork_seq cat =
     sort_key ps_chunk_idx
       (filter (\<lambda>s. ps_branch s = parent \<and> ps_persist s = header \<and> ps_commit s \<noteq> None \<and> ps_min_seq s \<le> fork_seq)
         (cat_persist_segs cat))"

definition copied_segment :: "uuid \<Rightarrow> uuid \<Rightarrow> uuid \<Rightarrow> int \<Rightarrow> int \<Rightarrow> persist_seg_row \<Rightarrow> persist_seg_row" where
  "copied_segment child new_header new_uuid fork_seq commit old =
     old\<lparr>ps_uuid := new_uuid, ps_persist := new_header, ps_branch := child, ps_max_seq := min (ps_max_seq old) fork_seq,
         ps_sealed := True, ps_commit := Some commit\<rparr>"

text \<open>One turn of the header loop, with whether it wrote a header.\<close>

definition copy_header :: "hash_fn \<Rightarrow> uuid \<Rightarrow> uuid \<Rightarrow> uuid \<Rightarrow> uuid \<Rightarrow> int \<Rightarrow> int \<Rightarrow> int \<Rightarrow> persist_row \<Rightarrow>
    cold_catalog \<times> bool \<Rightarrow> cold_catalog \<times> bool" where
  "copy_header h catalog child parent table fork_seq segment_from commit old = (\<lambda>(cat, wrote_any).
     let new_header = table_persist_uuid h catalog child table (pm_persisted_at old) (pm_log_kind old);
         is_baseline_header = (pm_persisted_at old \<le> i64_saturating_add segment_from (-1));
         segs = (if is_baseline_header then [] else header_segments parent (pm_uuid old) fork_seq cat) in
     if \<not> is_baseline_header \<and> segs = [] then (cat, wrote_any)
     else
       let cat1 = cat\<lparr>cat_persists := insert_new_persist (copied_header child new_header fork_seq commit old) (cat_persists cat)\<rparr>;
           news = map (\<lambda>s. copied_segment child new_header (table_persist_segment_uuid h new_header (ps_chunk_idx s))
                    fork_seq commit s) segs in
       (cat1\<lparr>cat_persist_segs := fold insert_new_persist_seg news (cat_persist_segs cat1)\<rparr>, True))"

definition inherited_headers :: "uuid \<Rightarrow> uuid \<Rightarrow> int \<Rightarrow> cold_catalog \<Rightarrow> persist_row list" where
  "inherited_headers parent table header_from cat =
     sort_key pm_persisted_at
       (filter (\<lambda>r. pm_branch r = parent \<and> pm_table r = table \<and> pm_commit r \<noteq> None \<and> header_from \<le> pm_persisted_at r)
         (cat_persists cat))"

definition header_from :: "int option \<Rightarrow> int" where
  "header_from baseline = (case baseline of None \<Rightarrow> i64_min | Some w \<Rightarrow> w)"

definition segment_from :: "int option \<Rightarrow> int" where
  "segment_from baseline = (case baseline of None \<Rightarrow> i64_min | Some w \<Rightarrow> i64_saturating_add w 1)"

definition copy_inherited_persist :: "hash_fn \<Rightarrow> uuid \<Rightarrow> uuid \<Rightarrow> uuid \<Rightarrow> uuid \<Rightarrow> int \<Rightarrow> int option \<Rightarrow> int \<Rightarrow>
    cold_catalog \<Rightarrow> cold_catalog result" where
  "copy_inherited_persist h catalog child parent table fork_seq baseline commit cat =
     (case fold (copy_header h catalog child parent table fork_seq (segment_from baseline) commit)
        (inherited_headers parent table (header_from baseline) cat) (cat, False) of
        (cat', wrote_any) \<Rightarrow>
          if \<not> wrote_any \<and> baseline \<noteq> None
          then Inl (FailedPrecondition ''cannot fork table: the source has no persist run at or below that position'')
          else Inr cat')"

definition materialize_fork_cold_references :: "hash_fn \<Rightarrow> uuid \<Rightarrow> uuid \<Rightarrow> uuid \<Rightarrow> uuid \<Rightarrow> int \<Rightarrow> int \<Rightarrow> int \<Rightarrow>
    cold_catalog \<Rightarrow> cold_catalog result" where
  "materialize_fork_cold_references h catalog child parent table fork_seq fork_micros commit cat =
     (case copy_inherited_snapshot h catalog child parent table fork_seq fork_micros commit cat of
        (cat1, baseline) \<Rightarrow>
          rbind (copy_inherited_persist h catalog child parent table fork_seq (map_option snd baseline) commit cat1) (\<lambda>cat2.
          let purge_uuid = table_purge_uuid h catalog child table fork_seq 0 in
          Inr (commit_table_purge commit child purge_uuid
                (insert_table_purge purge_uuid child table (Some fork_seq) None cat2))))"

section \<open>The copies of one table\<close>

definition new_header_uuid :: "hash_fn \<Rightarrow> uuid \<Rightarrow> uuid \<Rightarrow> uuid \<Rightarrow> persist_row \<Rightarrow> uuid" where
  "new_header_uuid h catalog child table old = table_persist_uuid h catalog child table (pm_persisted_at old) (pm_log_kind old)"

definition header_copies :: "hash_fn \<Rightarrow> uuid \<Rightarrow> uuid \<Rightarrow> uuid \<Rightarrow> uuid \<Rightarrow> int \<Rightarrow> int \<Rightarrow> int \<Rightarrow> cold_catalog \<Rightarrow>
    persist_row \<Rightarrow> persist_seg_row list" where
  "header_copies h catalog child parent table fork_seq seg_from commit cat old =
     (if pm_persisted_at old \<le> i64_saturating_add seg_from (-1) then []
      else map (\<lambda>s. copied_segment child (new_header_uuid h catalog child table old)
               (table_persist_segment_uuid h (new_header_uuid h catalog child table old) (ps_chunk_idx s)) fork_seq commit s)
             (header_segments parent (pm_uuid old) fork_seq cat))"

text \<open>The parent's rows above the baseline with a position at or below the fork, in copy order.\<close>

definition inherited_segments :: "uuid \<Rightarrow> uuid \<Rightarrow> int \<Rightarrow> int option \<Rightarrow> cold_catalog \<Rightarrow> (persist_row \<times> persist_seg_row) list" where
  "inherited_segments parent table fork_seq baseline cat =
     concat (map (\<lambda>old. if pm_persisted_at old \<le> i64_saturating_add (segment_from baseline) (-1) then []
         else map (\<lambda>s. (old, s)) (header_segments parent (pm_uuid old) fork_seq cat))
       (inherited_headers parent table (header_from baseline) cat))"

definition fork_copy_row :: "hash_fn \<Rightarrow> uuid \<Rightarrow> uuid \<Rightarrow> uuid \<Rightarrow> int \<Rightarrow> int \<Rightarrow> persist_row \<times> persist_seg_row \<Rightarrow> persist_seg_row" where
  "fork_copy_row h catalog child table fork_seq commit = (\<lambda>(old, s).
     copied_segment child (new_header_uuid h catalog child table old)
       (table_persist_segment_uuid h (new_header_uuid h catalog child table old) (ps_chunk_idx s)) fork_seq commit s)"

lemma fork_copy_rows:
  "map (fork_copy_row h catalog child table fork_seq commit) (inherited_segments parent table fork_seq baseline cat) =
   concat (map (header_copies h catalog child parent table fork_seq (segment_from baseline) commit cat)
     (inherited_headers parent table (header_from baseline) cat))"
  unfolding inherited_segments_def map_concat
  by (rule arg_cong[where f = concat]) (auto simp: header_copies_def fork_copy_row_def)

lemma fold_insert_new_persist_seg:
  assumes "distinct (map ps_uuid news)" "\<forall>n \<in> set news. ps_branch n = child"
    and "\<forall>n \<in> set news. \<forall>r \<in> set tbl. ps_branch r = child \<longrightarrow> ps_uuid r \<noteq> ps_uuid n"
  shows "fold insert_new_persist_seg news tbl = tbl @ news"
  using assms
proof (induction news arbitrary: tbl)
  case (Cons n news)
  have "\<not> (\<exists>r \<in> set tbl. persist_seg_key (ps_branch n) (ps_uuid n) r)"
  proof
    assume "\<exists>r \<in> set tbl. persist_seg_key (ps_branch n) (ps_uuid n) r"
    then obtain r where r: "r \<in> set tbl" "ps_branch r = ps_branch n" "ps_uuid r = ps_uuid n"
      by (auto simp: persist_seg_key_def)
    moreover have "ps_branch n = child" using Cons.prems(2) by simp
    ultimately show False using Cons.prems(3)[rule_format, of n r] by simp
  qed
  then have one: "insert_new_persist_seg n tbl = tbl @ [n]"
    by (simp add: insert_new_persist_seg_def sql_insert_new_def)
  have "fold insert_new_persist_seg news (tbl @ [n]) = (tbl @ [n]) @ news"
  proof (rule Cons.IH)
    show "distinct (map ps_uuid news)" and "\<forall>n \<in> set news. ps_branch n = child" using Cons.prems(1,2) by simp_all
    show "\<forall>m \<in> set news. \<forall>r \<in> set (tbl @ [n]). ps_branch r = child \<longrightarrow> ps_uuid r \<noteq> ps_uuid m"
    proof (intro ballI impI)
      fix m r
      assume m: "m \<in> set news" "r \<in> set (tbl @ [n])" "ps_branch r = child"
      show "ps_uuid r \<noteq> ps_uuid m"
      proof (cases "r = n")
        case True
        then show ?thesis using Cons.prems(1) imageI[OF m(1), of ps_uuid] by (metis distinct.simps(2) list.set_map list.simps(9))
      next
        case False
        then show ?thesis using Cons.prems(3)[rule_format, of m r] m by simp
      qed
    qed
  qed
  then show ?case using one by simp
qed simp

lemma copied_segment_simps [simp]:
  "ps_branch (copied_segment child hdr u fork_seq commit s) = child"
  "ps_uuid (copied_segment child hdr u fork_seq commit s) = u"
  "ps_uri (copied_segment child hdr u fork_seq commit s) = ps_uri s"
  "ps_commit (copied_segment child hdr u fork_seq commit s) = Some commit"
  by (simp_all add: copied_segment_def)

lemma copy_header_segs:
  assumes "distinct (map ps_uuid (header_copies h catalog child parent table fork_seq seg_from commit cat old))"
    and "\<forall>n \<in> set (header_copies h catalog child parent table fork_seq seg_from commit cat old).
      \<forall>r \<in> set (cat_persist_segs cat). ps_branch r = child \<longrightarrow> ps_uuid r \<noteq> ps_uuid n"
    and "copy_header h catalog child parent table fork_seq seg_from commit old (cat, w) = (cat', w')"
  shows "cat_persist_segs cat' = cat_persist_segs cat @ header_copies h catalog child parent table fork_seq seg_from commit cat old"
proof -
  have "\<forall>n \<in> set (header_copies h catalog child parent table fork_seq seg_from commit cat old). ps_branch n = child"
    by (auto simp: header_copies_def)
  note ins = fold_insert_new_persist_seg[OF assms(1) this assms(2)]
  show ?thesis
    using assms(3) ins by (auto simp: copy_header_def header_copies_def Let_def new_header_uuid_def split: if_splits)
qed

lemma header_segments_append:
  assumes "\<forall>n \<in> set news. ps_branch n = child" "child \<noteq> parent" "cat_persist_segs cat' = cat_persist_segs cat @ news"
  shows "header_segments parent u fork_seq cat' = header_segments parent u fork_seq cat"
  using assms by (auto simp: header_segments_def filter_empty_conv intro!: arg_cong[where f = "sort_key ps_chunk_idx"])

lemma copy_headers_segs:
  assumes "distinct (map ps_uuid (concat (map (header_copies h catalog child parent table fork_seq seg_from commit cat) hs)))"
    and "\<forall>n \<in> set (concat (map (header_copies h catalog child parent table fork_seq seg_from commit cat) hs)).
      \<forall>r \<in> set (cat_persist_segs cat). ps_branch r = child \<longrightarrow> ps_uuid r \<noteq> ps_uuid n"
    and "child \<noteq> parent"
    and "fold (copy_header h catalog child parent table fork_seq seg_from commit) hs (cat, w) = (cat', w')"
  shows "cat_persist_segs cat' = cat_persist_segs cat @
    concat (map (header_copies h catalog child parent table fork_seq seg_from commit cat) hs)"
  using assms
proof (induction hs arbitrary: cat w)
  case (Cons old hs)
  let ?copies = "header_copies h catalog child parent table fork_seq seg_from commit"
  obtain cat1 w1 where one: "copy_header h catalog child parent table fork_seq seg_from commit old (cat, w) = (cat1, w1)"
    by fastforce
  have d1: "distinct (map ps_uuid (?copies cat old))" using Cons.prems(1) by simp
  have f1: "\<forall>n \<in> set (?copies cat old). \<forall>r \<in> set (cat_persist_segs cat). ps_branch r = child \<longrightarrow> ps_uuid r \<noteq> ps_uuid n"
    using Cons.prems(2) by auto
  have segs: "cat_persist_segs cat1 = cat_persist_segs cat @ ?copies cat old"
    by (rule copy_header_segs[OF d1 f1 one])
  have "?copies cat1 = ?copies cat"
    using header_segments_append[OF _ Cons.prems(3) segs] by (auto simp: header_copies_def fun_eq_iff)
  note same = this
  let ?rest = "concat (map (?copies cat) hs)"
  have split: "distinct (map ps_uuid (?copies cat old) @ map ps_uuid ?rest)" using Cons.prems(1) by simp
  have "cat_persist_segs cat' = cat_persist_segs cat1 @ concat (map (?copies cat1) hs)"
  proof (rule Cons.IH)
    show "distinct (map ps_uuid (concat (map (?copies cat1) hs)))" using split unfolding same by simp
    show "fold (copy_header h catalog child parent table fork_seq seg_from commit) hs (cat1, w1) = (cat', w')"
      using Cons.prems(4) one by simp
    show "child \<noteq> parent" by (rule Cons.prems(3))
    show "\<forall>n \<in> set (concat (map (?copies cat1) hs)). \<forall>r \<in> set (cat_persist_segs cat1). ps_branch r = child \<longrightarrow> ps_uuid r \<noteq> ps_uuid n"
      unfolding same
    proof (intro ballI impI)
      fix n r
      assume n: "n \<in> set ?rest" and r: "r \<in> set (cat_persist_segs cat1)" "ps_branch r = child"
      consider "r \<in> set (cat_persist_segs cat)" | "r \<in> set (?copies cat old)" using r(1) segs by auto
      then show "ps_uuid r \<noteq> ps_uuid n"
      proof cases
        case 1
        moreover have "n \<in> set (concat (map (?copies cat) (old # hs)))" using n by simp
        ultimately show ?thesis using Cons.prems(2) r(2) by blast
      next
        case 2
        have "ps_uuid r \<in> set (map ps_uuid (?copies cat old))" unfolding set_map by (rule imageI[OF 2])
        moreover have "ps_uuid n \<in> set (map ps_uuid ?rest)" unfolding set_map by (rule imageI[OF n])
        moreover have "set (map ps_uuid (?copies cat old)) \<inter> set (map ps_uuid ?rest) = {}"
          using split unfolding distinct_append by (rule conjunct2[OF conjunct2])
        ultimately show ?thesis by (metis disjoint_iff)
      qed
    qed
  qed
  then show ?case using segs same by simp
qed simp

lemma header_segments_insert:
  assumes "\<forall>n \<in> set news. ps_branch n \<noteq> parent"
  shows "header_segments parent u f (cat\<lparr>cat_persist_segs := fold insert_new_persist_seg news tbl\<rparr>) =
    header_segments parent u f (cat\<lparr>cat_persist_segs := tbl\<rparr>)"
  using assms
proof (induction news arbitrary: tbl)
  case (Cons n news)
  have "header_segments parent u f (cat\<lparr>cat_persist_segs := insert_new_persist_seg n tbl\<rparr>) =
      header_segments parent u f (cat\<lparr>cat_persist_segs := tbl\<rparr>)"
    using Cons.prems by (simp add: header_segments_def insert_new_persist_seg_def sql_insert_new_def)
  then show ?case using Cons.IH[of "insert_new_persist_seg n tbl"] Cons.prems by simp
qed simp

text \<open>The parent's headers that the loop copies: the bare baseline header and those with a segment
  at or below the fork.\<close>

definition kept_header :: "uuid \<Rightarrow> int \<Rightarrow> int \<Rightarrow> cold_catalog \<Rightarrow> persist_row \<Rightarrow> bool" where
  "kept_header parent fork_seq seg_from cat old =
     (pm_persisted_at old \<le> i64_saturating_add seg_from (-1) \<or> header_segments parent (pm_uuid old) fork_seq cat \<noteq> [])"

definition header_copy :: "hash_fn \<Rightarrow> uuid \<Rightarrow> uuid \<Rightarrow> uuid \<Rightarrow> int \<Rightarrow> int \<Rightarrow> persist_row \<Rightarrow> persist_row" where
  "header_copy h catalog child table fork_seq commit old =
     copied_header child (new_header_uuid h catalog child table old) fork_seq commit old"

lemma header_copy_simps [simp]:
  "pm_branch (header_copy h catalog child table fork_seq commit old) = child"
  "pm_uuid (header_copy h catalog child table fork_seq commit old) = new_header_uuid h catalog child table old"
  "pm_table (header_copy h catalog child table fork_seq commit old) = pm_table old"
  "pm_log_kind (header_copy h catalog child table fork_seq commit old) = pm_log_kind old"
  "pm_persisted_at (header_copy h catalog child table fork_seq commit old) = pm_persisted_at old"
  "pm_commit (header_copy h catalog child table fork_seq commit old) = Some commit"
  by (simp_all add: header_copy_def copied_header_def)

lemma copy_header_parents:
  assumes "copy_header h catalog child parent table fork_seq seg_from commit old (cat, w) = (cat', w')" "child \<noteq> parent"
  shows "cat_persists cat' = (if kept_header parent fork_seq seg_from cat old
      then insert_new_persist (header_copy h catalog child table fork_seq commit old) (cat_persists cat) else cat_persists cat)"
    and "w' = (w \<or> kept_header parent fork_seq seg_from cat old)"
    and "header_segments parent u fork_seq cat' = header_segments parent u fork_seq cat"
    and "cat_snapshots cat' = cat_snapshots cat" "cat_purges cat' = cat_purges cat"
proof -
  show "cat_persists cat' = (if kept_header parent fork_seq seg_from cat old
      then insert_new_persist (header_copy h catalog child table fork_seq commit old) (cat_persists cat) else cat_persists cat)"
    and "w' = (w \<or> kept_header parent fork_seq seg_from cat old)"
    and "cat_snapshots cat' = cat_snapshots cat" "cat_purges cat' = cat_purges cat"
    using assms(1)
    by (auto simp: copy_header_def kept_header_def header_copy_def new_header_uuid_def Let_def split: if_splits)
  have drop: "header_segments parent u fork_seq (cat\<lparr>cat_persists := tbl\<rparr>) =
      header_segments parent u fork_seq cat" for tbl
    by (simp add: header_segments_def)
  show "header_segments parent u fork_seq cat' = header_segments parent u fork_seq cat"
    using assms by (auto simp: copy_header_def Let_def header_segments_insert drop split: if_splits)
qed

lemma copy_headers_parents:
  assumes "distinct (map (new_header_uuid h catalog child table) (filter (kept_header parent fork_seq seg_from cat) hs))"
    and "\<forall>n \<in> set (filter (kept_header parent fork_seq seg_from cat) hs). \<forall>r \<in> set (cat_persists cat).
      pm_branch r = child \<longrightarrow> pm_uuid r \<noteq> new_header_uuid h catalog child table n"
    and "child \<noteq> parent"
    and "fold (copy_header h catalog child parent table fork_seq seg_from commit) hs (cat, w) = (cat', w')"
  shows "cat_persists cat' = cat_persists cat @
      map (header_copy h catalog child table fork_seq commit) (filter (kept_header parent fork_seq seg_from cat) hs) \<and>
    w' = (w \<or> (\<exists>old \<in> set hs. kept_header parent fork_seq seg_from cat old)) \<and>
    cat_snapshots cat' = cat_snapshots cat \<and> cat_purges cat' = cat_purges cat"
  using assms
proof (induction hs arbitrary: cat w)
  case (Cons old hs)
  let ?kept = "kept_header parent fork_seq seg_from"
  obtain cat1 w1 where one: "copy_header h catalog child parent table fork_seq seg_from commit old (cat, w) = (cat1, w1)"
    by fastforce
  note step = copy_header_parents[OF one Cons.prems(3)]
  have same: "?kept cat1 = ?kept cat" by (simp add: kept_header_def step(3) fun_eq_iff)
  have persists: "cat_persists cat1 = cat_persists cat @
      (if ?kept cat old then [header_copy h catalog child table fork_seq commit old] else [])"
  proof (cases "?kept cat old")
    case True
    then have "\<not> (\<exists>r \<in> set (cat_persists cat). persist_key child (new_header_uuid h catalog child table old) r)"
      using Cons.prems(2)[rule_format, of old] by (auto simp: persist_key_def)
    then show ?thesis using True step(1) by (simp add: insert_new_persist_def sql_insert_new_def)
  qed (simp add: step(1))
  have rest: "cat_persists cat' = cat_persists cat1 @
      map (header_copy h catalog child table fork_seq commit) (filter (?kept cat1) hs) \<and>
    w' = (w1 \<or> (\<exists>old \<in> set hs. ?kept cat1 old)) \<and> cat_snapshots cat' = cat_snapshots cat1 \<and> cat_purges cat' = cat_purges cat1"
  proof (rule Cons.IH)
    show "distinct (map (new_header_uuid h catalog child table) (filter (?kept cat1) hs))"
      using Cons.prems(1) unfolding same by (simp split: if_splits)
    show "child \<noteq> parent" by (rule Cons.prems(3))
    show "fold (copy_header h catalog child parent table fork_seq seg_from commit) hs (cat1, w1) = (cat', w')"
      using Cons.prems(4) one by simp
    show "\<forall>n \<in> set (filter (?kept cat1) hs). \<forall>r \<in> set (cat_persists cat1).
        pm_branch r = child \<longrightarrow> pm_uuid r \<noteq> new_header_uuid h catalog child table n"
    proof (intro ballI impI)
      fix n r
      assume n: "n \<in> set (filter (?kept cat1) hs)" and r: "r \<in> set (cat_persists cat1)" "pm_branch r = child"
      consider "r \<in> set (cat_persists cat)" | "?kept cat old" "r = header_copy h catalog child table fork_seq commit old"
        using r(1) unfolding persists by (auto split: if_splits)
      then show "pm_uuid r \<noteq> new_header_uuid h catalog child table n"
      proof cases
        case 1
        then show ?thesis using Cons.prems(2)[rule_format, of n r] n r(2) unfolding same by simp
      next
        case 2
        then have "new_header_uuid h catalog child table old \<notin>
            set (map (new_header_uuid h catalog child table) (filter (?kept cat) hs))"
          using Cons.prems(1) by simp
        moreover have "new_header_uuid h catalog child table n \<in>
            set (map (new_header_uuid h catalog child table) (filter (?kept cat) hs))"
          using n unfolding same set_map by (rule imageI)
        ultimately show ?thesis using 2 by (metis header_copy_simps(2))
      qed
    qed
  qed
  then show ?case using step(2,4,5) persists same by (auto split: if_splits)
qed simp

lemma copy_inherited_snapshot_frame:
  assumes "copy_inherited_snapshot h catalog child parent table fork_seq fork_micros commit cat = (cat1, b)"
  shows "cat_persists cat1 = cat_persists cat" "cat_persist_segs cat1 = cat_persist_segs cat" "cat_purges cat1 = cat_purges cat"
    "map_option snd b = map_option sm_snapshotted_at (baseline_pick parent table fork_seq fork_micros cat)"
  using assms by (auto simp: copy_inherited_snapshot_def Let_def split: option.splits)

section \<open>What the child inherits\<close>

abbreviation fork_baseline :: "uuid \<Rightarrow> uuid \<Rightarrow> int \<Rightarrow> int \<Rightarrow> cold_catalog \<Rightarrow> int option" where
  "fork_baseline parent table fork_seq fork_micros cat \<equiv>
     map_option sm_snapshotted_at (baseline_pick parent table fork_seq fork_micros cat)"

text \<open>The derived identifiers of the child's rows do not collide, neither with each other nor with
  rows the child already has (of tables copied before).\<close>

definition fork_ids_fresh :: "hash_fn \<Rightarrow> uuid \<Rightarrow> uuid \<Rightarrow> uuid \<Rightarrow> uuid \<Rightarrow> int \<Rightarrow> int option \<Rightarrow> cold_catalog \<Rightarrow> bool" where
  "fork_ids_fresh h catalog child parent table fork_seq baseline cat =
     (let headers = map (new_header_uuid h catalog child table) (inherited_headers parent table (header_from baseline) cat);
          segs = map (\<lambda>(old, s). table_persist_segment_uuid h (new_header_uuid h catalog child table old) (ps_chunk_idx s))
                   (inherited_segments parent table fork_seq baseline cat) in
      distinct headers \<and> distinct segs \<and>
      (\<forall>r \<in> set (cat_persists cat). pm_branch r = child \<longrightarrow> pm_uuid r \<notin> set headers) \<and>
      (\<forall>r \<in> set (cat_persist_segs cat). ps_branch r = child \<longrightarrow> ps_uuid r \<notin> set segs))"

lemma fork_copy_row_uuid:
  "ps_uuid (fork_copy_row h catalog child table fork_seq commit x) =
     (\<lambda>(old, s). table_persist_segment_uuid h (new_header_uuid h catalog child table old) (ps_chunk_idx s)) x"
  by (simp add: fork_copy_row_def split: prod.splits)

lemma fork_rows:
  fixes fork_micros
  assumes run: "materialize_fork_cold_references h catalog child parent table fork_seq fork_micros commit cat = Inr cat'"
    and other: "child \<noteq> parent"
    and ids: "fork_ids_fresh h catalog child parent table fork_seq (fork_baseline parent table fork_seq fork_micros cat) cat"
  defines "b \<equiv> fork_baseline parent table fork_seq fork_micros cat"
  defines "kept \<equiv> filter (kept_header parent fork_seq (segment_from b) cat) (inherited_headers parent table (header_from b) cat)"
  shows "cat_persists cat' = cat_persists cat @ map (header_copy h catalog child table fork_seq commit) kept"
    and "cat_persist_segs cat' = cat_persist_segs cat @
      map (fork_copy_row h catalog child table fork_seq commit) (inherited_segments parent table fork_seq b cat)"
    and "b = None \<or> kept \<noteq> []"
    and "cat_purges cat' = cat_purges (commit_table_purge commit child (table_purge_uuid h catalog child table fork_seq 0)
      (insert_table_purge (table_purge_uuid h catalog child table fork_seq 0) child table (Some fork_seq) None cat))"
    and "cat_snapshots cat' = cat_snapshots (fst (copy_inherited_snapshot h catalog child parent table fork_seq fork_micros commit cat))"
proof -
  obtain cat1 base where snap: "copy_inherited_snapshot h catalog child parent table fork_seq fork_micros commit cat = (cat1, base)"
    by fastforce
  note frame = copy_inherited_snapshot_frame[OF snap, folded b_def]
  have heads: "inherited_headers parent table x cat1 = inherited_headers parent table x cat" for x
    by (simp add: inherited_headers_def frame)
  have hsegs: "header_segments parent u fork_seq cat1 = header_segments parent u fork_seq cat" for u
    by (simp add: header_segments_def frame)
  have kepts: "kept_header parent fork_seq (segment_from b) cat1 = kept_header parent fork_seq (segment_from b) cat"
    by (simp add: kept_header_def hsegs fun_eq_iff)
  have copies: "header_copies h catalog child parent table fork_seq (segment_from b) commit cat1 =
      header_copies h catalog child parent table fork_seq (segment_from b) commit cat"
    by (simp add: header_copies_def hsegs fun_eq_iff)
  let ?hs = "inherited_headers parent table (header_from b) cat"
  let ?rows = "map (fork_copy_row h catalog child table fork_seq commit) (inherited_segments parent table fork_seq b cat)"
  note rows = fork_copy_rows[of h catalog child table fork_seq commit parent b cat]
  obtain cat2 w where loop: "fold (copy_header h catalog child parent table fork_seq (segment_from b) commit) ?hs (cat1, False) = (cat2, w)"
    by fastforce
  have persist: "copy_inherited_persist h catalog child parent table fork_seq b commit cat1 = (if \<not> w \<and> b \<noteq> None
      then Inl (FailedPrecondition ''cannot fork table: the source has no persist run at or below that position'') else Inr cat2)"
    unfolding copy_inherited_persist_def heads loop by simp
  have fine: "w \<or> b = None" and cat': "cat' = commit_table_purge commit child (table_purge_uuid h catalog child table fork_seq 0)
      (insert_table_purge (table_purge_uuid h catalog child table fork_seq 0) child table (Some fork_seq) None cat2)"
    using run unfolding materialize_fork_cold_references_def snap prod.case frame(4) persist Let_def
    by (simp_all add: rbind_eq_Inr split: if_splits)
  note ids' = ids[folded b_def, unfolded fork_ids_fresh_def Let_def]
  have "distinct (map (new_header_uuid h catalog child table) (filter (kept_header parent fork_seq (segment_from b) cat1) ?hs))"
    using ids' by (metis distinct_map_filter)
  moreover have "\<forall>n \<in> set (filter (kept_header parent fork_seq (segment_from b) cat1) ?hs). \<forall>r \<in> set (cat_persists cat1).
      pm_branch r = child \<longrightarrow> pm_uuid r \<noteq> new_header_uuid h catalog child table n"
    unfolding frame(1)
  proof (intro ballI impI notI)
    fix n r
    assume n: "n \<in> set (filter (kept_header parent fork_seq (segment_from b) cat1) ?hs)" "r \<in> set (cat_persists cat)"
      "pm_branch r = child" "pm_uuid r = new_header_uuid h catalog child table n"
    have "n \<in> set ?hs" using n(1) by simp
    then have "new_header_uuid h catalog child table n \<in> set (map (new_header_uuid h catalog child table) ?hs)"
      unfolding set_map by (rule imageI)
    then show False using ids' n(2-4) by metis
  qed
  ultimately have heads': "cat_persists cat2 = cat_persists cat1 @ map (header_copy h catalog child table fork_seq commit) kept \<and>
      w = (False \<or> (\<exists>old \<in> set ?hs. kept_header parent fork_seq (segment_from b) cat1 old)) \<and>
      cat_snapshots cat2 = cat_snapshots cat1 \<and> cat_purges cat2 = cat_purges cat1"
    using copy_headers_parents[OF _ _ other loop] unfolding kept_def kepts by blast
  show "cat_persists cat' = cat_persists cat @ map (header_copy h catalog child table fork_seq commit) kept"
    using heads' frame(1) by (simp add: cat' commit_table_purge_def insert_table_purge_def)
  show "b = None \<or> kept \<noteq> []" using fine heads' by (auto simp: kept_def kepts filter_empty_conv)
  show "cat_purges cat' = cat_purges (commit_table_purge commit child (table_purge_uuid h catalog child table fork_seq 0)
      (insert_table_purge (table_purge_uuid h catalog child table fork_seq 0) child table (Some fork_seq) None cat))"
    using heads' frame(3) by (simp add: cat' commit_table_purge_def insert_table_purge_def)
  show "cat_snapshots cat' = cat_snapshots (fst (copy_inherited_snapshot h catalog child parent table fork_seq fork_micros commit cat))"
    using heads' by (simp add: cat' snap commit_table_purge_def insert_table_purge_def)
  have uuids: "map ps_uuid ?rows = map (\<lambda>(old, s). table_persist_segment_uuid h (new_header_uuid h catalog child table old) (ps_chunk_idx s))
      (inherited_segments parent table fork_seq b cat)"
    by (simp add: fork_copy_row_uuid comp_def)
  have "distinct (map ps_uuid ?rows)" using ids' unfolding uuids by blast
  moreover have "\<forall>n \<in> set ?rows. \<forall>r \<in> set (cat_persist_segs cat). ps_branch r = child \<longrightarrow> ps_uuid r \<noteq> ps_uuid n"
  proof (intro ballI impI notI)
    fix n r
    assume n: "n \<in> set ?rows" "r \<in> set (cat_persist_segs cat)" "ps_branch r = child" "ps_uuid r = ps_uuid n"
    have "ps_uuid n \<in> set (map ps_uuid ?rows)" unfolding set_map[of ps_uuid] using n(1) by (rule imageI)
    then show False using ids' n(2-4) unfolding uuids by metis
  qed
  ultimately have "cat_persist_segs cat2 = cat_persist_segs cat1 @ ?rows"
    using copy_headers_segs[OF _ _ other loop] unfolding rows copies frame(2) by blast
  then show "cat_persist_segs cat' = cat_persist_segs cat @ ?rows"
    by (simp add: cat' commit_table_purge_def insert_table_purge_def frame(2))
qed

lemma segment_from_strict:
  assumes "\<forall>w. baseline = Some w \<longrightarrow> i64_min < w \<and> w < i64_max" "i64_min < t"
  shows "(header_from baseline \<le> t \<and> \<not> t \<le> i64_saturating_add (segment_from baseline) (-1)) \<longleftrightarrow>
    (\<forall>w. baseline = Some w \<longrightarrow> w < t)"
  using assms by (cases baseline)
    (auto simp: header_from_def segment_from_def i64_saturating_add_def i64_min_def i64_max_def)

lemma inherited_segments_mem:
  "(p, s) \<in> set (inherited_segments parent table fork_seq baseline cat) \<longleftrightarrow>
     p \<in> set (cat_persists cat) \<and> pm_branch p = parent \<and> pm_table p = table \<and> pm_commit p \<noteq> None \<and>
     (header_from baseline \<le> pm_persisted_at p \<and> \<not> pm_persisted_at p \<le> i64_saturating_add (segment_from baseline) (-1)) \<and>
     s \<in> set (cat_persist_segs cat) \<and> ps_branch s = parent \<and> ps_persist s = pm_uuid p \<and> ps_commit s \<noteq> None \<and>
     ps_min_seq s \<le> fork_seq"
  by (auto simp: inherited_segments_def inherited_headers_def header_segments_def)

lemma inherited_segments_set:
  assumes "\<forall>w. baseline = Some w \<longrightarrow> i64_min < w \<and> w < i64_max"
    and "\<forall>p \<in> set (cat_persists cat). i64_min < pm_persisted_at p"
  shows "set (inherited_segments parent table fork_seq baseline cat) =
    {(p, s). p \<in> set (cat_persists cat) \<and> pm_branch p = parent \<and> pm_table p = table \<and> pm_commit p \<noteq> None \<and>
       (\<forall>w. baseline = Some w \<longrightarrow> w < pm_persisted_at p) \<and>
       s \<in> set (cat_persist_segs cat) \<and> ps_branch s = parent \<and> ps_persist s = pm_uuid p \<and> ps_commit s \<noteq> None \<and>
       ps_min_seq s \<le> fork_seq}"
proof -
  have "(header_from baseline \<le> pm_persisted_at p \<and> \<not> pm_persisted_at p \<le> i64_saturating_add (segment_from baseline) (-1)) \<longleftrightarrow>
      (\<forall>w. baseline = Some w \<longrightarrow> w < pm_persisted_at p)" if "p \<in> set (cat_persists cat)" for p
    by (rule segment_from_strict[OF assms(1) assms(2)[rule_format, OF that]])
  then show ?thesis
    unfolding set_eq_iff split_paired_All inherited_segments_mem mem_Collect_eq prod.case
    by (intro allI conj_cong refl) (simp only:)
qed

lemma find_append: "find P (xs @ ys) = (case find P xs of None \<Rightarrow> find P ys | Some x \<Rightarrow> Some x)"
  by (induction xs) simp_all

lemma find_append_new:
  assumes "\<forall>x \<in> set xs. \<not> P x" "y \<in> set ys" "P y" "\<forall>x \<in> set ys. P x \<longrightarrow> x = y"
  shows "find P (xs @ ys) = Some y"
proof -
  obtain z where z: "find P (xs @ ys) = Some z" "P z" "z \<in> set (xs @ ys)"
    using assms(2,3) by (metis Un_iff find_Some_iff find_None_iff not_Some_eq nth_mem set_append)
  then have "z \<in> set ys" using assms(1) by auto
  then show ?thesis using z assms(4) by metis
qed

lemma fork_copy_row_fields [simp]:
  "ps_branch (fork_copy_row h catalog child table fork_seq commit (old, s)) = child"
  "ps_persist (fork_copy_row h catalog child table fork_seq commit (old, s)) = new_header_uuid h catalog child table old"
  "ps_commit (fork_copy_row h catalog child table fork_seq commit (old, s)) = Some commit"
  "ps_max_seq (fork_copy_row h catalog child table fork_seq commit (old, s)) = min (ps_max_seq s) fork_seq"
  "ps_min_seq (fork_copy_row h catalog child table fork_seq commit (old, s)) = ps_min_seq s"
  "ps_min_tx (fork_copy_row h catalog child table fork_seq commit (old, s)) = ps_min_tx s"
  "ps_max_tx (fork_copy_row h catalog child table fork_seq commit (old, s)) = ps_max_tx s"
  by (simp_all add: fork_copy_row_def copied_segment_def)

lemma inherited_mem:
  assumes "(old, s) \<in> set (inherited_segments parent table fork_seq baseline cat)"
  shows "old \<in> set (filter (kept_header parent fork_seq (segment_from baseline) cat)
      (inherited_headers parent table (header_from baseline) cat))" "pm_table old = table" "s \<in> set (cat_persist_segs cat)"
    "ps_branch s = parent" "ps_min_seq s \<le> fork_seq"
proof -
  note mem = assms[unfolded inherited_segments_mem]
  have "s \<in> set (header_segments parent (pm_uuid old) fork_seq cat)" using mem by (simp add: header_segments_def)
  then have "header_segments parent (pm_uuid old) fork_seq cat \<noteq> []" by (metis empty_iff list.set(1))
  then show "old \<in> set (filter (kept_header parent fork_seq (segment_from baseline) cat)
      (inherited_headers parent table (header_from baseline) cat))"
    using mem by (simp add: kept_header_def inherited_headers_def)
  show "pm_table old = table" "s \<in> set (cat_persist_segs cat)" "ps_branch s = parent" "ps_min_seq s \<le> fork_seq"
    using mem by simp_all
qed

lemma fork_row_parent:
  assumes run: "materialize_fork_cold_references h catalog child parent table fork_seq fork_micros commit cat = Inr cat'"
    and other: "child \<noteq> parent"
    and ids: "fork_ids_fresh h catalog child parent table fork_seq (fork_baseline parent table fork_seq fork_micros cat) cat"
    and mem: "(old, s) \<in> set (inherited_segments parent table fork_seq (fork_baseline parent table fork_seq fork_micros cat) cat)"
  shows "persist_parent cat' (fork_copy_row h catalog child table fork_seq commit (old, s)) =
    Some (header_copy h catalog child table fork_seq commit old)"
proof -
  note rows = fork_rows[OF run other ids]
  note ids' = ids[unfolded fork_ids_fresh_def Let_def]
  let ?new = "new_header_uuid h catalog child table"
  let ?hs = "inherited_headers parent table (header_from (fork_baseline parent table fork_seq fork_micros cat)) cat"
  have inj: "inj_on ?new (set ?hs)" using ids' by (simp only: distinct_map)
  have old: "old \<in> set ?hs" using inherited_mem(1)[OF mem] by simp
  have new: "?new old \<in> set (map ?new ?hs)" unfolding set_map using old by (rule imageI)
  show ?thesis
    unfolding persist_parent_def rows(1)
  proof (rule find_append_new)
    show "\<forall>x \<in> set (cat_persists cat). \<not> persist_key (ps_branch (fork_copy_row h catalog child table fork_seq commit (old, s)))
        (ps_persist (fork_copy_row h catalog child table fork_seq commit (old, s))) x"
      using ids' new unfolding persist_key_def fork_copy_row_fields by metis
    show "header_copy h catalog child table fork_seq commit old \<in> set (map (header_copy h catalog child table fork_seq commit)
        (filter (kept_header parent fork_seq (segment_from (fork_baseline parent table fork_seq fork_micros cat)) cat) ?hs))"
      unfolding set_map using inherited_mem(1)[OF mem] by (rule imageI)
    show "persist_key (ps_branch (fork_copy_row h catalog child table fork_seq commit (old, s)))
        (ps_persist (fork_copy_row h catalog child table fork_seq commit (old, s))) (header_copy h catalog child table fork_seq commit old)"
      by (simp add: persist_key_def)
    show "\<forall>x \<in> set (map (header_copy h catalog child table fork_seq commit)
        (filter (kept_header parent fork_seq (segment_from (fork_baseline parent table fork_seq fork_micros cat)) cat) ?hs)).
        persist_key (ps_branch (fork_copy_row h catalog child table fork_seq commit (old, s)))
          (ps_persist (fork_copy_row h catalog child table fork_seq commit (old, s))) x \<longrightarrow>
        x = header_copy h catalog child table fork_seq commit old"
      using inj_onD[OF inj _ _ old] by (auto simp: persist_key_def)
  qed
qed

lemma within_ceiling_min: "within_ceiling (min a b) c \<longleftrightarrow> within_ceiling a c \<and> within_ceiling b c"
  by (auto simp: within_ceiling_def split: cell_data.splits)

lemma fork_copy_segment:
  assumes "listed_segment s = Inr seg"
  shows "\<exists>seg'. listed_segment (fork_copy_row h catalog child table fork_seq commit (old, s)) = Inr seg' \<and>
    (\<forall>reader sch projection. read_one_persist_segment reader seg' sch projection = read_one_persist_segment reader seg sch projection) \<and>
    (\<forall>b idx. index_of (schema b) COMMIT_SEQ_NUM_COLUMN = Some idx \<longrightarrow>
       admitted seg' b = filter (\<lambda>r. within_ceiling fork_seq (r ! idx)) (admitted seg b))"
proof -
  let ?u = "ps_uuid (fork_copy_row h catalog child table fork_seq commit (old, s))"
  let ?seg = "seg\<lparr>seg_uuid := ?u, seg_max_commit_seq_num := Some (min (ps_max_seq s) fork_seq)\<rparr>"
  have "listed_segment (fork_copy_row h catalog child table fork_seq commit (old, s)) = Inr ?seg"
    using assms by (auto simp: listed_segment_def fork_copy_row_def copied_segment_def split: sum.splits)
  moreover have "seg_max_commit_seq_num seg = Some (ps_max_seq s)"
    using assms by (auto simp: listed_segment_def split: sum.splits)
  ultimately show ?thesis
    by (intro exI[of _ ?seg]) (simp add: read_one_persist_segment_def admitted_def within_ceiling_min)
qed

lemma listed_persist_parent:
  "listed branch table cat s = Some (k, s') \<longleftrightarrow>
     s' = s \<and> ps_branch s = branch \<and> ps_commit s \<noteq> None \<and> (\<exists>p. persist_parent cat s = Some p \<and> pm_table p = table \<and> pm_log_kind p = k)"
  by (auto simp: listed_def split: option.splits if_splits)

lemma persist_parent_mem:
  assumes "persist_parent cat s = Some p"
  shows "p \<in> set (cat_persists cat)" "pm_branch p = ps_branch s" "pm_uuid p = ps_persist s"
  using assms by (auto simp: persist_parent_def persist_key_def find_Some_iff)

lemma persist_parent_append:
  "persist_parent cat s = Some p \<Longrightarrow> cat_persists cat' = cat_persists cat @ ps \<Longrightarrow> persist_parent cat' s = Some p"
  by (auto simp: persist_parent_def find_append split: option.splits)

section \<open>Properties\<close>

text \<open>C29: a fork inherits the parent's persist segments as of the fork position, and nothing else.
  The copy adds to the catalog one sealed row per committed segment of the parent that belongs to a
  committed run above the adopted snapshot and starts at or below the fork; the row names the
  parent's file and its ceiling is the fork position.\<close>

theorem fork_inherits_segments:
  assumes run: "materialize_fork_cold_references h catalog child parent table fork_seq fork_micros commit cat = Inr cat'"
    and other: "child \<noteq> parent"
    and ids: "fork_ids_fresh h catalog child parent table fork_seq (fork_baseline parent table fork_seq fork_micros cat) cat"
    and base: "\<forall>w. fork_baseline parent table fork_seq fork_micros cat = Some w \<longrightarrow> i64_min < w \<and> w < i64_max"
    and times: "\<forall>p \<in> set (cat_persists cat). i64_min < pm_persisted_at p"
  shows "\<exists>inherited. cat_persist_segs cat' = cat_persist_segs cat @ map (fork_copy_row h catalog child table fork_seq commit) inherited \<and>
    set inherited = {(p, s). p \<in> set (cat_persists cat) \<and> pm_branch p = parent \<and> pm_table p = table \<and> pm_commit p \<noteq> None \<and>
       (\<forall>w. fork_baseline parent table fork_seq fork_micros cat = Some w \<longrightarrow> w < pm_persisted_at p) \<and>
       s \<in> set (cat_persist_segs cat) \<and> ps_branch s = parent \<and> ps_persist s = pm_uuid p \<and> ps_commit s \<noteq> None \<and>
       ps_min_seq s \<le> fork_seq} \<and>
    (\<forall>(p, s) \<in> set inherited. let row = fork_copy_row h catalog child table fork_seq commit (p, s) in
       ps_branch row = child \<and> ps_uri row = ps_uri s \<and> ps_offset row = ps_offset s \<and> ps_length row = ps_length s \<and>
       ps_sealed row \<and> ps_max_seq row = min (ps_max_seq s) fork_seq)"
  using fork_rows(2)[OF run other ids] inherited_segments_set[OF base times, of parent table fork_seq]
  by (intro exI[of _ "inherited_segments parent table fork_seq (fork_baseline parent table fork_seq fork_micros cat) cat"] conjI)
    (auto simp: fork_copy_row_def copied_segment_def Let_def)


lemma snapshot_copy_adopted:
  assumes snap: "copy_inherited_snapshot h catalog child parent table fork_seq fork_micros commit cat = (cat1, base)"
    and pick: "baseline_pick parent table fork_seq fork_micros cat = Some old"
    and fresh: "\<forall>r \<in> set (cat_snapshots cat). sm_branch r \<noteq> child \<or> sm_uuid r \<noteq> table_snapshot_uuid h catalog child table (sm_snapshotted_at old)"
  shows "old\<lparr>sm_uuid := table_snapshot_uuid h catalog child table (sm_snapshotted_at old), sm_branch := child, sm_commit := Some commit\<rparr>
    \<in> set (cat_snapshots cat1)"
proof -
  have "\<not> (\<exists>x \<in> set (cat_snapshots cat). snapshot_key child (table_snapshot_uuid h catalog child table (sm_snapshotted_at old)) x)"
    using fresh by (auto simp: snapshot_key_def)
  then show ?thesis using snap pick by (auto simp: copy_inherited_snapshot_def Let_def sql_insert_new_def)
qed


section \<open>Witnesses\<close>

text \<open>A parent \<open>p\<close> with a snapshot at 10, the run at 10 that it covers, and a run at 20 whose only
  segment holds the positions 4 to 9; the fork is at position 6.\<close>

definition fork_demo_header :: "string \<Rightarrow> int \<Rightarrow> int \<Rightarrow> persist_row" where
  "fork_demo_header u t seq =
     \<lparr>pm_uuid = u, pm_branch = ''p'', pm_table = ''t'', pm_persisted_at = t, pm_seq = Some seq, pm_log_kind = UpsertLog,
      pm_commit = Some t\<rparr>"

definition fork_demo_segment :: persist_seg_row where
  "fork_demo_segment =
     \<lparr>ps_uuid = ''s'', ps_persist = ''h2'', ps_branch = ''p'', ps_table = ''t'', ps_chunk_idx = 0, ps_min_tx = 11, ps_max_tx = 19,
      ps_min_seq = 4, ps_max_seq = 9, ps_uri = ''f'', ps_offset = None, ps_length = None, ps_row_count = 6,
      ps_format = ''parquet'', ps_hash = ''c'', ps_size = Some 10, ps_statistics = None, ps_commit = Some 20, ps_sealed = False\<rparr>"

definition fork_demo :: cold_catalog where
  "fork_demo = empty_catalog\<lparr>
     cat_persists := [fork_demo_header ''h1'' 10 3, fork_demo_header ''h2'' 20 9],
     cat_persist_segs := [fork_demo_segment],
     cat_snapshots := [\<lparr>sm_uuid = ''n'', sm_branch = ''p'', sm_table = ''t'', sm_snapshotted_at = 10, sm_seq = 3,
       sm_durable = False, sm_partition_keys = Some [], sm_clustering_keys = Some [], sm_commit = Some 10\<rparr>]\<rparr>"

lemma fork_demo_ids: "fork_ids_fresh id ''k'' ''c'' ''p'' ''t'' 6 (fork_baseline ''p'' ''t'' 6 15 fork_demo) fork_demo"
  by code_simp

lemma fork_demo_ok: "is_ok (materialize_fork_cold_references id ''k'' ''c'' ''p'' ''t'' 6 15 30 fork_demo)"
  by code_simp

lemma fork_demo_run: "\<exists>cat'. materialize_fork_cold_references id ''k'' ''c'' ''p'' ''t'' 6 15 30 fork_demo = Inr cat'"
  using fork_demo_ok by (cases "materialize_fork_cold_references id ''k'' ''c'' ''p'' ''t'' 6 15 30 fork_demo") simp_all

lemma fork_demo_base: "fork_baseline ''p'' ''t'' 6 15 fork_demo = Some 10"
  by code_simp

lemma fork_demo_times: "\<forall>p \<in> set (cat_persists fork_demo). i64_min < pm_persisted_at p"
  by code_simp

theorem fork_inherits_segments_witness:
  "\<exists>cat' inherited. materialize_fork_cold_references id ''k'' ''c'' ''p'' ''t'' 6 15 30 fork_demo = Inr cat' \<and>
     cat_persist_segs cat' = cat_persist_segs fork_demo @ map (fork_copy_row id ''k'' ''c'' ''t'' 6 30) inherited"
proof -
  obtain cat' where run: "materialize_fork_cold_references id ''k'' ''c'' ''p'' ''t'' 6 15 30 fork_demo = Inr cat'"
    using fork_demo_run by blast
  have base: "\<forall>w. fork_baseline ''p'' ''t'' 6 15 fork_demo = Some w \<longrightarrow> i64_min < w \<and> w < i64_max"
    unfolding fork_demo_base by (simp add: i64_min_def i64_max_def)
  show ?thesis using fork_inherits_segments[OF run _ fork_demo_ids base fork_demo_times] run by auto
qed

lemma fork_demo_parent:
  "persist_parent fork_demo fork_demo_segment = Some (fork_demo_header ''h2'' 20 9)"
  by code_simp

lemma fork_demo_segs: "cat_persist_segs fork_demo = [fork_demo_segment]"
  by (simp add: fork_demo_def)



end
