(* ===== verification/Tx_Log.thy ===== *)
theory Tx_Log
  imports Naming
begin

text \<open>
  The transaction log of one branch: the rows of \<open>begin_tx_log\<close>, \<open>commit_tx_log\<close> and
  \<open>abort_tx_log\<close>, the two order counters, the statements of \<open>penca-storage-hot/src/tx.rs\<close>, the
  transaction handlers of \<open>penca-api/src/write/mod.rs\<close> and \<open>resolve_tx\<close>, and the garbage
  collection statement of \<open>penca-storage-meta/src/lifecycle.rs\<close>.  \<open>now\<close> is SQL \<open>now()\<close>, the start
  of the enclosing Postgres transaction; \<open>clock\<close> is \<open>clock_timestamp()\<close>, read under the lock of
  the counter row.  A failed statement rolls its transaction back.
  The handlers start after the catalog and the branch are resolved; the message of an unknown
  transaction leaves out the branch uuid it names.
\<close>

section \<open>Rows\<close>

record begin_row =
  bt_tx :: uuid
  bt_began :: int
  bt_began_seq :: int
  bt_expires :: int
  bt_comment :: string
  bt_author :: string

record commit_row =
  ct_tx :: uuid
  ct_began :: int
  ct_micros :: int
  ct_comment :: string
  ct_author :: string
  ct_seq :: int

record abort_row =
  ab_tx :: uuid
  ab_micros :: int
  ab_seq :: int

record tx_log =
  tl_begins :: "begin_row list"
  tl_commits :: "commit_row list"
  tl_aborts :: "abort_row list"
  tl_tables :: "(uuid \<times> uuid) list"
  tl_commit_seq :: int
  tl_abort_seq :: int

text \<open>A new branch; a fork seeds the commit counter one past the fork position.\<close>

definition fresh_tx_log :: "int \<Rightarrow> tx_log" where
  "fresh_tx_log seed = \<lparr>tl_begins = [], tl_commits = [], tl_aborts = [], tl_tables = [], tl_commit_seq = seed, tl_abort_seq = 0\<rparr>"

definition seed_commit_seq_num_from_fork :: "int \<Rightarrow> tx_log \<Rightarrow> tx_log" where
  "seed_commit_seq_num_from_fork fork_seq log = log\<lparr>tl_commit_seq := fork_seq + 1\<rparr>"

datatype tx_status =
    TxOpen (open_began: int) (open_seq: int)
  | TxExpired (expired_at: int)
  | TxAborted (aborted_at: int) (aborted_seq: int)
  | TxCommitted (committed_at: int)

section \<open>Statements\<close>

definition get_tx_status :: "int \<Rightarrow> uuid \<Rightarrow> tx_log \<Rightarrow> tx_status option" where
  "get_tx_status now tx log =
     (case find (\<lambda>b. bt_tx b = tx) (tl_begins log) of
        None \<Rightarrow> None
      | Some b \<Rightarrow> Some
          (case find (\<lambda>a. ab_tx a = tx) (tl_aborts log) of
             Some a \<Rightarrow> TxAborted (ab_micros a) (ab_seq a)
           | None \<Rightarrow>
               (case find (\<lambda>c. ct_tx c = tx) (tl_commits log) of
                  Some c \<Rightarrow> TxCommitted (ct_micros c)
                | None \<Rightarrow> if bt_expires b < now then TxExpired (bt_expires b)
                          else TxOpen (bt_began b) (bt_began_seq b))))"

definition hot_begin_tx :: "int \<Rightarrow> uuid \<Rightarrow> int \<Rightarrow> string \<Rightarrow> string \<Rightarrow> tx_log \<Rightarrow> (tx_log \<times> (int \<times> int)) result" where
  "hot_begin_tx now tx timeout_seconds comment author log =
     (if \<exists>b \<in> set (tl_begins log). bt_tx b = tx then Inl (HotStorageErr ''duplicate key'')
      else
        let expires = now + timeout_seconds * 1000000 in
        Inr (log\<lparr>tl_begins := tl_begins log @ [\<lparr>bt_tx = tx, bt_began = now, bt_began_seq = tl_commit_seq log,
               bt_expires = expires, bt_comment = comment, bt_author = author\<rparr>]\<rparr>, now, expires))"

text \<open>The counter update and the insert are one statement.  The primary key and the unique index on
  the commit time reject a second row.\<close>

definition commit_tx_log_insert :: "int \<Rightarrow> uuid \<Rightarrow> int \<Rightarrow> string \<Rightarrow> string \<Rightarrow> tx_log \<Rightarrow> (tx_log \<times> commit_row) result" where
  "commit_tx_log_insert clock tx began comment author log =
     (if \<exists>c \<in> set (tl_commits log). ct_tx c = tx \<or> ct_micros c = clock then Inl (HotStorageErr ''duplicate key'')
      else
        let row = \<lparr>ct_tx = tx, ct_began = began, ct_micros = clock, ct_comment = comment, ct_author = author,
                   ct_seq = tl_commit_seq log\<rparr> in
        Inr (log\<lparr>tl_commits := tl_commits log @ [row], tl_commit_seq := tl_commit_seq log + 1\<rparr>, row))"

text \<open>Without a begin row \<open>rows[0]\<close> panics; the caller has checked the status.\<close>

definition commit_open_tx :: "int \<Rightarrow> uuid \<Rightarrow> tx_log \<Rightarrow> (tx_log \<times> commit_row) result" where
  "commit_open_tx clock tx log =
     (case find (\<lambda>b. bt_tx b = tx) (tl_begins log) of
        None \<Rightarrow> Inl (Internal ''index out of bounds'')
      | Some b \<Rightarrow> commit_tx_log_insert clock tx (bt_began b) (bt_comment b) (bt_author b) log)"

definition hot_abort_tx :: "int \<Rightarrow> uuid \<Rightarrow> tx_log \<Rightarrow> (tx_log \<times> int) result" where
  "hot_abort_tx now tx log =
     (if \<not> (\<exists>b \<in> set (tl_begins log). bt_tx b = tx) then Inl (Internal ''index out of bounds'')
      else if \<exists>a \<in> set (tl_aborts log). ab_tx a = tx then Inl (HotStorageErr ''duplicate key'')
      else Inr (log\<lparr>tl_aborts := tl_aborts log @ [\<lparr>ab_tx = tx, ab_micros = now, ab_seq = tl_abort_seq log\<rparr>],
                   tl_abort_seq := tl_abort_seq log + 1\<rparr>, now))"

definition hot_auto_commit_tx :: "int \<Rightarrow> int \<Rightarrow> uuid \<Rightarrow> string \<Rightarrow> string \<Rightarrow> tx_log \<Rightarrow> (tx_log \<times> commit_row) result" where
  "hot_auto_commit_tx now clock tx comment author log = commit_tx_log_insert clock tx now comment author log"

definition insert_tx_table_log :: "uuid \<Rightarrow> uuid list \<Rightarrow> tx_log \<Rightarrow> tx_log" where
  "insert_tx_table_log tx tables log =
     log\<lparr>tl_tables := fold (\<lambda>t rs. if (tx, t) \<in> set rs then rs else rs @ [(tx, t)]) tables (tl_tables log)\<rparr>"

definition committed_table_uuids :: "tx_log \<Rightarrow> uuid list" where
  "committed_table_uuids log =
     remdups (map snd (filter (\<lambda>(tx, t). \<exists>c \<in> set (tl_commits log). ct_tx c = tx) (tl_tables log)))"

section \<open>Handlers\<close>

definition begin_tx :: "int \<Rightarrow> uuid \<Rightarrow> int option \<Rightarrow> int \<Rightarrow> uuid option \<Rightarrow> string \<Rightarrow> string \<Rightarrow> tx_log \<Rightarrow>
    (tx_log \<times> (uuid \<times> int \<times> int)) result" where
  "begin_tx now new_uuid timeout default_timeout request_tx comment author log =
     (let tx = (case request_tx of None \<Rightarrow> new_uuid | Some u \<Rightarrow> u) in
      rbind (hot_begin_tx now tx (case timeout of None \<Rightarrow> default_timeout | Some t \<Rightarrow> t) comment author log)
        (\<lambda>(log', began, expires). Inr (log', tx, began, expires)))"

definition tx_message :: "string \<Rightarrow> uuid \<Rightarrow> string" where
  "tx_message what tx = ''transaction '' @ what @ '': '' @ tx"

definition commit_tx :: "int \<Rightarrow> int \<Rightarrow> uuid \<Rightarrow> tx_log \<Rightarrow> (tx_log \<times> (int \<times> int)) result" where
  "commit_tx now clock tx log =
     (case get_tx_status now tx log of
        None \<Rightarrow> Inl (NotFound (tx_message ''not found on branch'' tx))
      | Some (TxAborted t _) \<Rightarrow> Inl (FailedPrecondition (tx_message (''aborted at '' @ show_int t) tx))
      | Some (TxCommitted t) \<Rightarrow> Inl (FailedPrecondition (tx_message (''already committed at '' @ show_int t) tx))
      | Some (TxExpired t) \<Rightarrow> Inl (FailedPrecondition (tx_message (''expired at '' @ show_int t) tx))
      | Some (TxOpen _ _) \<Rightarrow>
          rbind (commit_open_tx clock tx log) (\<lambda>(log', row). Inr (log', ct_micros row, ct_seq row)))"

definition abort_tx :: "int \<Rightarrow> uuid \<Rightarrow> tx_log \<Rightarrow> (tx_log \<times> int) result" where
  "abort_tx now tx log =
     (case get_tx_status now tx log of
        None \<Rightarrow> Inl (NotFound (tx_message ''not found on branch'' tx))
      | Some (TxAborted t _) \<Rightarrow> Inr (log, t)
      | Some (TxExpired t) \<Rightarrow> Inr (log, t)
      | Some (TxCommitted t) \<Rightarrow> Inl (FailedPrecondition (tx_message (''already committed at '' @ show_int t) tx))
      | Some (TxOpen _ _) \<Rightarrow> hot_abort_tx now tx log)"

definition auto_commit_tx :: "int \<Rightarrow> int \<Rightarrow> uuid \<Rightarrow> string \<Rightarrow> string \<Rightarrow> tx_log \<Rightarrow> (tx_log \<times> (uuid \<times> commit_row)) result" where
  "auto_commit_tx now clock new_uuid author comment log =
     rbind (hot_auto_commit_tx now clock new_uuid comment author log) (\<lambda>(log', row). Inr (log', new_uuid, row))"

definition resolve_tx :: "int \<Rightarrow> uuid \<Rightarrow> tx_log \<Rightarrow> int result" where
  "resolve_tx now tx log =
     (case get_tx_status now tx log of
        None \<Rightarrow> Inl (NotFound (tx_message ''not found on branch'' tx))
      | Some (TxOpen _ began_seq) \<Rightarrow> Inr began_seq
      | Some (TxAborted t _) \<Rightarrow> Inl (FailedPrecondition (tx_message (''was aborted at '' @ show_int t) tx))
      | Some (TxExpired t) \<Rightarrow> Inl (FailedPrecondition (tx_message (''expired at '' @ show_int t) tx))
      | Some (TxCommitted t) \<Rightarrow> Inl (FailedPrecondition (tx_message (''was already committed at '' @ show_int t) tx)))"

definition resolve_or_auto_commit_tx :: "int \<Rightarrow> int \<Rightarrow> uuid \<Rightarrow> uuid option \<Rightarrow> string option \<Rightarrow> string option \<Rightarrow> tx_log \<Rightarrow>
    (tx_log \<times> (uuid \<times> commit_row option)) result" where
  "resolve_or_auto_commit_tx now clock new_uuid request_tx author comment log =
     (case request_tx of
        Some tx \<Rightarrow> rbind (resolve_tx now tx log) (\<lambda>_. Inr (log, tx, None))
      | None \<Rightarrow>
          rbind (auto_commit_tx now clock new_uuid (case author of None \<Rightarrow> [] | Some a \<Rightarrow> a)
              (case comment of None \<Rightarrow> [] | Some c \<Rightarrow> c) log)
            (\<lambda>(log', tx, row). Inr (log', tx, Some row)))"

definition seq_frontier_from_counter :: "int option \<Rightarrow> int" where
  "seq_frontier_from_counter counter = (case counter of None \<Rightarrow> 0 | Some n \<Rightarrow> n) - 1"

section \<open>Garbage collection\<close>

text \<open>The transactions of the four disjoint branches of the eligibility query.\<close>

definition purge_tx_log_eligible :: "int option \<Rightarrow> int option \<Rightarrow> int \<Rightarrow> int \<Rightarrow> tx_log \<Rightarrow> uuid list" where
  "purge_tx_log_eligible pu_cutoff pa_cutoff cleanup_started_at expiry_grace log =
     (let expiry_bound = i64_saturating_add cleanup_started_at (- expiry_grace) in
      (case pu_cutoff of None \<Rightarrow> [] | Some pu \<Rightarrow> map ct_tx (filter (\<lambda>c. ct_seq c \<le> pu) (tl_commits log))) @
      (case pa_cutoff of None \<Rightarrow> [] | Some pa \<Rightarrow> map ab_tx (filter (\<lambda>a. ab_seq a < pa) (tl_aborts log))) @
      map ab_tx (filter (\<lambda>a. ab_micros a \<le> cleanup_started_at \<and> ab_tx a \<notin> fst ` set (tl_tables log)) (tl_aborts log)) @
      map bt_tx (filter (\<lambda>b. bt_expires b < expiry_bound \<and> bt_tx b \<notin> ct_tx ` set (tl_commits log) \<and>
                        bt_tx b \<notin> ab_tx ` set (tl_aborts log)) (tl_begins log)))"

definition delete_purge_tx_log_eligible :: "int option \<Rightarrow> int option \<Rightarrow> int \<Rightarrow> int \<Rightarrow> tx_log \<Rightarrow> tx_log" where
  "delete_purge_tx_log_eligible pu_cutoff pa_cutoff cleanup_started_at expiry_grace log =
     (let gone = set (purge_tx_log_eligible pu_cutoff pa_cutoff cleanup_started_at expiry_grace log) in
      log\<lparr>tl_commits := filter (\<lambda>c. ct_tx c \<notin> gone) (tl_commits log),
          tl_tables := filter (\<lambda>(tx, t). tx \<notin> gone) (tl_tables log),
          tl_aborts := filter (\<lambda>a. ab_tx a \<notin> gone) (tl_aborts log),
          tl_begins := filter (\<lambda>b. bt_tx b \<notin> gone) (tl_begins log)\<rparr>)"

section \<open>Executions\<close>

text \<open>The handlers on one branch, in any order.  The lock of the begin row serializes commit and abort
  of one transaction and the lock of the counter row serializes commits, so that each handler is one
  step; \<open>t\<close> is the database clock.\<close>

inductive tx_step :: "int \<times> tx_log \<Rightarrow> int \<times> tx_log \<Rightarrow> bool" where
  tick: "t \<le> t' \<Longrightarrow> tx_step (t, log) (t', log)"
| begins: "now \<le> t \<Longrightarrow> begin_tx now u timeout dflt request_tx comment author log = Inr (log', r) \<Longrightarrow> tx_step (t, log) (t, log')"
| commits: "now \<le> t \<Longrightarrow> commit_tx now t tx log = Inr (log', r) \<Longrightarrow> tx_step (t, log) (t, log')"
| aborts: "now \<le> t \<Longrightarrow> abort_tx now tx log = Inr (log', r) \<Longrightarrow> tx_step (t, log) (t, log')"
| auto_commits: "now \<le> t \<Longrightarrow> u \<notin> ab_tx ` set (tl_aborts log) \<Longrightarrow>
    auto_commit_tx now t u author comment log = Inr (log', r) \<Longrightarrow> tx_step (t, log) (t, log')"
| writes: "tx_step (t, log) (t, insert_tx_table_log tx tables log)"
| collects: "tx_step (t, log) (t, delete_purge_tx_log_eligible pu pa started grace log)"

inductive_cases tx_stepE: "tx_step s s'"

definition commit_order :: "int \<Rightarrow> tx_log \<Rightarrow> bool" where
  "commit_order t log =
     ((\<exists>k. map ct_seq (tl_commits log) = [k..tl_commit_seq log - 1]) \<and>
      sorted_wrt (<) (map ct_micros (tl_commits log)) \<and> (\<forall>c \<in> set (tl_commits log). ct_micros c \<le> t) \<and>
      distinct (map ct_tx (tl_commits log)))"

definition tx_log_inv :: "int \<Rightarrow> tx_log \<Rightarrow> bool" where
  "tx_log_inv t log =
     (commit_order t log \<and> (\<forall>c \<in> set (tl_commits log). \<forall>a \<in> set (tl_aborts log). ct_tx c \<noteq> ab_tx a) \<and>
      distinct (map bt_tx (tl_begins log)) \<and>
      sorted_wrt (<) (map ab_seq (tl_aborts log)) \<and> (\<forall>a \<in> set (tl_aborts log). ab_seq a < tl_abort_seq log) \<and>
      distinct (map ab_tx (tl_aborts log)))"

lemma find_append_None: "find P xs = None \<Longrightarrow> find P (xs @ ys) = find P ys"
  by (induction xs) (auto split: if_splits)

lemma tx_status_open:
  assumes "get_tx_status now tx log = Some (TxOpen b s)"
  shows "\<exists>row \<in> set (tl_begins log). bt_tx row = tx" "tx \<notin> ab_tx ` set (tl_aborts log)" "tx \<notin> ct_tx ` set (tl_commits log)"
  using assms by (auto simp: get_tx_status_def find_Some_iff find_None_iff split: option.splits if_splits)

lemma commit_insert_ok:
  assumes "commit_tx_log_insert clock tx began comment author log = Inr (log', row)"
  shows "log' = log\<lparr>tl_commits := tl_commits log @ [row], tl_commit_seq := tl_commit_seq log + 1\<rparr>"
    "ct_tx row = tx" "ct_micros row = clock" "ct_seq row = tl_commit_seq log"
    "\<forall>c \<in> set (tl_commits log). ct_tx c \<noteq> tx \<and> ct_micros c \<noteq> clock"
  using assms by (auto simp: commit_tx_log_insert_def Let_def split: if_splits)

lemma commit_order_insert:
  assumes "commit_tx_log_insert t tx began comment author log = Inr (log', row)" "commit_order t log"
  shows "commit_order t log'"
proof -
  note ok = commit_insert_ok[OF assms(1)]
  obtain k where k: "map ct_seq (tl_commits log) = [k..tl_commit_seq log - 1]" using assms(2) by (auto simp: commit_order_def)
  have "map ct_seq (tl_commits log') = [k..tl_commit_seq log - 1] @ [tl_commit_seq log]" using k ok by simp
  then have seqs: "\<exists>k. map ct_seq (tl_commits log') = [k..tl_commit_seq log' - 1]"
  proof (cases "k \<le> tl_commit_seq log")
    case True
    then have "[k..tl_commit_seq log - 1] @ [tl_commit_seq log] = [k..tl_commit_seq log]"
      by (simp add: upto_rec2[of k "tl_commit_seq log"])
    then show ?thesis using k ok by (intro exI[of _ k]) simp
  next
    case False
    then show ?thesis using k ok by (intro exI[of _ "tl_commit_seq log"]) simp
  qed
  have "\<forall>c \<in> set (tl_commits log). ct_micros c < t"
    using assms(2) ok(5) by (auto simp: commit_order_def order.strict_iff_order)
  then show ?thesis using assms(2) ok seqs by (auto simp: commit_order_def sorted_wrt_append)
qed

lemma filter_upto: "filter (\<lambda>x. p < x) [k..n] = [max k (p + 1)..n]" for p :: int
proof (induction k n rule: upto.induct)
  case (1 i j)
  then show ?case by (cases "i \<le> j"; cases "i = p + 1") (auto simp: upto_rec1 max_def)
qed

lemma eligible_commit:
  assumes "tx \<in> set (purge_tx_log_eligible pu pa started grace log)" "tx \<notin> ab_tx ` set (tl_aborts log)"
    "tx \<in> ct_tx ` set (tl_commits log)"
  shows "\<exists>n d. pu = Some n \<and> d \<in> set (tl_commits log) \<and> ct_tx d = tx \<and> ct_seq d \<le> n"
  using assms by (cases pu; cases pa) (auto simp: purge_tx_log_eligible_def Let_def, (metis imageI)+)

lemma tx_log_inv_collect:
  assumes "tx_log_inv t log"
  shows "tx_log_inv t (delete_purge_tx_log_eligible pu pa started grace log)"
proof -
  let ?gone = "set (purge_tx_log_eligible pu pa started grace log)"
  let ?log = "delete_purge_tx_log_eligible pu pa started grace log"
  have inv: "commit_order t log" "\<forall>c \<in> set (tl_commits log). ct_tx c \<notin> ab_tx ` set (tl_aborts log)" "distinct (map ct_tx (tl_commits log))"
    using assms by (auto simp: tx_log_inv_def commit_order_def)
  have gone: "ct_tx c \<in> ?gone \<longleftrightarrow> (\<exists>n. pu = Some n \<and> ct_seq c \<le> n)" if "c \<in> set (tl_commits log)" for c
  proof
    assume "ct_tx c \<in> ?gone"
    moreover have "ct_tx c \<in> ct_tx ` set (tl_commits log)" using that by (rule imageI)
    moreover have "ct_tx c \<notin> ab_tx ` set (tl_aborts log)" using inv(2) that by blast
    ultimately obtain n d where "d \<in> set (tl_commits log)" "ct_tx d = ct_tx c" "pu = Some n" "ct_seq d \<le> n"
      using eligible_commit by metis
    then show "\<exists>n. pu = Some n \<and> ct_seq c \<le> n" using inv(3) that by (metis distinct_map inj_onD)
  next
    assume "\<exists>n. pu = Some n \<and> ct_seq c \<le> n"
    then show "ct_tx c \<in> ?gone" using that by (auto simp: purge_tx_log_eligible_def Let_def)
  qed
  have commits: "tl_commits ?log = filter (\<lambda>c. \<not> (\<exists>n. pu = Some n \<and> ct_seq c \<le> n)) (tl_commits log)"
    using gone by (auto simp: delete_purge_tx_log_eligible_def Let_def intro!: filter_cong)
  obtain k where k: "map ct_seq (tl_commits log) = [k..tl_commit_seq log - 1]" using inv(1) by (auto simp: commit_order_def)
  have "\<exists>k. map ct_seq (tl_commits ?log) = [k..tl_commit_seq ?log - 1]"
  proof (cases pu)
    case None
    then show ?thesis using k commits by (auto simp: delete_purge_tx_log_eligible_def Let_def)
  next
    case (Some n)
    have "map ct_seq (tl_commits ?log) = filter (\<lambda>x. n < x) (map ct_seq (tl_commits log))"
      using commits Some by (simp add: filter_map comp_def not_le)
    then have "map ct_seq (tl_commits ?log) = [max k (n + 1)..tl_commit_seq log - 1]" using k by (simp add: filter_upto)
    moreover have "tl_commit_seq ?log = tl_commit_seq log" by (simp add: delete_purge_tx_log_eligible_def Let_def)
    ultimately show ?thesis by metis
  qed
  then have "commit_order t ?log"
    using inv(1) unfolding commits commit_order_def
    by (auto simp: commits sorted_wrt_map sorted_wrt_filter distinct_map_filter)
  then show ?thesis
    using assms by (auto simp: tx_log_inv_def delete_purge_tx_log_eligible_def Let_def sorted_wrt_map sorted_wrt_filter distinct_map_filter)
qed

lemma commit_tx_ok:
  assumes "commit_tx now clock tx log = Inr (log', r)"
  obtains b row where "get_tx_status now tx log = Some (TxOpen (bt_began b) (bt_began_seq b))"
    "commit_tx_log_insert clock tx (bt_began b) (bt_comment b) (bt_author b) log = Inr (log', row)"
    "r = (ct_micros row, ct_seq row)" "find (\<lambda>b. bt_tx b = tx) (tl_begins log) = Some b"
proof -
  obtain x y where open': "get_tx_status now tx log = Some (TxOpen x y)"
    using assms by (auto simp: commit_tx_def split: option.splits tx_status.splits)
  obtain b where b: "find (\<lambda>b. bt_tx b = tx) (tl_begins log) = Some b"
    using open' by (auto simp: get_tx_status_def split: option.splits)
  have "x = bt_began b" "y = bt_began_seq b"
    using open' b by (auto simp: get_tx_status_def split: option.splits if_splits)
  then show thesis
    using assms open' b that[of b] by (auto simp: commit_tx_def commit_open_tx_def rbind_eq_Inr)
qed

lemma abort_tx_ok:
  assumes "abort_tx now tx log = Inr (log', r)"
  shows "log' = log \<or> (\<exists>x y. get_tx_status now tx log = Some (TxOpen x y)) \<and>
    log' = log\<lparr>tl_aborts := tl_aborts log @ [\<lparr>ab_tx = tx, ab_micros = now, ab_seq = tl_abort_seq log\<rparr>],
      tl_abort_seq := tl_abort_seq log + 1\<rparr>"
  using assms by (auto simp: abort_tx_def hot_abort_tx_def split: option.splits tx_status.splits if_splits)

lemma begin_tx_ok:
  assumes "begin_tx now u timeout dflt request_tx comment author log = Inr (log', r)"
  shows "\<exists>b. log' = log\<lparr>tl_begins := tl_begins log @ [b]\<rparr> \<and> bt_tx b \<notin> bt_tx ` set (tl_begins log)"
proof -
  obtain tx secs be where hot: "hot_begin_tx now tx secs comment author log = Inr (log', be)"
    using assms by (auto simp: begin_tx_def Let_def rbind_eq_Inr)
  then have "tx \<notin> bt_tx ` set (tl_begins log)" by (auto simp: hot_begin_tx_def Let_def split: if_splits)
  moreover have "log' = log\<lparr>tl_begins := tl_begins log @ [\<lparr>bt_tx = tx, bt_began = now, bt_began_seq = tl_commit_seq log,
      bt_expires = now + secs * 1000000, bt_comment = comment, bt_author = author\<rparr>]\<rparr>"
    using hot by (simp add: hot_begin_tx_def Let_def split: if_splits)
  ultimately show ?thesis by (metis begin_row.select_convs(1))
qed

lemma auto_commit_tx_ok:
  assumes "auto_commit_tx now clock u author comment log = Inr (log', r)"
  shows "\<exists>row. commit_tx_log_insert clock u now comment author log = Inr (log', row)"
  using assms by (auto simp: auto_commit_tx_def hot_auto_commit_tx_def rbind_eq_Inr)

lemma tx_log_inv_insert:
  assumes "tx_log_inv t log" "commit_tx_log_insert t tx began comment author log = Inr (log', row)" "tx \<notin> ab_tx ` set (tl_aborts log)"
  shows "tx_log_inv t log'"
proof -
  have "commit_order t log'" using commit_order_insert[OF assms(2)] assms(1) by (simp add: tx_log_inv_def)
  then show ?thesis using assms(1,3) commit_insert_ok[OF assms(2)] by (auto simp: tx_log_inv_def)
qed

lemma tx_log_inv_step:
  assumes "tx_step s s'" "tx_log_inv (fst s) (snd s)"
  shows "tx_log_inv (fst s') (snd s')"
  using assms
proof (cases rule: tx_step.cases)
  case (tick t t' log)
  then show ?thesis using assms(2) by (auto simp: tx_log_inv_def commit_order_def)
next
  case (begins now t u timeout dflt request_tx comment author log log' r)
  obtain b where b: "log' = log\<lparr>tl_begins := tl_begins log @ [b]\<rparr>" "bt_tx b \<notin> bt_tx ` set (tl_begins log)"
    using begin_tx_ok[OF begins(4)] by (elim exE conjE)
  then show ?thesis using assms(2) begins(1,2) by (simp add: tx_log_inv_def commit_order_def)
next
  case (commits now t tx log log' r)
  obtain b row where ok: "get_tx_status now tx log = Some (TxOpen (bt_began b) (bt_began_seq b))"
    "commit_tx_log_insert t tx (bt_began b) (bt_comment b) (bt_author b) log = Inr (log', row)"
    "r = (ct_micros row, ct_seq row)" "find (\<lambda>b. bt_tx b = tx) (tl_begins log) = Some b"
    by (rule commit_tx_ok[OF commits(4)])
  have "tx_log_inv t log" using assms(2) commits(1) by simp
  then show ?thesis using tx_log_inv_insert[OF _ ok(2) tx_status_open(2)[OF ok(1)]] commits(2) by simp
next
  case (aborts now t tx log log' r)
  show ?thesis
  proof (cases "log' = log")
    case False
    then have "tx \<notin> ct_tx ` set (tl_commits log)" "tx \<notin> ab_tx ` set (tl_aborts log)"
      and log': "log' = log\<lparr>tl_aborts := tl_aborts log @ [\<lparr>ab_tx = tx, ab_micros = now, ab_seq = tl_abort_seq log\<rparr>],
        tl_abort_seq := tl_abort_seq log + 1\<rparr>"
      using abort_tx_ok[OF aborts(4)] tx_status_open by blast+
    then show ?thesis using assms(2) aborts by (auto simp: tx_log_inv_def commit_order_def sorted_wrt_append)
  qed (use aborts assms(2) in simp)
next
  case (auto_commits now t u log author comment log' r)
  obtain row where row: "commit_tx_log_insert t u now comment author log = Inr (log', row)"
    using auto_commit_tx_ok[OF auto_commits(5)] by blast
  have "tx_log_inv t log" using assms(2) auto_commits(1) by simp
  then show ?thesis using tx_log_inv_insert[OF _ row auto_commits(4)] auto_commits(2) by simp
next
  case (writes t log tx tables)
  then show ?thesis using assms(2) by (simp add: tx_log_inv_def commit_order_def insert_tx_table_log_def)
next
  case (collects t log pu pa started grace)
  then show ?thesis using assms(2) tx_log_inv_collect by simp
qed

lemma tx_log_inv_reachable:
  assumes "tx_step\<^sup>*\<^sup>* s s'" "tx_log_inv (fst s) (snd s)"
  shows "tx_log_inv (fst s') (snd s')"
  using assms by (induction rule: rtranclp_induct) (auto intro: tx_log_inv_step)

lemma tx_log_inv_fresh: "tx_log_inv t (fresh_tx_log seed)"
  by (auto simp: tx_log_inv_def commit_order_def fresh_tx_log_def intro: exI[of _ seed])

lemma commit_insert_above:
  assumes "commit_tx_log_insert clock tx began comment author log = Inr (log', row)"
  shows "tl_commit_seq log \<le> tl_commit_seq log' \<and>
    (\<forall>c \<in> set (tl_commits log'). c \<in> set (tl_commits log) \<or> tl_commit_seq log \<le> ct_seq c \<and> clock \<le> ct_micros c)"
  using commit_insert_ok[OF assms] by simp

text \<open>What a step adds to the commit log lies above the counter and not before the clock.\<close>

lemma tx_step_new_commits:
  assumes "tx_step (t, log) (t', log')"
  shows "t \<le> t' \<and> tl_commit_seq log \<le> tl_commit_seq log' \<and>
    (\<forall>c \<in> set (tl_commits log'). c \<in> set (tl_commits log) \<or> tl_commit_seq log \<le> ct_seq c \<and> t \<le> ct_micros c)"
  using assms
proof (cases rule: tx_step.cases)
  case (begins now u timeout dflt request_tx comment author r)
  then show ?thesis using begin_tx_ok[OF begins(3)] by auto
next
  case (commits now tx r)
  then show ?thesis by (auto elim!: commit_tx_ok dest!: commit_insert_above)
next
  case (aborts now tx r)
  then show ?thesis using abort_tx_ok[OF aborts(3)] by auto
next
  case (auto_commits now u author comment r)
  then show ?thesis using auto_commit_tx_ok[OF auto_commits(4)] by (auto dest!: commit_insert_above)
next
  case (writes tx tables)
  then show ?thesis by (simp add: insert_tx_table_log_def)
next
  case (collects pu pa started grace)
  then show ?thesis by (auto simp: delete_purge_tx_log_eligible_def Let_def)
qed auto

lemma tx_run_new_commits:
  assumes "tx_step\<^sup>*\<^sup>* (t, log) (t', log')"
  shows "t \<le> t' \<and> tl_commit_seq log \<le> tl_commit_seq log' \<and>
    (\<forall>c \<in> set (tl_commits log'). c \<in> set (tl_commits log) \<or> tl_commit_seq log \<le> ct_seq c \<and> t \<le> ct_micros c)"
  using assms
proof (induction "(t', log')" arbitrary: t' log' rule: rtranclp_induct)
  case (step s)
  obtain t1 log1 where s: "s = (t1, log1)" by (cases s)
  show ?case
    using step(3)[OF s] tx_step_new_commits[of t1 log1 t' log'] step(2) unfolding s by fastforce
qed simp

section \<open>Properties\<close>


text \<open>C33: commit order is visibility order.  A commit that is logged later has a higher position than
  every commit logged before it, also when garbage collection removed rows in between, and its
  commit time is not smaller.\<close>

theorem commit_order_is_visibility_order:
  assumes "tx_step\<^sup>*\<^sup>* (t\<^sub>0, fresh_tx_log seed) (t, log)" "tx_step\<^sup>*\<^sup>* (t, log) (t', log')"
    and "c \<in> set (tl_commits log)" "d \<in> set (tl_commits log')" "d \<notin> set (tl_commits log)"
  shows "ct_seq c < ct_seq d \<and> ct_micros c \<le> ct_micros d"
proof -
  have "commit_order t log" using tx_log_inv_reachable[OF assms(1)] tx_log_inv_fresh by (simp add: tx_log_inv_def)
  then obtain k where "map ct_seq (tl_commits log) = [k..tl_commit_seq log - 1]" "ct_micros c \<le> t"
    using assms(3) by (auto simp: commit_order_def)
  moreover have "ct_seq c \<in> set (map ct_seq (tl_commits log))" unfolding set_map using assms(3) by (rule imageI)
  ultimately have "ct_seq c < tl_commit_seq log" "ct_micros c \<le> t" by simp_all
  then show ?thesis using tx_run_new_commits[OF assms(2)] assms(4,5) by fastforce
qed


section \<open>Witnesses\<close>

definition demo_commit :: "uuid \<Rightarrow> int \<Rightarrow> int \<Rightarrow> commit_row" where
  "demo_commit tx t seq = \<lparr>ct_tx = tx, ct_began = t, ct_micros = t, ct_comment = ''c'', ct_author = ''a'', ct_seq = seq\<rparr>"

definition demo_log :: "commit_row list \<Rightarrow> tx_log" where
  "demo_log cs = \<lparr>tl_begins = [], tl_commits = cs, tl_aborts = [], tl_tables = [], tl_commit_seq = int (length cs), tl_abort_seq = 0\<rparr>"

lemma demo_step:
  assumes "t \<le> t'" "auto_commit_tx t' t' u ''a'' ''c'' log = Inr (log', r)" "tl_aborts log = []"
  shows "tx_step\<^sup>*\<^sup>* (t, log) (t', log')"
proof -
  have "tx_step (t, log) (t', log)" using assms(1) by (rule tick)
  moreover have "tx_step (t', log) (t', log')" by (rule auto_commits[OF _ _ assms(2)]) (simp_all add: assms(3))
  ultimately show ?thesis by (meson converse_rtranclp_into_rtranclp r_into_rtranclp)
qed

lemma demo_first: "tx_step\<^sup>*\<^sup>* (0, fresh_tx_log 0) (5, demo_log [demo_commit ''x'' 5 0])"
proof (rule demo_step)
  show "auto_commit_tx 5 5 ''x'' ''a'' ''c'' (fresh_tx_log 0) = Inr (demo_log [demo_commit ''x'' 5 0], (''x'', demo_commit ''x'' 5 0))"
    by (simp add: auto_commit_tx_def hot_auto_commit_tx_def commit_tx_log_insert_def fresh_tx_log_def demo_log_def demo_commit_def rbind_def Let_def)
qed (simp_all add: fresh_tx_log_def)

lemma demo_second: "tx_step\<^sup>*\<^sup>* (5, demo_log [demo_commit ''x'' 5 0]) (9, demo_log [demo_commit ''x'' 5 0, demo_commit ''y'' 9 1])"
proof (rule demo_step)
  show "auto_commit_tx 9 9 ''y'' ''a'' ''c'' (demo_log [demo_commit ''x'' 5 0]) =
      Inr (demo_log [demo_commit ''x'' 5 0, demo_commit ''y'' 9 1], (''y'', demo_commit ''y'' 9 1))"
    by (simp add: auto_commit_tx_def hot_auto_commit_tx_def commit_tx_log_insert_def demo_log_def demo_commit_def rbind_def Let_def)
qed (simp_all add: demo_log_def)


theorem commit_order_is_visibility_order_witness:
  "ct_seq (demo_commit ''x'' 5 0) < ct_seq (demo_commit ''y'' 9 1)"
  using commit_order_is_visibility_order[OF demo_first demo_second, of "demo_commit ''x'' 5 0" "demo_commit ''y'' 9 1"]
  by (simp add: demo_log_def demo_commit_def)

end
