(* ===== verification/Hot_Log.thy ===== *)
theory Hot_Log
  imports Tx_Log Cold_Files
begin

text \<open>
  The hot data logs of one table on one branch: the two log tables with their shared
  \<open>write_sequence\<close> (\<open>penca-db/src/dialect/pg.rs\<close>), the statements that fill them
  (\<open>penca-storage-hot/src/data.rs\<close>), row identities from primary keys
  (\<open>penca-api/src/pk_batch.rs\<close>), the write handler (\<open>apply_change\<close> and its helpers in
  \<open>penca-api/src/write/mod.rs\<close>), the committed reads of Persist
  (\<open>penca-storage-hot/src/persist.rs\<close>) and the deletions of Purge.  User columns are stored by
  name; a column that no write names is NULL.  The Arrow IPC decoder and the rendering of a cell
  as a SQL literal are parameters.  A failed statement rolls back the rows of its call; the
  sequence values it burnt are not modelled, since only their order is read.
\<close>

section \<open>Tables\<close>

record upsert_row =
  up_version :: uuid
  up_row :: uuid
  up_tx :: uuid
  up_wseq :: int
  up_cols :: "string \<rightharpoonup> cell"

record delete_row =
  dl_version :: uuid
  dl_row :: uuid
  dl_pk :: "string \<rightharpoonup> cell"
  dl_tx :: uuid
  dl_wseq :: int

record hot_table =
  ht_upserts :: "upsert_row list"
  ht_deletes :: "delete_row list"
  ht_write_seq :: int

definition create_data_tables :: hot_table where
  "create_data_tables = \<lparr>ht_upserts = [], ht_deletes = [], ht_write_seq = 0\<rparr>"

record write_lib =
  wl_hash :: hash_fn
  wl_arrow :: arrow_lib
  wl_ipc :: "string \<Rightarrow> (record_batch result list) result"
  wl_literal :: "data_type \<Rightarrow> cell \<Rightarrow> cell result"

section \<open>Row identities\<close>

definition row_uuid_for_row :: "write_lib \<Rightarrow> data_type list \<Rightarrow> cell list \<Rightarrow> uuid \<Rightarrow> uuid result" where
  "row_uuid_for_row lib types pk_cells table_uuid =
     rbind (rmap (\<lambda>(t, c). array_value_to_string (wl_arrow lib) t c) (zip types pk_cells))
       (\<lambda>values. Inr (row_uuid_for_pk (wl_hash lib) table_uuid values))"

definition ensure_no_null_pks :: "nat list \<Rightarrow> record_batch \<Rightarrow> string list \<Rightarrow> string \<Rightarrow> unit result" where
  "ensure_no_null_pks pk_cols b primary_keys what =
     rbind (rmap (\<lambda>(pk, i).
         if \<exists>r \<in> set (rows b). \<not> cell_valid (r ! i)
         then Inl (InvalidRequest (what @ '' PK column '' @ pk @ '' contains null values; primary keys cannot be null''))
         else Inr ()) (zip primary_keys pk_cols)) (\<lambda>_. Inr ())"

definition validate_pk_batch_schema :: "record_batch \<Rightarrow> afield list \<Rightarrow> string list \<Rightarrow> string \<Rightarrow> unit result" where
  "validate_pk_batch_schema b user_schema primary_keys what =
     (if map field_name (schema b) \<noteq> primary_keys
      then Inl (InvalidRequest (what @ '' PK batch column order does not match table's declared primary_keys''))
      else rbind (rmap (\<lambda>(pk, f).
         case index_of user_schema pk of
           None \<Rightarrow> Inl (InvalidRequest (''primary key '' @ pk @ '' not in user_schema''))
         | Some i \<Rightarrow>
             if field_type f \<noteq> field_type (user_schema ! i)
             then Inl (InvalidRequest (what @ '' PK batch column '' @ pk @ '' has another type than the table declared''))
             else Inr ()) (zip primary_keys (schema b)))
       (\<lambda>_. ensure_no_null_pks [0..<length (schema b)] b primary_keys what))"

definition derive_row_uuids :: "write_lib \<Rightarrow> record_batch \<Rightarrow> uuid \<Rightarrow> uuid list result" where
  "derive_row_uuids lib b table_uuid =
     rmap (\<lambda>r. row_uuid_for_row lib (map field_type (schema b)) r table_uuid) (rows b)"

definition validated_row_uuids_from_batch :: "write_lib \<Rightarrow> record_batch \<Rightarrow> uuid \<Rightarrow> afield list \<Rightarrow> string list \<Rightarrow>
    string \<Rightarrow> uuid list result" where
  "validated_row_uuids_from_batch lib b table_uuid user_schema primary_keys what =
     rbind (validate_pk_batch_schema b user_schema primary_keys what) (\<lambda>_. derive_row_uuids lib b table_uuid)"

definition invalid_ipc :: "string \<Rightarrow> string \<Rightarrow> 'a result \<Rightarrow> 'a result" where
  "invalid_ipc what message r = (case r of Inl _ \<Rightarrow> Inl (InvalidRequest (what @ message)) | Inr x \<Rightarrow> Inr x)"

definition row_uuids_from_pk_ipc :: "write_lib \<Rightarrow> string \<Rightarrow> uuid \<Rightarrow> afield list \<Rightarrow> string list \<Rightarrow> string \<Rightarrow>
    uuid list result" where
  "row_uuids_from_pk_ipc lib ipc_bytes table_uuid user_schema primary_keys what =
     rbind (invalid_ipc what '' is not a valid Arrow IPC stream'' (wl_ipc lib ipc_bytes)) (\<lambda>reader.
     rbind (rmap (\<lambda>batch_result.
         rbind (invalid_ipc what '' Arrow IPC decode failed'' batch_result) (\<lambda>b.
         if num_rows b = 0 then Inr []
         else validated_row_uuids_from_batch lib b table_uuid user_schema primary_keys what)) reader) (\<lambda>uss.
     if concat uss = [] then Inl (InvalidRequest (what @ '' batch contains no rows; omit the field for an unrestricted read''))
     else Inr (concat uss)))"

definition optional_row_uuids :: "write_lib \<Rightarrow> string \<Rightarrow> uuid \<Rightarrow> afield list \<Rightarrow> string list \<Rightarrow> uuid list option result" where
  "optional_row_uuids lib ids_bytes table_uuid user_schema primary_keys =
     (if ids_bytes = [] then Inr None
      else rbind (row_uuids_from_pk_ipc lib ids_bytes table_uuid user_schema primary_keys ''ids'') (\<lambda>us. Inr (Some us)))"

section \<open>Statements on the logs\<close>

definition row_literals :: "write_lib \<Rightarrow> afield list \<Rightarrow> row \<Rightarrow> (string \<rightharpoonup> cell) result" where
  "row_literals lib sch r =
     rbind (rmap (\<lambda>(f, c). wl_literal lib (field_type f) c) (zip sch r))
       (\<lambda>vals. Inr (map_of (zip (map field_name sch) vals)))"

text \<open>One proposed row of the multi-row \<open>INSERT\<close>.  Its \<open>write_seq_num\<close> is drawn before the conflict
  is detected; \<open>DO UPDATE\<close> assigns the user columns only.\<close>

definition propose_upsert :: "upsert_row \<Rightarrow> hot_table \<Rightarrow> hot_table" where
  "propose_upsert new ht =
     (let row = new\<lparr>up_wseq := ht_write_seq ht\<rparr> in
      ht\<lparr>ht_upserts :=
           (if \<exists>u \<in> set (ht_upserts ht). up_version u = up_version row
            then map (\<lambda>u. if up_version u = up_version row then u\<lparr>up_cols := up_cols u ++ up_cols row\<rparr> else u) (ht_upserts ht)
            else ht_upserts ht @ [row]),
         ht_write_seq := ht_write_seq ht + 1\<rparr>)"

definition insert_upserts :: "write_lib \<Rightarrow> uuid list \<Rightarrow> uuid list \<Rightarrow> uuid \<Rightarrow> record_batch \<Rightarrow> hot_table \<Rightarrow> hot_table result" where
  "insert_upserts lib version_uuids row_uuids tx_uuid user_batch ht =
     (if num_rows user_batch = 0 then Inr ht
      else rbind (rmap (row_literals lib (schema user_batch)) (rows user_batch)) (\<lambda>vals.
        if \<not> distinct version_uuids
        then Inl (HotStorageErr ''ON CONFLICT DO UPDATE command cannot affect row a second time'')
        else Inr (fold propose_upsert
          (map (\<lambda>(v, r, cols). \<lparr>up_version = v, up_row = r, up_tx = tx_uuid, up_wseq = 0, up_cols = cols\<rparr>)
            (zip version_uuids (zip row_uuids vals))) ht)))"

definition propose_delete :: "delete_row \<Rightarrow> hot_table \<Rightarrow> hot_table" where
  "propose_delete new ht =
     (let row = new\<lparr>dl_wseq := ht_write_seq ht\<rparr> in
      ht\<lparr>ht_deletes :=
           (if \<exists>d \<in> set (ht_deletes ht). dl_version d = dl_version row then ht_deletes ht else ht_deletes ht @ [row]),
         ht_write_seq := ht_write_seq ht + 1\<rparr>)"

definition insert_deletes :: "write_lib \<Rightarrow> record_batch \<Rightarrow> uuid list \<Rightarrow> uuid \<Rightarrow> hot_table \<Rightarrow> hot_table result" where
  "insert_deletes lib pk_batch row_uuids tx_uuid ht =
     (if num_rows pk_batch = 0 then Inr ht
      else rbind (rmap (row_literals lib (schema pk_batch)) (rows pk_batch)) (\<lambda>vals.
        Inr (fold propose_delete
          (map (\<lambda>(r, cols). \<lparr>dl_version = version_uuid (wl_hash lib) r tx_uuid, dl_row = r, dl_pk = cols, dl_tx = tx_uuid, dl_wseq = 0\<rparr>)
            (zip row_uuids vals)) ht)))"

section \<open>The write handler\<close>

definition add_row_uuid :: "write_lib \<Rightarrow> data_type list \<Rightarrow> uuid \<Rightarrow> uuid list \<times> uuid list \<Rightarrow> cell list \<Rightarrow>
    (uuid list \<times> uuid list) result" where
  "add_row_uuid lib types table_uuid acc pk_cells =
     (case acc of (seen, row_uuids) \<Rightarrow>
      rbind (row_uuid_for_row lib types pk_cells table_uuid) (\<lambda>u.
      if u \<in> set seen
      then Inl (InvalidRequest (''WriteData upserts contain duplicate row_uuid '' @ u @ '' for table '' @ table_uuid))
      else Inr (u # seen, row_uuids @ [u])))"

fun insert_rows_loop :: "write_lib \<Rightarrow> uuid \<Rightarrow> uuid \<Rightarrow> string list \<Rightarrow> record_batch result list \<Rightarrow> uuid list \<Rightarrow> nat \<Rightarrow>
    hot_table \<Rightarrow> (hot_table \<times> nat) result" where
  "insert_rows_loop lib table_uuid tx_uuid primary_keys [] seen total_rows ht = Inr (ht, total_rows)"
| "insert_rows_loop lib table_uuid tx_uuid primary_keys (batch_result # reader) seen total_rows ht =
     rbind batch_result (\<lambda>b.
     if num_rows b = 0 then insert_rows_loop lib table_uuid tx_uuid primary_keys reader seen total_rows ht
     else rbind (resolve_keys (\<lambda>pk. InvalidRequest (''primary key column '' @ pk @ '' not found in batch'')) (schema b) primary_keys) (\<lambda>pk_cols.
          rbind (ensure_no_null_pks pk_cols b primary_keys ''upserts'') (\<lambda>_.
          rbind (rfold (add_row_uuid lib (key_types (schema b) pk_cols) table_uuid) (seen, []) (map (key_cells pk_cols) (rows b))) (\<lambda>(seen', row_uuids).
          rbind (insert_upserts lib (map (\<lambda>u. version_uuid (wl_hash lib) u tx_uuid) row_uuids) row_uuids tx_uuid b ht) (\<lambda>ht'.
          insert_rows_loop lib table_uuid tx_uuid primary_keys reader seen' (total_rows + num_rows b) ht')))))"

definition insert_rows :: "write_lib \<Rightarrow> uuid \<Rightarrow> uuid \<Rightarrow> string \<Rightarrow> string list \<Rightarrow> hot_table \<Rightarrow> (hot_table \<times> nat) result" where
  "insert_rows lib table_uuid tx_uuid ipc_bytes primary_keys ht =
     rbind (wl_ipc lib ipc_bytes) (\<lambda>reader. insert_rows_loop lib table_uuid tx_uuid primary_keys reader [] 0 ht)"

definition insert_delete_batch :: "write_lib \<Rightarrow> uuid \<Rightarrow> uuid \<Rightarrow> afield list \<Rightarrow> string list \<Rightarrow> hot_table \<times> nat \<Rightarrow>
    record_batch result \<Rightarrow> (hot_table \<times> nat) result" where
  "insert_delete_batch lib table_uuid tx_uuid user_schema primary_keys acc batch_result =
     (case acc of (ht, total_rows) \<Rightarrow>
      rbind batch_result (\<lambda>b.
      if num_rows b = 0 then Inr (ht, total_rows)
      else rbind (validated_row_uuids_from_batch lib b table_uuid user_schema primary_keys ''deletes'') (\<lambda>row_uuids.
           rbind (insert_deletes lib b row_uuids tx_uuid ht) (\<lambda>ht'. Inr (ht', total_rows + num_rows b)))))"

definition insert_delete_pk_batches :: "write_lib \<Rightarrow> uuid \<Rightarrow> uuid \<Rightarrow> string \<Rightarrow> afield list \<Rightarrow> string list \<Rightarrow> hot_table \<Rightarrow>
    (hot_table \<times> nat) result" where
  "insert_delete_pk_batches lib table_uuid tx_uuid ipc_bytes user_schema primary_keys ht =
     rbind (wl_ipc lib ipc_bytes) (\<lambda>reader.
     rfold (insert_delete_batch lib table_uuid tx_uuid user_schema primary_keys) (ht, 0) reader)"

record change =
  ch_upserts :: string
  ch_deletes :: string

definition apply_change :: "write_lib \<Rightarrow> uuid \<Rightarrow> afield list \<Rightarrow> string list \<Rightarrow> change \<Rightarrow> uuid \<Rightarrow> hot_table \<times> tx_log \<Rightarrow>
    (hot_table \<times> tx_log) result" where
  "apply_change lib table_uuid user_schema primary_keys ch tx_uuid state =
     (case state of (ht, log) \<Rightarrow>
      if ch_upserts ch = [] \<and> ch_deletes ch = [] then Inr (ht, log)
      else rbind (if ch_deletes ch = [] then Inr (ht, 0)
                  else insert_delete_pk_batches lib table_uuid tx_uuid (ch_deletes ch) user_schema primary_keys ht) (\<lambda>(ht', deleted).
           rbind (if ch_upserts ch = [] then Inr (ht', 0)
                  else insert_rows lib table_uuid tx_uuid (ch_upserts ch) primary_keys ht') (\<lambda>(ht'', inserted).
           Inr (ht'', if deleted > 0 \<or> inserted > 0 then insert_tx_table_log tx_uuid [table_uuid] log else log))))"

definition write_data :: "int \<Rightarrow> int \<Rightarrow> write_lib \<Rightarrow> uuid \<Rightarrow> uuid \<Rightarrow> afield list \<Rightarrow> string list \<Rightarrow> uuid option \<Rightarrow>
    string option \<Rightarrow> string option \<Rightarrow> change option \<Rightarrow> hot_table \<times> tx_log \<Rightarrow> ((hot_table \<times> tx_log) \<times> int option) result" where
  "write_data now clock lib new_uuid table_uuid user_schema primary_keys request_tx author comment ch state =
     (case state of (ht, log) \<Rightarrow>
      rbind (resolve_or_auto_commit_tx now clock new_uuid request_tx author comment log) (\<lambda>(log', tx_uuid, committed).
      rbind (case ch of None \<Rightarrow> Inr (ht, log')
             | Some c \<Rightarrow> apply_change lib table_uuid user_schema primary_keys c tx_uuid (ht, log')) (\<lambda>state'.
      Inr (state', map_option ct_micros committed))))"

section \<open>Committed reads and purging\<close>

record version =
  lv_row :: uuid
  lv_cols :: "string \<rightharpoonup> cell"
  lv_micros :: int
  lv_wseq :: int
  lv_seq :: int

definition upsert_version :: "upsert_row \<Rightarrow> int \<Rightarrow> int \<Rightarrow> version" where
  "upsert_version u micros seq =
     \<lparr>lv_row = up_row u, lv_cols = up_cols u, lv_micros = micros, lv_wseq = up_wseq u, lv_seq = seq\<rparr>"

definition delete_version :: "delete_row \<Rightarrow> int \<Rightarrow> int \<Rightarrow> version" where
  "delete_version d micros seq =
     \<lparr>lv_row = dl_row d, lv_cols = dl_pk d, lv_micros = micros, lv_wseq = dl_wseq d, lv_seq = seq\<rparr>"

definition build_committed_at_filter :: "int option \<Rightarrow> int option \<Rightarrow> commit_row \<Rightarrow> bool" where
  "build_committed_at_filter min_micros max_micros t =
     ((case min_micros of None \<Rightarrow> True | Some m \<Rightarrow> m \<le> ct_micros t) \<and>
      (case max_micros of None \<Rightarrow> True | Some m \<Rightarrow> ct_micros t < m))"

definition read_committed_upserts :: "int option \<Rightarrow> int option \<Rightarrow> hot_table \<Rightarrow> tx_log \<Rightarrow> version list" where
  "read_committed_upserts min_micros max_micros ht log =
     concat (map (\<lambda>u. map (\<lambda>t. upsert_version u (ct_micros t) (ct_seq t))
        (filter (\<lambda>t. ct_tx t = up_tx u \<and> build_committed_at_filter min_micros max_micros t) (tl_commits log))) (ht_upserts ht))"

definition read_committed_deletes :: "int option \<Rightarrow> int option \<Rightarrow> hot_table \<Rightarrow> tx_log \<Rightarrow> version list" where
  "read_committed_deletes min_micros max_micros ht log =
     concat (map (\<lambda>d. map (\<lambda>t. delete_version d (ct_micros t) (ct_seq t))
        (filter (\<lambda>t. ct_tx t = dl_tx d \<and> build_committed_at_filter min_micros max_micros t) (tl_commits log))) (ht_deletes ht))"

definition delete_hot_log_rows_for_tx_subquery :: "(uuid \<Rightarrow> bool) \<Rightarrow> hot_table \<Rightarrow> hot_table" where
  "delete_hot_log_rows_for_tx_subquery doomed ht =
     ht\<lparr>ht_upserts := filter (\<lambda>u. \<not> doomed (up_tx u)) (ht_upserts ht),
        ht_deletes := filter (\<lambda>d. \<not> doomed (dl_tx d)) (ht_deletes ht)\<rparr>"

definition delete_expired_begin_hot_rows :: "int \<Rightarrow> tx_log \<Rightarrow> hot_table \<Rightarrow> hot_table" where
  "delete_expired_begin_hot_rows now_micros log ht =
     delete_hot_log_rows_for_tx_subquery
       (\<lambda>tx. (\<exists>b \<in> set (tl_begins log). bt_tx b = tx \<and> bt_expires b < now_micros) \<and>
             (\<forall>t \<in> set (tl_commits log). ct_tx t \<noteq> tx) \<and> (\<forall>a \<in> set (tl_aborts log). ab_tx a \<noteq> tx)) ht"

definition purge_committed_rows :: "int \<Rightarrow> tx_log \<Rightarrow> hot_table \<Rightarrow> hot_table" where
  "purge_committed_rows pu log ht =
     delete_hot_log_rows_for_tx_subquery (\<lambda>tx. \<exists>t \<in> set (tl_commits log). ct_tx t = tx \<and> ct_seq t \<le> pu) ht"

definition purge_aborted_rows :: "int \<Rightarrow> tx_log \<Rightarrow> hot_table \<Rightarrow> hot_table" where
  "purge_aborted_rows pa log ht =
     delete_hot_log_rows_for_tx_subquery (\<lambda>tx. \<exists>a \<in> set (tl_aborts log). ab_tx a = tx \<and> ab_seq a < pa) ht"

section \<open>Row events of a transaction\<close>

datatype row_event = RDelete uuid "string \<rightharpoonup> cell" | RUpsert uuid "string \<rightharpoonup> cell"

fun apply_event :: "hash_fn \<Rightarrow> uuid \<Rightarrow> row_event \<Rightarrow> hot_table \<Rightarrow> hot_table" where
  "apply_event h tx (RDelete u cols) ht =
     propose_delete \<lparr>dl_version = version_uuid h u tx, dl_row = u, dl_pk = cols, dl_tx = tx, dl_wseq = 0\<rparr> ht"
| "apply_event h tx (RUpsert u cols) ht =
     propose_upsert \<lparr>up_version = version_uuid h u tx, up_row = u, up_tx = tx, up_wseq = 0, up_cols = cols\<rparr> ht"

definition apply_events :: "hash_fn \<Rightarrow> uuid \<Rightarrow> row_event list \<Rightarrow> hot_table \<Rightarrow> hot_table" where
  "apply_events h tx es ht = fold (apply_event h tx) es ht"

definition change_events :: "(uuid \<times> (string \<rightharpoonup> cell)) list \<Rightarrow> (uuid \<times> (string \<rightharpoonup> cell)) list \<Rightarrow> row_event list" where
  "change_events dels ups = map (\<lambda>(u, c). RDelete u c) dels @ map (\<lambda>(u, c). RUpsert u c) ups"

definition upsert_batch_uuids :: "write_lib \<Rightarrow> uuid \<Rightarrow> string list \<Rightarrow> record_batch \<Rightarrow> uuid list result" where
  "upsert_batch_uuids lib table_uuid primary_keys b =
     (if num_rows b = 0 then Inr []
      else rbind (resolve_keys (\<lambda>pk. InvalidRequest (''primary key column '' @ pk @ '' not found in batch'')) (schema b) primary_keys) (\<lambda>pk_cols.
           rmap (\<lambda>r. row_uuid_for_row lib (key_types (schema b) pk_cols) (key_cells pk_cols r) table_uuid) (rows b)))"

definition delete_batch_uuids :: "write_lib \<Rightarrow> uuid \<Rightarrow> afield list \<Rightarrow> string list \<Rightarrow> record_batch \<Rightarrow> uuid list result" where
  "delete_batch_uuids lib table_uuid user_schema primary_keys b =
     (if num_rows b = 0 then Inr []
      else validated_row_uuids_from_batch lib b table_uuid user_schema primary_keys ''deletes'')"

definition payload_uuids :: "write_lib \<Rightarrow> (record_batch \<Rightarrow> uuid list result) \<Rightarrow> string \<Rightarrow> uuid list result" where
  "payload_uuids lib batch_uuids ipc_bytes =
     (if ipc_bytes = [] then Inr []
      else rbind (wl_ipc lib ipc_bytes) (\<lambda>reader. rbind (rmap (\<lambda>r. rbind r batch_uuids) reader) (\<lambda>uss. Inr (concat uss))))"

section \<open>A change is deletes, then upserts\<close>

lemma apply_events_simps [simp]:
  "apply_events h tx [] ht = ht"
  "apply_events h tx (es @ fs) ht = apply_events h tx fs (apply_events h tx es ht)"
  by (simp_all add: apply_events_def)

lemma fold_upserts:
  assumes "length us = length vals"
  shows "fold propose_upsert (map (\<lambda>(v, r, cols). \<lparr>up_version = v, up_row = r, up_tx = tx, up_wseq = 0, up_cols = cols\<rparr>)
       (zip (map (\<lambda>u. version_uuid h u tx) us) (zip us vals))) ht =
     apply_events h tx (map (\<lambda>(u, c). RUpsert u c) (zip us vals)) ht"
  using assms by (induction us vals arbitrary: ht rule: list_induct2) (simp_all add: apply_events_def)

lemma fold_deletes:
  "fold propose_delete (map (\<lambda>(r, cols). \<lparr>dl_version = version_uuid h r tx, dl_row = r, dl_pk = cols, dl_tx = tx, dl_wseq = 0\<rparr>) dels) ht =
     apply_events h tx (map (\<lambda>(u, c). RDelete u c) dels) ht"
  by (induction dels arbitrary: ht) (auto simp: apply_events_def)

lemma add_row_uuid_ok:
  "add_row_uuid lib types table (seen, acc) c = Inr r \<longleftrightarrow>
     (\<exists>u. row_uuid_for_row lib types c table = Inr u \<and> u \<notin> set seen \<and> r = (u # seen, acc @ [u]))"
  by (auto simp: add_row_uuid_def rbind_eq_Inr)

lemma add_row_uuids:
  assumes "rfold (add_row_uuid lib types table) (seen, acc) pks = Inr (seen', us)"
  shows "\<exists>new. us = acc @ new \<and> rmap (\<lambda>c. row_uuid_for_row lib types c table) pks = Inr new \<and> distinct new \<and>
     set seen \<inter> set new = {} \<and> set seen' = set seen \<union> set new"
  using assms
proof (induction pks arbitrary: seen acc)
  case (Cons c pks)
  then obtain u where u: "row_uuid_for_row lib types c table = Inr u" "u \<notin> set seen"
    and rest: "rfold (add_row_uuid lib types table) (u # seen, acc @ [u]) pks = Inr (seen', us)"
    by (auto simp: rbind_eq_Inr add_row_uuid_ok)
  from Cons.IH[OF rest] obtain new where "us = (acc @ [u]) @ new" "rmap (\<lambda>c. row_uuid_for_row lib types c table) pks = Inr new"
    "distinct new" "set (u # seen) \<inter> set new = {}" "set seen' = set (u # seen) \<union> set new" by blast
  then show ?case using u by (intro exI[of _ "u # new"]) auto
qed simp

lemma insert_upserts_events:
  assumes "insert_upserts lib (map (\<lambda>u. version_uuid (wl_hash lib) u tx) us) us tx b ht = Inr ht'"
    and "length us = num_rows b" "num_rows b \<noteq> 0"
  shows "\<exists>vals. length vals = length us \<and>
     ht' = apply_events (wl_hash lib) tx (map (\<lambda>(u, c). RUpsert u c) (zip us vals)) ht"
proof -
  obtain vals where "rmap (row_literals lib (schema b)) (rows b) = Inr vals"
    and ht': "ht' = fold propose_upsert (map (\<lambda>(v, r, cols). \<lparr>up_version = v, up_row = r, up_tx = tx, up_wseq = 0, up_cols = cols\<rparr>)
       (zip (map (\<lambda>u. version_uuid (wl_hash lib) u tx) us) (zip us vals))) ht"
    using assms by (auto simp: insert_upserts_def rbind_eq_Inr split: if_splits)
  then have "length us = length vals" using assms(2) rmap_length by (fastforce simp: num_rows_def)
  then show ?thesis using fold_upserts ht' by metis
qed

lemma insert_rows_loop_events:
  assumes "insert_rows_loop lib table tx pks reader seen k ht = Inr (ht', n)"
  shows "\<exists>ups uss. ht' = apply_events (wl_hash lib) tx (map (\<lambda>(u, c). RUpsert u c) ups) ht \<and>
     rmap (\<lambda>r. rbind r (upsert_batch_uuids lib table pks)) reader = Inr uss \<and> map fst ups = concat uss \<and>
     distinct (map fst ups) \<and> set seen \<inter> set (map fst ups) = {} \<and> n = k + length ups"
  using assms
proof (induction lib table tx pks reader seen k ht rule: insert_rows_loop.induct)
  case (2 lib table tx pks r reader seen k ht)
  then obtain b where r: "r = Inr b" by (auto simp: rbind_eq_Inr)
  show ?case
  proof (cases "num_rows b = 0")
    case True
    then have "insert_rows_loop lib table tx pks reader seen k ht = Inr (ht', n)" using "2.prems" r by simp
    from "2.IH"(1)[OF True this] r True show ?thesis by (auto simp: upsert_batch_uuids_def)
  next
    case False
    from "2.prems" r False obtain pk_cols seen' us ht1 where
      cols: "resolve_keys (\<lambda>pk. InvalidRequest (''primary key column '' @ pk @ '' not found in batch'')) (schema b) pks = Inr pk_cols"
      and null: "ensure_no_null_pks pk_cols b pks ''upserts'' = Inr ()"
      and ids: "rfold (add_row_uuid lib (key_types (schema b) pk_cols) table) (seen, []) (map (key_cells pk_cols) (rows b)) = Inr (seen', us)"
      and ins: "insert_upserts lib (map (\<lambda>u. version_uuid (wl_hash lib) u tx) us) us tx b ht = Inr ht1"
      and rest: "insert_rows_loop lib table tx pks reader seen' (k + num_rows b) ht1 = Inr (ht', n)"
      by (auto simp: rbind_eq_Inr)
    have ids': "rmap (\<lambda>c. row_uuid_for_row lib (key_types (schema b) pk_cols) c table) (map (key_cells pk_cols) (rows b)) = Inr us"
      "distinct us" "set seen \<inter> set us = {}" "set seen' = set seen \<union> set us" using add_row_uuids[OF ids] by auto
    have len: "length us = num_rows b" using rmap_length[OF ids'(1)] by (simp add: num_rows_def)
    obtain vals where vals: "length vals = length us"
      "ht1 = apply_events (wl_hash lib) tx (map (\<lambda>(u, c). RUpsert u c) (zip us vals)) ht"
      using insert_upserts_events[OF ins len False] by blast
    obtain ups uss where more: "ht' = apply_events (wl_hash lib) tx (map (\<lambda>(u, c). RUpsert u c) ups) ht1"
      "rmap (\<lambda>r. rbind r (upsert_batch_uuids lib table pks)) reader = Inr uss" "map fst ups = concat uss"
      "distinct (map fst ups)" "set seen' \<inter> set (map fst ups) = {}" "n = k + num_rows b + length ups"
      using "2.IH"(2)[OF False rest] by blast
    have batch: "upsert_batch_uuids lib table pks b = Inr us"
      using False cols ids'(1) by (simp add: upsert_batch_uuids_def rmap_map)
    have names: "map fst (zip us vals @ ups) = us @ concat uss" using vals(1) more(3) by simp
    show ?thesis
    proof (intro exI conjI)
      show "ht' = apply_events (wl_hash lib) tx (map (\<lambda>(u, c). RUpsert u c) (zip us vals @ ups)) ht" using vals more by simp
      show "rmap (\<lambda>r. rbind r (upsert_batch_uuids lib table pks)) (r # reader) = Inr (us # uss)" using r batch more(2) by simp
      show "map fst (zip us vals @ ups) = concat (us # uss)" using names by simp
      show "distinct (map fst (zip us vals @ ups))" using names ids'(2,4) more(3-5) by auto
      show "set seen \<inter> set (map fst (zip us vals @ ups)) = {}" using names ids'(3,4) more(3,5) by auto
      show "n = k + length (zip us vals @ ups)" using more(6) len vals(1) by simp
    qed
  qed
qed simp

lemma insert_delete_batch_ok:
  assumes "insert_delete_batch lib table tx sch pks (ht, k) r = Inr (ht', n)"
  shows "\<exists>dels. ht' = apply_events (wl_hash lib) tx (map (\<lambda>(u, c). RDelete u c) dels) ht \<and>
     rbind r (delete_batch_uuids lib table sch pks) = Inr (map fst dels) \<and> n = k + length dels"
proof -
  obtain b where b: "r = Inr b" using assms by (auto simp: insert_delete_batch_def rbind_eq_Inr)
  show ?thesis
  proof (cases "num_rows b = 0")
    case True
    then show ?thesis using assms b by (intro exI[of _ "[]"]) (simp add: insert_delete_batch_def delete_batch_uuids_def)
  next
    case False
    then obtain us where us: "validated_row_uuids_from_batch lib b table sch pks ''deletes'' = Inr us"
      and ins: "insert_deletes lib b us tx ht = Inr ht'" and n: "n = k + num_rows b"
      using assms b by (auto simp: insert_delete_batch_def rbind_eq_Inr)
    obtain vals where vals: "rmap (row_literals lib (schema b)) (rows b) = Inr vals"
      and ht': "ht' = apply_events (wl_hash lib) tx (map (\<lambda>(u, c). RDelete u c) (zip us vals)) ht"
      using ins False by (auto simp: insert_deletes_def rbind_eq_Inr fold_deletes)
    have "derive_row_uuids lib b table = Inr us" using us by (auto simp: validated_row_uuids_from_batch_def rbind_eq_Inr)
    then have "length us = num_rows b" unfolding derive_row_uuids_def num_rows_def by (rule rmap_length)
    moreover have "length vals = num_rows b" using rmap_length[OF vals] by (simp add: num_rows_def)
    ultimately show ?thesis using False us b ht' n by (intro exI[of _ "zip us vals"]) (simp add: delete_batch_uuids_def)
  qed
qed

lemma insert_delete_events:
  assumes "rfold (insert_delete_batch lib table tx sch pks) (ht, k) reader = Inr (ht', n)"
  shows "\<exists>dels uss. ht' = apply_events (wl_hash lib) tx (map (\<lambda>(u, c). RDelete u c) dels) ht \<and>
     rmap (\<lambda>r. rbind r (delete_batch_uuids lib table sch pks)) reader = Inr uss \<and> map fst dels = concat uss \<and>
     n = k + length dels"
  using assms
proof (induction reader arbitrary: ht k)
  case (Cons r reader)
  then obtain ht1 k1 where step: "insert_delete_batch lib table tx sch pks (ht, k) r = Inr (ht1, k1)"
    and rest: "rfold (insert_delete_batch lib table tx sch pks) (ht1, k1) reader = Inr (ht', n)" by (auto simp: rbind_eq_Inr)
  obtain ds where ds: "ht1 = apply_events (wl_hash lib) tx (map (\<lambda>(u, c). RDelete u c) ds) ht"
    "rbind r (delete_batch_uuids lib table sch pks) = Inr (map fst ds)" "k1 = k + length ds" using insert_delete_batch_ok[OF step] by blast
  obtain dels uss where more: "ht' = apply_events (wl_hash lib) tx (map (\<lambda>(u, c). RDelete u c) dels) ht1"
    "rmap (\<lambda>r. rbind r (delete_batch_uuids lib table sch pks)) reader = Inr uss" "map fst dels = concat uss" "n = k1 + length dels"
    using Cons.IH[OF rest] by blast
  show ?case
  proof (intro exI conjI)
    show "ht' = apply_events (wl_hash lib) tx (map (\<lambda>(u, c). RDelete u c) (ds @ dels)) ht" using ds(1) more(1) by simp
    show "rmap (\<lambda>r. rbind r (delete_batch_uuids lib table sch pks)) (r # reader) = Inr (map fst ds # uss)" using ds(2) more(2) by simp
  qed (use ds more in simp_all)
qed simp

lemma delete_payload:
  assumes "(if bytes = [] then Inr (ht, 0) else insert_delete_pk_batches lib table tx bytes sch pks ht) = Inr (ht', n)"
  shows "\<exists>dels. ht' = apply_events (wl_hash lib) tx (map (\<lambda>(u, c). RDelete u c) dels) ht \<and>
     payload_uuids lib (delete_batch_uuids lib table sch pks) bytes = Inr (map fst dels) \<and> n = length dels"
proof (cases "bytes = []")
  case False
  then obtain reader where "wl_ipc lib bytes = Inr reader"
    and "rfold (insert_delete_batch lib table tx sch pks) (ht, 0) reader = Inr (ht', n)"
    using assms by (auto simp: insert_delete_pk_batches_def rbind_eq_Inr)
  with insert_delete_events[OF this(2)] False show ?thesis by (fastforce simp: payload_uuids_def)
qed (use assms in \<open>simp add: payload_uuids_def\<close>)

lemma upsert_payload:
  assumes "(if bytes = [] then Inr (ht, 0) else insert_rows lib table tx bytes pks ht) = Inr (ht', n)"
  shows "\<exists>ups. ht' = apply_events (wl_hash lib) tx (map (\<lambda>(u, c). RUpsert u c) ups) ht \<and>
     payload_uuids lib (upsert_batch_uuids lib table pks) bytes = Inr (map fst ups) \<and> distinct (map fst ups) \<and> n = length ups"
proof (cases "bytes = []")
  case False
  then obtain reader where "wl_ipc lib bytes = Inr reader"
    and "insert_rows_loop lib table tx pks reader [] 0 ht = Inr (ht', n)"
    using assms by (auto simp: insert_rows_def rbind_eq_Inr)
  with insert_rows_loop_events[OF this(2)] False show ?thesis by (fastforce simp: payload_uuids_def)
qed (use assms in \<open>simp add: payload_uuids_def\<close>)

text \<open>C8: an accepted change writes its deletes, then its upserts, one row event per payload row and in payload
  order, under the row identities derived from the primary keys; it names no row twice among its
  upserts, and it records the table in the transaction's table log exactly when it wrote a row.\<close>

theorem apply_change_events:
  assumes "apply_change lib table_uuid user_schema primary_keys ch tx (ht, log) = Inr (ht', log')"
  shows "\<exists>dels ups. ht' = apply_events (wl_hash lib) tx (change_events dels ups) ht \<and>
     payload_uuids lib (delete_batch_uuids lib table_uuid user_schema primary_keys) (ch_deletes ch) = Inr (map fst dels) \<and>
     payload_uuids lib (upsert_batch_uuids lib table_uuid primary_keys) (ch_upserts ch) = Inr (map fst ups) \<and>
     distinct (map fst ups) \<and>
     log' = (if dels = [] \<and> ups = [] then log else insert_tx_table_log tx [table_uuid] log)"
proof (cases "ch_upserts ch = [] \<and> ch_deletes ch = []")
  case True
  then show ?thesis using assms
    by (intro exI[of _ "[]"]) (simp add: apply_change_def payload_uuids_def change_events_def)
next
  case False
  then obtain ht1 n m where del: "(if ch_deletes ch = [] then Inr (ht, 0)
      else insert_delete_pk_batches lib table_uuid tx (ch_deletes ch) user_schema primary_keys ht) = Inr (ht1, n)"
    and ups: "(if ch_upserts ch = [] then Inr (ht1, 0) else insert_rows lib table_uuid tx (ch_upserts ch) primary_keys ht1) = Inr (ht', m)"
    and log: "log' = (if n > 0 \<or> m > 0 then insert_tx_table_log tx [table_uuid] log else log)"
    using assms by (auto simp: apply_change_def rbind_eq_Inr)
  from delete_payload[OF del] upsert_payload[OF ups] obtain dels ups where
    "ht1 = apply_events (wl_hash lib) tx (map (\<lambda>(u, c). RDelete u c) dels) ht"
    "payload_uuids lib (delete_batch_uuids lib table_uuid user_schema primary_keys) (ch_deletes ch) = Inr (map fst dels)"
    "n = length dels" "ht' = apply_events (wl_hash lib) tx (map (\<lambda>(u, c). RUpsert u c) ups) ht1"
    "payload_uuids lib (upsert_batch_uuids lib table_uuid primary_keys) (ch_upserts ch) = Inr (map fst ups)"
    "distinct (map fst ups)" "m = length ups" by blast
  then show ?thesis using log by (intro exI[of _ dels] exI[of _ ups]) (auto simp: change_events_def)
qed

section \<open>The rows of one transaction\<close>

definition tx_upsert :: "hash_fn \<Rightarrow> uuid \<Rightarrow> uuid \<Rightarrow> hot_table \<Rightarrow> upsert_row option" where
  "tx_upsert h tx u ht = find (\<lambda>r. up_version r = version_uuid h u tx) (ht_upserts ht)"

definition tx_delete :: "hash_fn \<Rightarrow> uuid \<Rightarrow> uuid \<Rightarrow> hot_table \<Rightarrow> delete_row option" where
  "tx_delete h tx u ht = find (\<lambda>d. dl_version d = version_uuid h u tx) (ht_deletes ht)"

fun event_row :: "row_event \<Rightarrow> uuid" where
  "event_row (RDelete u _) = u"
| "event_row (RUpsert u _) = u"

fun is_upsert :: "row_event \<Rightarrow> bool" where
  "is_upsert (RDelete _ _) = False"
| "is_upsert (RUpsert _ _) = True"

fun event_cols :: "row_event \<Rightarrow> string \<rightharpoonup> cell" where
  "event_cols (RDelete _ c) = c"
| "event_cols (RUpsert _ c) = c"

definition row_events :: "uuid \<Rightarrow> row_event list \<Rightarrow> row_event list" where
  "row_events u es = filter (\<lambda>e. event_row e = u) es"

fun row_trace :: "uuid \<Rightarrow> row_event list \<Rightarrow> int \<Rightarrow> (int \<times> (string \<rightharpoonup> cell)) option \<times> int option \<Rightarrow>
    (int \<times> (string \<rightharpoonup> cell)) option \<times> int option" where
  "row_trace u [] s st = st"
| "row_trace u (RDelete v c # es) s (a, b) = row_trace u es (s + 1) (a, if v = u \<and> b = None then Some s else b)"
| "row_trace u (RUpsert v c # es) s (a, b) =
     row_trace u es (s + 1) (if v = u then (case a of None \<Rightarrow> Some (s, c) | Some (s\<^sub>0, c\<^sub>0) \<Rightarrow> Some (s\<^sub>0, c\<^sub>0 ++ c)) else a, b)"

definition tx_row :: "hash_fn \<Rightarrow> uuid \<Rightarrow> uuid \<Rightarrow> hot_table \<Rightarrow> (int \<times> (string \<rightharpoonup> cell)) option \<times> int option" where
  "tx_row h tx u ht =
     (map_option (\<lambda>r. (up_wseq r, up_cols r)) (tx_upsert h tx u ht), map_option dl_wseq (tx_delete h tx u ht))"

lemma find_map_same: "(\<And>x. x \<in> set xs \<Longrightarrow> P (f x) = P x) \<Longrightarrow> find P (map f xs) = map_option f (find P xs)"
  by (induction xs) auto

lemma find_snoc: "find P (xs @ [x]) = (case find P xs of Some y \<Rightarrow> Some y | None \<Rightarrow> if P x then Some x else None)"
  by (induction xs) auto

lemma propose_upsert_row:
  assumes "up_version new = version_uuid h v tx" "version_uuid h v tx = version_uuid h u tx \<longleftrightarrow> v = u"
  shows "tx_row h tx u (propose_upsert new ht) =
     (if v = u then (case fst (tx_row h tx u ht) of None \<Rightarrow> Some (ht_write_seq ht, up_cols new)
        | Some (s\<^sub>0, c\<^sub>0) \<Rightarrow> Some (s\<^sub>0, c\<^sub>0 ++ up_cols new)) else fst (tx_row h tx u ht), snd (tx_row h tx u ht))"
proof -
  have up: "tx_upsert h tx u (propose_upsert new ht) =
      (if \<exists>r \<in> set (ht_upserts ht). up_version r = up_version new
       then map_option (\<lambda>r. if up_version r = up_version new then r\<lparr>up_cols := up_cols r ++ up_cols new\<rparr> else r) (tx_upsert h tx u ht)
       else (case tx_upsert h tx u ht of Some r \<Rightarrow> Some r | None \<Rightarrow>
         if up_version new = version_uuid h u tx then Some (new\<lparr>up_wseq := ht_write_seq ht\<rparr>) else None))"
    unfolding tx_upsert_def propose_upsert_def Let_def by (auto simp: find_map_same find_snoc cong: if_cong option.case_cong)
  have none: "tx_upsert h tx u ht = None \<longleftrightarrow> (\<forall>r \<in> set (ht_upserts ht). up_version r \<noteq> version_uuid h u tx)"
    by (auto simp: tx_upsert_def find_None_iff)
  have some: "tx_upsert h tx u ht = Some r \<Longrightarrow> r \<in> set (ht_upserts ht) \<and> up_version r = version_uuid h u tx" for r
    by (auto simp: tx_upsert_def find_Some_iff)
  have del: "tx_delete h tx u (propose_upsert new ht) = tx_delete h tx u ht" by (simp add: tx_delete_def propose_upsert_def Let_def)
  show ?thesis
  proof (cases "tx_upsert h tx u ht")
    case None
    then show ?thesis using none up del assms by (auto simp: tx_row_def)
  next
    case (Some r)
    then show ?thesis using some[OF Some] up del assms by (auto simp: tx_row_def)
  qed
qed

lemma propose_delete_row:
  assumes "dl_version new = version_uuid h v tx" "version_uuid h v tx = version_uuid h u tx \<longleftrightarrow> v = u"
  shows "tx_row h tx u (propose_delete new ht) =
     (fst (tx_row h tx u ht), if v = u \<and> snd (tx_row h tx u ht) = None then Some (ht_write_seq ht) else snd (tx_row h tx u ht))"
proof -
  have del: "tx_delete h tx u (propose_delete new ht) =
      (if \<exists>d \<in> set (ht_deletes ht). dl_version d = dl_version new then tx_delete h tx u ht
       else (case tx_delete h tx u ht of Some r \<Rightarrow> Some r | None \<Rightarrow>
         if dl_version new = version_uuid h u tx then Some (new\<lparr>dl_wseq := ht_write_seq ht\<rparr>) else None))"
    unfolding tx_delete_def propose_delete_def Let_def by (auto simp: find_snoc)
  have none: "tx_delete h tx u ht = None \<longleftrightarrow> (\<forall>r \<in> set (ht_deletes ht). dl_version r \<noteq> version_uuid h u tx)"
    by (auto simp: tx_delete_def find_None_iff)
  have some: "tx_delete h tx u ht = Some r \<Longrightarrow> r \<in> set (ht_deletes ht) \<and> dl_version r = version_uuid h u tx" for r
    by (auto simp: tx_delete_def find_Some_iff)
  have up: "tx_upsert h tx u (propose_delete new ht) = tx_upsert h tx u ht" by (simp add: tx_upsert_def propose_delete_def Let_def)
  show ?thesis
  proof (cases "tx_delete h tx u ht")
    case None
    then show ?thesis using none up del assms by (auto simp: tx_row_def)
  next
    case (Some r)
    then show ?thesis using some[OF Some] up del assms by (auto simp: tx_row_def)
  qed
qed

lemma propose_seq [simp]: "ht_write_seq (apply_event h tx e ht) = ht_write_seq ht + 1"
  by (cases e) (simp_all add: propose_upsert_def propose_delete_def Let_def)

lemma tx_row_events:
  assumes "\<forall>e \<in> set es. version_uuid h (event_row e) tx = version_uuid h u tx \<longrightarrow> event_row e = u"
  shows "tx_row h tx u (apply_events h tx es ht) = row_trace u es (ht_write_seq ht) (tx_row h tx u ht)"
  using assms
proof (induction es arbitrary: ht)
  case (Cons e es)
  have inj: "version_uuid h (event_row e) tx = version_uuid h u tx \<longleftrightarrow> event_row e = u" using Cons.prems by auto
  obtain a b where st: "tx_row h tx u ht = (a, b)" by fastforce
  have "tx_row h tx u (apply_events h tx (e # es) ht) =
      row_trace u es (ht_write_seq ht + 1) (tx_row h tx u (apply_event h tx e ht))"
    using Cons.IH[of "apply_event h tx e ht"] Cons.prems by (simp add: apply_events_def)
  also have "\<dots> = row_trace u (e # es) (ht_write_seq ht) (tx_row h tx u ht)"
  proof (cases e)
    case (RDelete v c)
    then show ?thesis using inj by (simp add: propose_delete_row[where v = v] st)
  next
    case (RUpsert v c)
    then show ?thesis using inj by (simp add: propose_upsert_row[where v = v] st cong: if_cong option.case_cong)
  qed
  finally show ?case .
qed simp

definition row_wins :: "(int \<times> (string \<rightharpoonup> cell)) option \<times> int option \<Rightarrow> bool" where
  "row_wins st = (case st of (Some (s, _), None) \<Rightarrow> True | (Some (s, _), Some d) \<Rightarrow> d \<le> s | _ \<Rightarrow> False)"

lemma row_events_simps [simp]:
  "row_events u [] = []"
  "row_events u (e # es) = (if event_row e = u then e # row_events u es else row_events u es)"
  by (simp_all add: row_events_def)

lemma row_trace_upserted:
  "fst (row_trace u es s (Some (s\<^sub>0, c\<^sub>0), b)) = Some (s\<^sub>0, foldl (++) c\<^sub>0 (map event_cols (filter is_upsert (row_events u es))))"
proof (induction es arbitrary: s c\<^sub>0 b)
  case (Cons e es)
  then show ?case by (cases e) auto
qed simp

lemma row_trace_deleted: "snd (row_trace u es s (a, Some d)) = Some d"
proof (induction es arbitrary: s a)
  case (Cons e es)
  then show ?case by (cases e) auto
qed simp

lemma row_trace_upserts:
  "if \<exists>e \<in> set (row_events u es). is_upsert e
   then \<exists>s' \<ge> s. fst (row_trace u es s (None, b)) = Some (s', foldl (++) Map.empty (map event_cols (filter is_upsert (row_events u es))))
   else fst (row_trace u es s (None, b)) = None"
proof (induction es arbitrary: s b)
  case (Cons e es)
  show ?case
  proof (cases "event_row e = u \<and> is_upsert e")
    case True
    then obtain c where "e = RUpsert u c" by (cases e) auto
    then show ?thesis by (auto simp: row_trace_upserted)
  next
    case False
    then obtain b' where step: "row_trace u (e # es) s (None, b) = row_trace u es (s + 1) (None, b')" by (cases e) auto
    have "filter is_upsert (row_events u (e # es)) = filter is_upsert (row_events u es)"
      "(\<exists>x \<in> set (row_events u (e # es)). is_upsert x) = (\<exists>x \<in> set (row_events u es). is_upsert x)" using False by auto
    then show ?thesis using Cons.IH[of "s + 1" b'] step by (smt (verit))
  qed
qed simp

lemma row_trace_deletes:
  "if \<exists>e \<in> set (row_events u es). \<not> is_upsert e
   then \<exists>d \<ge> s. snd (row_trace u es s (a, None)) = Some d
   else snd (row_trace u es s (a, None)) = None"
proof (induction es arbitrary: s a)
  case (Cons e es)
  show ?case
  proof (cases "event_row e = u \<and> \<not> is_upsert e")
    case True
    then obtain c where "e = RDelete u c" by (cases e) auto
    then show ?thesis by (auto simp: row_trace_deleted)
  next
    case False
    then obtain a' where step: "row_trace u (e # es) s (a, None) = row_trace u es (s + 1) (a', None)" by (cases e) auto
    have "(\<exists>x \<in> set (row_events u (e # es)). \<not> is_upsert x) = (\<exists>x \<in> set (row_events u es). \<not> is_upsert x)" using False by auto
    then show ?thesis using Cons.IH[of "s + 1" a'] step by (smt (verit))
  qed
qed simp

lemma row_wins_pair: "row_wins (a, b) \<longleftrightarrow> (\<exists>s c. a = Some (s, c) \<and> (b = None \<or> (\<exists>d. b = Some d \<and> d \<le> s)))"
  by (auto simp: row_wins_def split: option.splits)

lemma row_trace_wins:
  "row_wins (row_trace u es s (None, None)) \<longleftrightarrow>
     (\<exists>e \<in> set (row_events u es). is_upsert e) \<and>
     (is_upsert (hd (row_events u es)) \<longrightarrow> (\<forall>e \<in> set (row_events u es). is_upsert e))"
proof (induction es arbitrary: s)
  case (Cons e es)
  show ?case
  proof (cases "event_row e = u")
    case False
    then show ?thesis using Cons.IH[of "s + 1"] by (cases e) simp_all
  next
    case True
    obtain a b where st: "row_trace u (e # es) s (None, None) = (a, b)" by fastforce
    show ?thesis
    proof (cases e)
      case (RDelete v c)
      then have t: "row_trace u es (s + 1) (None, Some s) = (a, b)" using True st by simp
      have "b = Some s" using row_trace_deleted[of u es "s + 1" None s] t by simp
      moreover have "if \<exists>x \<in> set (row_events u es). is_upsert x then \<exists>s' \<ge> s + 1. \<exists>c. a = Some (s', c) else a = None"
        using row_trace_upserts[of u es "s + 1" "Some s"] t by (auto split: if_splits)
      ultimately show ?thesis using True RDelete st by (auto simp: row_wins_pair split: if_splits)
    next
      case (RUpsert v c)
      then have t: "row_trace u es (s + 1) (Some (s, c), None) = (a, b)" using True st by simp
      obtain c' where "a = Some (s, c')" using row_trace_upserted[of u es "s + 1" s c None] t by simp
      moreover have "if \<exists>x \<in> set (row_events u es). \<not> is_upsert x then \<exists>d \<ge> s + 1. b = Some d else b = None"
        using row_trace_deletes[of u es "s + 1" "Some (s, c)"] t by (auto split: if_splits)
      ultimately show ?thesis using True RUpsert st by (auto simp: row_wins_pair split: if_splits)
    qed
  qed
qed (simp add: row_wins_def)

section \<open>Versions of a transaction are its own\<close>

text \<open>\<open>own_rows h tx us ht\<close>: the versions of the rows \<open>us\<close> under \<open>tx\<close> are the rows of \<open>tx\<close>, and each log
  has its primary key.\<close>

definition own_rows :: "hash_fn \<Rightarrow> uuid \<Rightarrow> uuid set \<Rightarrow> hot_table \<Rightarrow> bool" where
  "own_rows h tx us ht =
     (distinct (map up_version (ht_upserts ht)) \<and> distinct (map dl_version (ht_deletes ht)) \<and>
      (\<forall>r \<in> set (ht_upserts ht). \<forall>u \<in> us. up_version r = version_uuid h u tx \<longleftrightarrow> up_tx r = tx \<and> up_row r = u) \<and>
      (\<forall>d \<in> set (ht_deletes ht). \<forall>u \<in> us. dl_version d = version_uuid h u tx \<longleftrightarrow> dl_tx d = tx \<and> dl_row d = u))"

lemma own_rows_event:
  assumes own: "own_rows h tx us ht" and mem: "event_row e \<in> us" and inj: "inj_on (\<lambda>u. version_uuid h u tx) us"
  shows "own_rows h tx us (apply_event h tx e ht)"
proof -
  have same: "\<forall>u \<in> us. version_uuid h (event_row e) tx = version_uuid h u tx \<longleftrightarrow> event_row e = u"
    using inj_on_eq_iff[OF inj mem] by simp
  show ?thesis
  proof (cases e)
    case (RDelete v c)
    let ?new = "\<lparr>dl_version = version_uuid h v tx, dl_row = v, dl_pk = c, dl_tx = tx, dl_wseq = ht_write_seq ht\<rparr>"
    have dels: "ht_deletes (apply_event h tx e ht) =
        (if \<exists>d \<in> set (ht_deletes ht). dl_version d = version_uuid h v tx then ht_deletes ht else ht_deletes ht @ [?new])"
      and ups: "ht_upserts (apply_event h tx e ht) = ht_upserts ht" using RDelete by (simp_all add: propose_delete_def Let_def)
    have "\<forall>u \<in> us. version_uuid h v tx = version_uuid h u tx \<longleftrightarrow> v = u" using same RDelete by simp
    then show ?thesis using own unfolding own_rows_def dels ups by auto
  next
    case (RUpsert v c)
    let ?new = "\<lparr>up_version = version_uuid h v tx, up_row = v, up_tx = tx, up_wseq = ht_write_seq ht, up_cols = c\<rparr>"
    let ?upd = "\<lambda>u. if up_version u = version_uuid h v tx then u\<lparr>up_cols := up_cols u ++ c\<rparr> else u"
    have ups: "ht_upserts (apply_event h tx e ht) =
        (if \<exists>u \<in> set (ht_upserts ht). up_version u = version_uuid h v tx then map ?upd (ht_upserts ht) else ht_upserts ht @ [?new])"
      and dels: "ht_deletes (apply_event h tx e ht) = ht_deletes ht" using RUpsert by (simp_all add: propose_upsert_def Let_def cong: if_cong)
    have keep: "up_version (?upd u) = up_version u" "up_tx (?upd u) = up_tx u" "up_row (?upd u) = up_row u" for u by simp_all
    have comp: "up_version \<circ> ?upd = up_version" by (rule ext) simp
    have "distinct (map up_version (ht_upserts ht))" using own by (simp add: own_rows_def)
    then have dist: "distinct (map up_version (ht_upserts (apply_event h tx e ht)))"
      unfolding ups by (cases "\<exists>u \<in> set (ht_upserts ht). up_version u = version_uuid h v tx") (simp add: comp, auto)
    have "\<forall>u \<in> us. version_uuid h v tx = version_uuid h u tx \<longleftrightarrow> v = u" using same RUpsert by simp
    then have "\<forall>r \<in> set (ht_upserts (apply_event h tx e ht)). \<forall>u \<in> us. up_version r = version_uuid h u tx \<longleftrightarrow> up_tx r = tx \<and> up_row r = u"
      using own unfolding own_rows_def ups by auto
    then show ?thesis using own dist unfolding own_rows_def dels by blast
  qed
qed

lemma own_rows_events:
  assumes "own_rows h tx us ht" "\<forall>e \<in> set es. event_row e \<in> us" "inj_on (\<lambda>u. version_uuid h u tx) us"
  shows "own_rows h tx us (apply_events h tx es ht)"
  using assms
proof (induction es arbitrary: ht)
  case (Cons e es)
  have "own_rows h tx us (apply_event h tx e ht)" using Cons.prems by (intro own_rows_event) auto
  then show ?case using Cons by (simp add: apply_events_def)
qed simp

lemma find_key:
  assumes "distinct (map f xs)"
  shows "find (\<lambda>x. f x = k) xs = Some x \<longleftrightarrow> x \<in> set xs \<and> f x = k"
proof
  assume "x \<in> set xs \<and> f x = k"
  then show "find (\<lambda>x. f x = k) xs = Some x" using assms by (induction xs) (auto simp: rev_image_eqI)
qed (auto simp: find_Some_iff)

lemma own_row_find:
  assumes "own_rows h tx us ht" "u \<in> us"
  shows "tx_upsert h tx u ht = Some r \<longleftrightarrow> r \<in> set (ht_upserts ht) \<and> up_tx r = tx \<and> up_row r = u"
    "tx_delete h tx u ht = Some d \<longleftrightarrow> d \<in> set (ht_deletes ht) \<and> dl_tx d = tx \<and> dl_row d = u"
proof -
  have "tx_upsert h tx u ht = Some r \<longleftrightarrow> r \<in> set (ht_upserts ht) \<and> up_version r = version_uuid h u tx"
    unfolding tx_upsert_def by (rule find_key) (use assms in \<open>simp add: own_rows_def\<close>)
  then show "tx_upsert h tx u ht = Some r \<longleftrightarrow> r \<in> set (ht_upserts ht) \<and> up_tx r = tx \<and> up_row r = u"
    using assms by (auto simp: own_rows_def)
  have "tx_delete h tx u ht = Some d \<longleftrightarrow> d \<in> set (ht_deletes ht) \<and> dl_version d = version_uuid h u tx"
    unfolding tx_delete_def by (rule find_key) (use assms in \<open>simp add: own_rows_def\<close>)
  then show "tx_delete h tx u ht = Some d \<longleftrightarrow> d \<in> set (ht_deletes ht) \<and> dl_tx d = tx \<and> dl_row d = u"
    using assms by (auto simp: own_rows_def)
qed

section \<open>Witness\<close>

definition demo_write_lib :: write_lib where
  "demo_write_lib =
     \<lparr>wl_hash = id,
      wl_arrow = \<lparr>array_value_to_string = (\<lambda>t c. Inr (case cell_data c of VBytes s \<Rightarrow> s | _ \<Rightarrow> [])),
                  json_to_string = (\<lambda>ps. Inr (concat ps)),
                  row_converter_new = (\<lambda>ts. Inr (\<lambda>cs. Inr [])),
                  lexsort_to_indices = (\<lambda>cols. Inr [])\<rparr>,
      wl_ipc = (\<lambda>s. Inr [Inr \<lparr>schema = [AField ''id'' DtUtf8 False], rows = map (\<lambda>c. [Cell True (VBytes [c])]) s\<rparr>]),
      wl_literal = (\<lambda>t c. Inr c)\<rparr>"

definition demo_change :: change where
  "demo_change = \<lparr>ch_upserts = ''ab'', ch_deletes = ''c''\<rparr>"

lemma demo_change_applies:
  "\<exists>ht' log'. apply_change demo_write_lib ''t'' [AField ''id'' DtUtf8 False] [''id''] demo_change ''x''
     (create_data_tables, fresh_tx_log 0) = Inr (ht', log')"
  by (simp add: apply_change_def demo_change_def insert_delete_pk_batches_def insert_delete_batch_def insert_rows_def demo_write_lib_def
      num_rows_def validated_row_uuids_from_batch_def validate_pk_batch_schema_def index_of_def ensure_no_null_pks_def derive_row_uuids_def
      row_uuid_for_row_def insert_deletes_def row_literals_def resolve_keys_def add_row_uuid_def key_cells_def key_types_def
      row_uuid_for_pk_def deterministic_uuid_from_def insert_upserts_def version_uuid_def rbind_def nul_def)

theorem apply_change_events_witness:
  "\<exists>ht' log' dels ups.
     apply_change demo_write_lib ''t'' [AField ''id'' DtUtf8 False] [''id''] demo_change ''x''
       (create_data_tables, fresh_tx_log 0) = Inr (ht', log') \<and>
     ht' = apply_events id ''x'' (change_events dels ups) create_data_tables \<and>
     map fst dels = [''t'' @ [nul] @ ''c''] \<and> map fst ups = [''t'' @ [nul] @ ''a'', ''t'' @ [nul] @ ''b''] \<and>
     log' = insert_tx_table_log ''x'' [''t''] (fresh_tx_log 0)"
proof -
  obtain ht' log' where run: "apply_change demo_write_lib ''t'' [AField ''id'' DtUtf8 False] [''id''] demo_change ''x''
     (create_data_tables, fresh_tx_log 0) = Inr (ht', log')" using demo_change_applies by (elim exE)
  have dels: "payload_uuids demo_write_lib (delete_batch_uuids demo_write_lib ''t'' [AField ''id'' DtUtf8 False] [''id'']) (ch_deletes demo_change) =
      Inr [''t'' @ [nul] @ ''c'']"
    by (simp add: payload_uuids_def demo_change_def demo_write_lib_def delete_batch_uuids_def num_rows_def validated_row_uuids_from_batch_def
        validate_pk_batch_schema_def index_of_def ensure_no_null_pks_def derive_row_uuids_def row_uuid_for_row_def
        row_uuid_for_pk_def deterministic_uuid_from_def rbind_def)
  have ups: "payload_uuids demo_write_lib (upsert_batch_uuids demo_write_lib ''t'' [''id'']) (ch_upserts demo_change) =
      Inr [''t'' @ [nul] @ ''a'', ''t'' @ [nul] @ ''b'']"
    by (simp add: payload_uuids_def demo_change_def demo_write_lib_def upsert_batch_uuids_def num_rows_def resolve_keys_def index_of_def
        key_cells_def key_types_def row_uuid_for_row_def row_uuid_for_pk_def deterministic_uuid_from_def rbind_def)
  have hash: "wl_hash demo_write_lib = id" by (simp add: demo_write_lib_def)
  obtain ds us where split: "ht' = apply_events id ''x'' (change_events ds us) create_data_tables"
    "Inr [''t'' @ [nul] @ ''c''] = (Inr (map fst ds) :: uuid list result)"
    "Inr [''t'' @ [nul] @ ''a'', ''t'' @ [nul] @ ''b''] = (Inr (map fst us) :: uuid list result)"
    "log' = (if ds = [] \<and> us = [] then fresh_tx_log 0 else insert_tx_table_log ''x'' [''t''] (fresh_tx_log 0))"
    using apply_change_events[OF run] unfolding dels ups hash by (elim exE conjE)
  then have "log' = insert_tx_table_log ''x'' [''t''] (fresh_tx_log 0)" by auto
  then show ?thesis using run split(1) split(2,3)[THEN sum.inject(2)[THEN iffD1]] by (intro exI[of _ ht'] exI[of _ log'] exI[of _ ds] exI[of _ us] conjI) simp_all
qed

end
