(* ===== verification/Merge_Read.thy ===== *)
theory Merge_Read
  imports Hot_Log
begin

text \<open>
  Merge-on-read: the read plan (\<open>penca-core/src/plan.rs\<close>), the visibility of a read
  (\<open>penca-merge/src/snapshot.rs\<close>), the merge-resolution statements
  (\<open>penca-sql/src/merge_resolution.rs\<close>, \<open>penca-merge/src/sql.rs\<close>), the per-tier resolves and their
  union (\<open>penca-merge/src/resolve.rs\<close>) and the merge pipeline (\<open>penca-merge/src/lib.rs\<close>).  A
  statement is modelled by its result rows.  User columns are addressed by name.  The data-lake
  driver that loads the rows of cold segments is the parameter \<open>dl_driver\<close>, the DataFusion planner
  and the pruning statistics are the parameter \<open>merge_lib\<close>.  The index sidecars of a plan only
  select offsets for a scan that filters again; they are left out.
\<close>

section \<open>Read plans\<close>

record committed_at_bounds =
  min_micros :: "int option"
  max_micros :: "int option"

record commit_seq_bounds =
  min_seq :: "int option"
  max_seq :: "int option"

record index_sidecar =
  is_uri :: string
  is_offset :: int
  is_length :: int
  is_format :: format
  is_uuid :: uuid
  is_size_bytes :: int
  is_content_hash :: uuid

record snapshot_segment =
  sg_uuid :: uuid
  sg_snapshot :: uuid
  sg_uri :: string
  sg_format :: format
  sg_offset :: int
  sg_length :: int
  sg_row_count :: int
  sg_size_bytes :: int
  sg_statistics :: string
  sg_row_uuid_index :: "index_sidecar option"
  sg_index_sidecars :: "(uuid \<times> index_sidecar) list"
  sg_content_hash :: uuid

record snapshot_index_def =
  xd_index :: uuid
  xd_key_columns :: "string list"

record snapshot_plan =
  sp_segments :: "snapshot_segment list"
  sp_indexes :: "snapshot_index_def list"
  sp_snapshotted_at :: int
  sp_seq :: int

record persist_plan =
  pp_upserts :: "persist_segment list"
  pp_deletes :: "persist_segment list"
  pp_committed_at :: "committed_at_bounds option"
  pp_commit_seq :: "commit_seq_bounds option"

record cold_storage_plan =
  cp_snapshot :: "snapshot_plan option"
  cp_persist :: "persist_plan option"

record hot_storage_plan =
  hp_committed_at :: "committed_at_bounds option"
  hp_commit_seq :: "commit_seq_bounds option"

record base_cold_storage =
  bc_cold :: cold_storage_plan
  bc_ceiling :: int

record read_plan =
  pl_hot :: "hot_storage_plan option"
  pl_cold :: "cold_storage_plan option"
  pl_base :: "base_cold_storage option"

section \<open>Visibility of a read\<close>

datatype read_snapshot = AsOfMicros int | AsOfSeq int | LatestSeq int | OpenTx int uuid

fun open_tx_uuid :: "read_snapshot \<Rightarrow> uuid option" where
  "open_tx_uuid (OpenTx _ tx) = Some tx"
| "open_tx_uuid _ = None"

fun plan_as_of_micros :: "read_snapshot \<Rightarrow> int" where
  "plan_as_of_micros (AsOfMicros ts) = ts"
| "plan_as_of_micros _ = i64_max"

fun plan_commit_seq_upper :: "read_snapshot \<Rightarrow> int option" where
  "plan_commit_seq_upper (AsOfSeq n) = Some n"
| "plan_commit_seq_upper (LatestSeq n) = Some n"
| "plan_commit_seq_upper (OpenTx began_at_seq _) = Some (began_at_seq - 1)"
| "plan_commit_seq_upper (AsOfMicros _) = None"

fun tighten_for_hot :: "read_snapshot \<Rightarrow> int option \<Rightarrow> read_snapshot" where
  "tighten_for_hot (AsOfMicros ts) (Some hot_max) = AsOfMicros (min ts hot_max)"
| "tighten_for_hot snap _ = snap"

section \<open>Merge resolution\<close>

definition lex_compare_predicate :: "int \<Rightarrow> int \<Rightarrow> int \<Rightarrow> int \<Rightarrow> bool \<Rightarrow> bool" where
  "lex_compare_predicate left_a left_b right_a right_b strict_tie =
     (left_a > right_a \<or> (left_a = right_a \<and> (if strict_tie then left_b > right_b else left_b \<ge> right_b)))"

text \<open>The first row of a partition in descending \<open>(commit_seq_num, write_seq_num)\<close> order.\<close>

definition latest_of :: "version \<Rightarrow> version list \<Rightarrow> version" where
  "latest_of v vs = fold (\<lambda>w best. if lex_compare_predicate (lv_seq w) (lv_wseq w) (lv_seq best) (lv_wseq best) True then w else best) vs v"

definition latest_per_partition :: "version list \<Rightarrow> version list" where
  "latest_per_partition vs =
     map (\<lambda>u. case filter (\<lambda>v. lv_row v = u) vs of v # ws \<Rightarrow> latest_of v ws) (remdups (map lv_row vs))"

record resolved =
  rv_row :: uuid
  rv_cols :: "string \<rightharpoonup> cell"
  rv_micros :: int
  rv_delete :: bool

record composite_merge_resolution =
  cm_latest :: "version list"
  cm_deletes :: "version list"
  cm_upsert_visible :: "version \<Rightarrow> version option \<Rightarrow> bool"
  cm_delete_visible :: "version \<Rightarrow> version option \<Rightarrow> bool"

definition build_composite_merge_resolution :: "version list \<Rightarrow> version list \<Rightarrow> composite_merge_resolution" where
  "build_composite_merge_resolution upsert_source delete_source =
     \<lparr>cm_latest = latest_per_partition upsert_source,
      cm_deletes = latest_per_partition delete_source,
      cm_upsert_visible = (\<lambda>l d. case d of None \<Rightarrow> True | Some d \<Rightarrow>
         lex_compare_predicate (lv_seq l) (lv_wseq l) (lv_seq d) (lv_wseq d) False),
      cm_delete_visible = (\<lambda>d l. case l of None \<Rightarrow> True | Some l \<Rightarrow>
         lex_compare_predicate (lv_seq d) (lv_wseq d) (lv_seq l) (lv_wseq l) True)\<rparr>"

definition two_arm_resolve_select :: "composite_merge_resolution \<Rightarrow> string set \<Rightarrow> resolved list" where
  "two_arm_resolve_select cm user_cols =
     map (\<lambda>l. \<lparr>rv_row = lv_row l, rv_cols = lv_cols l |` user_cols, rv_micros = lv_micros l, rv_delete = False\<rparr>)
       (filter (\<lambda>l. cm_upsert_visible cm l (find (\<lambda>d. lv_row d = lv_row l) (cm_deletes cm))) (cm_latest cm)) @
     map (\<lambda>d. \<lparr>rv_row = lv_row d,
               rv_cols = (case find (\<lambda>l. lv_row l = lv_row d) (cm_latest cm) of None \<Rightarrow> Map.empty | Some l \<Rightarrow> lv_cols l |` user_cols),
               rv_micros = lv_micros d, rv_delete = True\<rparr>)
       (filter (\<lambda>d. cm_delete_visible cm d (find (\<lambda>l. lv_row l = lv_row d) (cm_latest cm))) (cm_deletes cm))"

definition row_uuid_in_clause :: "uuid list option \<Rightarrow> uuid \<Rightarrow> bool" where
  "row_uuid_in_clause row_uuids u = (case row_uuids of None \<Rightarrow> True | Some us \<Rightarrow> us = [] \<or> u \<in> set us)"

section \<open>The statement of each tier\<close>

definition read_snapshot_clause :: "int option \<Rightarrow> read_snapshot \<Rightarrow> commit_row \<Rightarrow> bool" where
  "read_snapshot_clause tier_seq_lower snap t =
     ((case tier_seq_lower of None \<Rightarrow> True | Some w_persist \<Rightarrow> ct_seq t > w_persist) \<and>
      (case snap of
         AsOfMicros ts \<Rightarrow> ct_micros t \<le> ts
       | AsOfSeq n \<Rightarrow> ct_seq t \<le> n
       | LatestSeq n \<Rightarrow> ct_seq t \<le> n
       | OpenTx began_at_seq _ \<Rightarrow> ct_seq t < began_at_seq))"

definition open_tx_union_clause :: "read_snapshot \<Rightarrow> (uuid \<times> int \<times> int) list" where
  "open_tx_union_clause snap = (case open_tx_uuid snap of None \<Rightarrow> [] | Some tx \<Rightarrow> [(tx, i64_max, i64_max)])"

definition committed_tx :: "int option \<Rightarrow> read_snapshot \<Rightarrow> tx_log \<Rightarrow> (uuid \<times> int \<times> int) list" where
  "committed_tx tier_seq_lower snap log =
     map (\<lambda>t. (ct_tx t, ct_micros t, ct_seq t)) (filter (read_snapshot_clause tier_seq_lower snap) (tl_commits log)) @
     open_tx_union_clause snap"

definition hot_upsert_source :: "(uuid \<times> int \<times> int) list \<Rightarrow> uuid list option \<Rightarrow> hot_table \<Rightarrow> version list" where
  "hot_upsert_source committed row_uuids ht =
     concat (map (\<lambda>u. map (\<lambda>(_, micros, seq). upsert_version u micros seq) (filter (\<lambda>(tx, _). tx = up_tx u) committed))
       (filter (\<lambda>u. row_uuid_in_clause row_uuids (up_row u)) (ht_upserts ht)))"

definition hot_delete_source :: "(uuid \<times> int \<times> int) list \<Rightarrow> uuid list option \<Rightarrow> hot_table \<Rightarrow> version list" where
  "hot_delete_source committed row_uuids ht =
     concat (map (\<lambda>d. map (\<lambda>(_, micros, seq). delete_version d micros seq) (filter (\<lambda>(tx, _). tx = dl_tx d) committed))
       (filter (\<lambda>d. row_uuid_in_clause row_uuids (dl_row d)) (ht_deletes ht)))"

definition build_merge_resolved :: "string set \<Rightarrow> int option \<Rightarrow> read_snapshot \<Rightarrow> uuid list option \<Rightarrow> hot_table \<Rightarrow> tx_log \<Rightarrow>
    resolved list" where
  "build_merge_resolved user_cols tier_seq_lower snap row_uuids ht log =
     (let committed = committed_tx tier_seq_lower snap log in
      two_arm_resolve_select
        (build_composite_merge_resolution (hot_upsert_source committed row_uuids ht) (hot_delete_source committed row_uuids ht))
        user_cols)"

definition cold_visibility_clause :: "int option \<Rightarrow> int option \<Rightarrow> int option \<Rightarrow> version \<Rightarrow> bool" where
  "cold_visibility_clause committed_from committed_to commit_seq_upper v =
     ((case committed_from of None \<Rightarrow> True | Some m \<Rightarrow> lv_micros v \<ge> m) \<and>
      (case committed_to of None \<Rightarrow> True | Some m \<Rightarrow> lv_micros v < m) \<and>
      (case commit_seq_upper of None \<Rightarrow> True | Some n \<Rightarrow> lv_seq v \<le> n))"

definition cold_source :: "int option \<Rightarrow> int option \<Rightarrow> int option \<Rightarrow> uuid list option \<Rightarrow> version list \<Rightarrow> version list" where
  "cold_source committed_from committed_to commit_seq_upper row_uuids vs =
     filter (\<lambda>v. cold_visibility_clause committed_from committed_to commit_seq_upper v \<and> row_uuid_in_clause row_uuids (lv_row v)) vs"

definition build_cold_merge_resolved :: "string set \<Rightarrow> int option \<Rightarrow> int option \<Rightarrow> int option \<Rightarrow> uuid list option \<Rightarrow>
    version list \<Rightarrow> version list \<Rightarrow> resolved list" where
  "build_cold_merge_resolved user_cols committed_from committed_to commit_seq_upper row_uuids upsert_log delete_log =
     two_arm_resolve_select
       (build_composite_merge_resolution
          (cold_source committed_from committed_to commit_seq_upper row_uuids upsert_log)
          (cold_source committed_from committed_to commit_seq_upper row_uuids delete_log)) user_cols"

section \<open>Resolving and composing the tiers\<close>

type_synonym out_row = "uuid \<times> (string \<rightharpoonup> cell)"

record dl_driver =
  dl_log_rows :: "persist_segment list \<Rightarrow> version list result"
  dl_snapshot_rows :: "snapshot_segment \<Rightarrow> out_row list result"

record merge_lib =
  full_plan_predicate :: "string \<Rightarrow> (out_row \<Rightarrow> bool) result"
  stats_may_match :: "(out_row \<Rightarrow> bool) \<Rightarrow> snapshot_segment \<Rightarrow> bool"

definition extract_committed_at_bounds :: "committed_at_bounds option \<Rightarrow> int option \<times> int option" where
  "extract_committed_at_bounds f = (case f of Some b \<Rightarrow> (min_micros b, max_micros b) | None \<Rightarrow> (None, None))"

definition cold_commit_seq_upper :: "read_snapshot \<Rightarrow> int option" where
  "cold_commit_seq_upper snap = plan_commit_seq_upper snap"

fun fold_cold_seq_upper :: "int option \<Rightarrow> int option \<Rightarrow> int option" where
  "fold_cold_seq_upper (Some a) (Some b) = Some (min a b)"
| "fold_cold_seq_upper a None = a"
| "fold_cold_seq_upper None b = b"

definition resolve_hot :: "read_plan \<Rightarrow> string set \<Rightarrow> read_snapshot \<Rightarrow> uuid list option \<Rightarrow> hot_table \<Rightarrow> tx_log \<Rightarrow> resolved list" where
  "resolve_hot plan user_cols snap row_uuids ht log =
     (case pl_hot plan of
        None \<Rightarrow> []
      | Some hot_plan \<Rightarrow>
          let hot_max = snd (extract_committed_at_bounds (hp_committed_at hot_plan));
              tier_seq_lower = Option.bind (hp_commit_seq hot_plan) min_seq in
          build_merge_resolved user_cols tier_seq_lower (tighten_for_hot snap hot_max) row_uuids ht log)"

definition resolve_cold :: "dl_driver \<Rightarrow> cold_storage_plan option \<Rightarrow> string set \<Rightarrow> int option \<Rightarrow> uuid list option \<Rightarrow>
    resolved list result" where
  "resolve_cold dl cold user_cols commit_seq_upper row_uuids =
     (case Option.bind cold cp_persist of
        None \<Rightarrow> Inr []
      | Some p \<Rightarrow>
          (case extract_committed_at_bounds (pp_committed_at p) of (committed_from, committed_to) \<Rightarrow>
           let tier_seq_upper = Option.bind (pp_commit_seq p) max_seq in
           rbind (dl_log_rows dl (pp_upserts p)) (\<lambda>upsert_log.
           rbind (dl_log_rows dl (pp_deletes p)) (\<lambda>delete_log.
           Inr (build_cold_merge_resolved user_cols committed_from committed_to
              (fold_cold_seq_upper commit_seq_upper tier_seq_upper) row_uuids upsert_log delete_log)))))"

text \<open>The loop of \<open>dedup_by_row_uuid\<close>: the index of the row kept for each \<open>row_uuid\<close>.\<close>

fun dedup_best :: "nat \<Rightarrow> resolved list \<Rightarrow> (uuid \<rightharpoonup> nat \<times> int) \<Rightarrow> (uuid \<rightharpoonup> nat \<times> int)" where
  "dedup_best i [] best = best"
| "dedup_best i (r # rs) best =
     dedup_best (Suc i) rs
       (case best (rv_row r) of
          None \<Rightarrow> best(rv_row r \<mapsto> (i, rv_micros r))
        | Some (idx, existing) \<Rightarrow> if rv_micros r > existing then best(rv_row r \<mapsto> (i, rv_micros r)) else best)"

definition dedup_by_row_uuid :: "resolved list \<Rightarrow> resolved list" where
  "dedup_by_row_uuid rs =
     (let best = dedup_best 0 rs Map.empty in
      map snd (filter (\<lambda>(i, r). map_option fst (best (rv_row r)) = Some i) (zip [0..<length rs] rs)))"

definition union_latest :: "resolved list \<Rightarrow> resolved list \<Rightarrow> resolved list" where
  "union_latest a b = dedup_by_row_uuid (a @ b)"

definition collect_row_uuids :: "resolved list \<Rightarrow> uuid list" where
  "collect_row_uuids rs = map rv_row rs"

definition filter_live_rows :: "resolved list \<Rightarrow> resolved list" where
  "filter_live_rows rs = filter (\<lambda>r. \<not> rv_delete r) rs"

definition compose_resolved_and_exclusion :: "resolved list \<Rightarrow> resolved list \<Rightarrow> resolved list \<times> uuid set" where
  "compose_resolved_and_exclusion hot_a cold_a =
     (let composed = union_latest hot_a cold_a in (filter_live_rows composed, set (collect_row_uuids composed)))"

definition build_resolved_and_exclusion_set :: "dl_driver \<Rightarrow> read_plan \<Rightarrow> string set \<Rightarrow> read_snapshot \<Rightarrow> uuid list option \<Rightarrow>
    hot_table \<Rightarrow> tx_log \<Rightarrow> (resolved list \<times> uuid set) result" where
  "build_resolved_and_exclusion_set dl plan user_cols snap row_uuids ht log =
     rbind (resolve_cold dl (pl_cold plan) user_cols (cold_commit_seq_upper snap) row_uuids) (\<lambda>cold_a.
     Inr (compose_resolved_and_exclusion (resolve_hot plan user_cols snap row_uuids ht log) cold_a))"

definition build_cold_resolved_and_exclusion_set :: "dl_driver \<Rightarrow> read_plan \<Rightarrow> string set \<Rightarrow> read_snapshot \<Rightarrow> uuid list option \<Rightarrow>
    (resolved list \<times> uuid set) result" where
  "build_cold_resolved_and_exclusion_set dl plan user_cols snap row_uuids =
     rbind (resolve_cold dl (pl_cold plan) user_cols (cold_commit_seq_upper snap) row_uuids) (\<lambda>cold_a.
     Inr (compose_resolved_and_exclusion [] cold_a))"

section \<open>Residual filter and projection\<close>

definition resolved_out :: "resolved \<Rightarrow> out_row" where
  "resolved_out r = (rv_row r, rv_cols r)"

definition residual_filter :: "merge_lib \<Rightarrow> string option \<Rightarrow> (out_row \<Rightarrow> bool) option result" where
  "residual_filter lib filt =
     (case filt of
        Some fragment \<Rightarrow> if fragment = [] then Inr None
          else rbind (full_plan_predicate lib fragment) (\<lambda>p. Inr (Some p))
      | None \<Rightarrow> Inr None)"

definition apply_resolved_residual :: "merge_lib \<Rightarrow> string option \<Rightarrow> resolved list \<Rightarrow> resolved list result" where
  "apply_resolved_residual lib filt batch =
     (if batch = [] then Inr []
      else rbind (residual_filter lib filt) (\<lambda>predicate.
        Inr (case predicate of None \<Rightarrow> batch | Some p \<Rightarrow> filter (\<lambda>r. p (resolved_out r)) batch)))"

definition is_null :: "cell option \<Rightarrow> bool" where
  "is_null c = (case c of None \<Rightarrow> True | Some x \<Rightarrow> \<not> cell_valid x)"

definition project_resolved :: "afield list \<Rightarrow> resolved list \<Rightarrow> out_row list result" where
  "project_resolved user_schema rs =
     (if \<exists>r \<in> set rs. \<exists>f \<in> set user_schema. \<not> field_nullable f \<and> is_null (rv_cols r (field_name f))
      then Inl (MergeErr ''Column is declared as non-nullable but contains null values'')
      else Inr (map resolved_out rs))"

section \<open>The parent of a fork\<close>

definition filter_excluded_row_uuids :: "('a \<Rightarrow> uuid) \<Rightarrow> uuid set \<Rightarrow> 'a list \<Rightarrow> 'a list" where
  "filter_excluded_row_uuids row_of exclusion_set rs = filter (\<lambda>r. row_of r \<notin> exclusion_set) rs"

definition filter_to_included_row_uuids :: "uuid list \<Rightarrow> out_row list \<Rightarrow> out_row list" where
  "filter_to_included_row_uuids included rs = filter (\<lambda>r. fst r \<in> set included) rs"

text \<open>The mixed path folds the parent in below the child before the residual; the all-cold path, whose
  child rows are already filtered and projected, filters and projects the parent first.\<close>

definition base_rows :: "dl_driver \<Rightarrow> base_cold_storage \<Rightarrow> string set \<Rightarrow> uuid list option \<Rightarrow> resolved list result" where
  "base_rows dl base user_cols row_uuids = resolve_cold dl (Some (bc_cold base)) user_cols (Some (bc_ceiling base)) row_uuids"

definition fold_base_if_present :: "dl_driver \<Rightarrow> read_plan \<Rightarrow> string set \<Rightarrow> uuid list option \<Rightarrow> resolved list \<times> uuid set \<Rightarrow>
    (resolved list \<times> uuid set) result" where
  "fold_base_if_present dl plan user_cols row_uuids child =
     (case pl_base plan of
        None \<Rightarrow> Inr child
      | Some base \<Rightarrow>
          rbind (base_rows dl base user_cols row_uuids) (\<lambda>resolved_base.
          Inr (fst child @ filter_excluded_row_uuids rv_row (snd child) (filter_live_rows resolved_base),
               snd child \<union> set (collect_row_uuids resolved_base))))"

definition fold_base_projected :: "merge_lib \<Rightarrow> dl_driver \<Rightarrow> read_plan \<Rightarrow> afield list \<Rightarrow> string option \<Rightarrow> string set \<Rightarrow>
    uuid list option \<Rightarrow> out_row list \<times> uuid set \<Rightarrow> (out_row list \<times> uuid set) result" where
  "fold_base_projected lib dl plan user_schema filt user_cols row_uuids child =
     (case pl_base plan of
        None \<Rightarrow> Inr child
      | Some base \<Rightarrow>
          rbind (base_rows dl base user_cols row_uuids) (\<lambda>resolved_base.
          rbind (apply_resolved_residual lib filt (filter_live_rows resolved_base)) (\<lambda>filtered.
          rbind (project_resolved user_schema filtered) (\<lambda>live_base.
          Inr (fst child @ filter_excluded_row_uuids fst (snd child) live_base,
               snd child \<union> set (collect_row_uuids resolved_base))))))"

section \<open>The snapshot leg\<close>

datatype segment_order = ByCompletion | ByPlan

record index_seek =
  sk_index :: "uuid option"
  sk_key_columns :: "string list"
  sk_tuples :: "string list list"

definition identity_seek :: "uuid list \<Rightarrow> index_seek" where
  "identity_seek row_uuids = \<lparr>sk_index = None, sk_key_columns = [], sk_tuples = map (\<lambda>u. [u]) row_uuids\<rparr>"

definition identity_seeks :: "uuid list option \<Rightarrow> index_seek list option" where
  "identity_seeks row_uuids = map_option (\<lambda>us. [identity_seek us]) row_uuids"

text \<open>The identity restriction of the seek entries; tuples carry hyphenated UUID texts.\<close>

definition identity_tuple :: "string list \<Rightarrow> uuid result" where
  "identity_tuple tuple =
     (case tuple of
        [u] \<Rightarrow> if wf_uuid u then Inr u else Inl (MergeErr ''invalid row_uuid in identity seek'')
      | _ \<Rightarrow> Inl (MergeErr ''identity (row_uuid) seek tuples must be arity 1''))"

fun identity_loop :: "index_seek list \<Rightarrow> bool \<Rightarrow> uuid list \<Rightarrow> bool \<Rightarrow> (uuid list \<times> bool) result" where
  "identity_loop [] filter_present us saw_identity = Inr (us, saw_identity)"
| "identity_loop (entry # seeks) filter_present us saw_identity =
     (if sk_index entry \<noteq> None
      then if filter_present then identity_loop seeks filter_present us saw_identity
           else Inl (MergeErr ''name-index seek must never reach the merge fallback'')
      else rbind (rmap identity_tuple (sk_tuples entry)) (\<lambda>new. identity_loop seeks filter_present (us @ new) True))"

definition identity_row_uuids :: "index_seek list option \<Rightarrow> bool \<Rightarrow> uuid list option result" where
  "identity_row_uuids seeks filter_present =
     (case seeks of
        None \<Rightarrow> Inr None
      | Some es \<Rightarrow>
          if es = [] then Inr None
          else rbind (identity_loop es filter_present [] False) (\<lambda>(us, saw_identity). Inr (if saw_identity then Some us else None)))"

record merge_request =
  rq_user_schema :: "afield list"
  rq_snapshot :: read_snapshot
  rq_filter :: "string option"
  rq_seeks :: "index_seek list option"
  rq_order :: segment_order
  rq_prune_min :: nat

definition request_row_uuids :: "merge_request \<Rightarrow> uuid list option result" where
  "request_row_uuids rq =
     identity_row_uuids (rq_seeks rq) (case rq_filter rq of None \<Rightarrow> False | Some f \<Rightarrow> f \<noteq> [])"

definition user_cols_of :: "merge_request \<Rightarrow> string set" where
  "user_cols_of rq = set (map field_name (rq_user_schema rq))"

definition pruned_segments :: "merge_lib \<Rightarrow> merge_request \<Rightarrow> snapshot_segment list \<Rightarrow> snapshot_segment list" where
  "pruned_segments lib rq segments =
     (if length segments > rq_prune_min rq
      then (case rq_filter rq of
              Some f \<Rightarrow>
                if f = [] then segments
                else (case full_plan_predicate lib f of Inl _ \<Rightarrow> segments | Inr p \<Rightarrow> filter (stats_may_match lib p) segments)
            | None \<Rightarrow> segments)
      else segments)"

definition project_row :: "string set \<Rightarrow> out_row \<Rightarrow> out_row" where
  "project_row user_cols r = (fst r, snd r |` user_cols)"

definition build_cold_snapshot_scan :: "string set \<Rightarrow> uuid set \<Rightarrow> (out_row \<Rightarrow> bool) option \<Rightarrow> uuid list option \<Rightarrow> out_row list \<Rightarrow>
    out_row list" where
  "build_cold_snapshot_scan user_cols exclusion predicate row_uuids rs =
     filter (\<lambda>r. fst r \<notin> exclusion \<and> row_uuid_in_clause row_uuids (fst r) \<and> (case predicate of None \<Rightarrow> True | Some p \<Rightarrow> p r))
       (map (project_row user_cols) rs)"

definition build_cold_snapshot_scan_plain :: "string set \<Rightarrow> (out_row \<Rightarrow> bool) option \<Rightarrow> out_row list \<Rightarrow> out_row list" where
  "build_cold_snapshot_scan_plain user_cols predicate rs =
     filter (\<lambda>r. case predicate of None \<Rightarrow> True | Some p \<Rightarrow> p r) (map (project_row user_cols) rs)"

definition snapshot_segment_stream :: "merge_lib \<Rightarrow> dl_driver \<Rightarrow> merge_request \<Rightarrow> uuid list option \<Rightarrow> snapshot_plan \<Rightarrow> uuid set \<Rightarrow> out_row list result" where
  "snapshot_segment_stream lib dl rq row_uuids sp exclusion_set =
     (let segments = pruned_segments lib rq (sp_segments sp) in
      if segments = [] then Inr []
      else rbind (residual_filter lib (rq_filter rq)) (\<lambda>predicate.
           rbind (rmap (dl_snapshot_rows dl) segments) (\<lambda>batches.
           Inr (case rq_order rq of
                  ByCompletion \<Rightarrow> build_cold_snapshot_scan (user_cols_of rq) exclusion_set predicate row_uuids (concat batches)
                | ByPlan \<Rightarrow>
                    (let scanned = filter_excluded_row_uuids fst exclusion_set
                                     (build_cold_snapshot_scan_plain (user_cols_of rq) predicate (concat batches)) in
                     case row_uuids of None \<Rightarrow> scanned | Some included \<Rightarrow> filter_to_included_row_uuids included scanned)))))"

definition plan_snapshot_leg :: "read_plan \<Rightarrow> snapshot_plan option" where
  "plan_snapshot_leg plan =
     (case Option.bind (pl_cold plan) cp_snapshot of
        Some sp \<Rightarrow> Some sp
      | None \<Rightarrow> Option.bind (pl_base plan) (\<lambda>base. cp_snapshot (bc_cold base)))"

definition plan_snapshot_stream :: "merge_lib \<Rightarrow> dl_driver \<Rightarrow> merge_request \<Rightarrow> uuid list option \<Rightarrow> read_plan \<Rightarrow> uuid set \<Rightarrow> out_row list result" where
  "plan_snapshot_stream lib dl rq row_uuids plan exclusion_set =
     (case plan_snapshot_leg plan of None \<Rightarrow> Inr [] | Some sp \<Rightarrow> snapshot_segment_stream lib dl rq row_uuids sp exclusion_set)"

section \<open>Reads\<close>

record merge_read_parts =
  mr_resolved :: "out_row list"
  mr_snapshot :: "out_row list result"

definition stream_merged_parts :: "merge_lib \<Rightarrow> dl_driver \<Rightarrow> merge_request \<Rightarrow> read_plan \<Rightarrow> hot_table \<Rightarrow> tx_log \<Rightarrow>
    merge_read_parts result" where
  "stream_merged_parts lib dl rq plan ht log =
     rbind (request_row_uuids rq) (\<lambda>row_uuids.
     rbind (build_resolved_and_exclusion_set dl plan (user_cols_of rq) (rq_snapshot rq) row_uuids ht log) (\<lambda>child.
     rbind (fold_base_if_present dl plan (user_cols_of rq) row_uuids child) (\<lambda>(res, exclusion_set).
     rbind (apply_resolved_residual lib (rq_filter rq) res) (\<lambda>res'.
     rbind (project_resolved (rq_user_schema rq) res') (\<lambda>out.
     Inr \<lparr>mr_resolved = out, mr_snapshot = plan_snapshot_stream lib dl rq row_uuids plan exclusion_set\<rparr>)))))"

definition interleave_parts :: "merge_read_parts \<Rightarrow> out_row list result" where
  "interleave_parts parts = rbind (mr_snapshot parts) (\<lambda>snap. Inr (mr_resolved parts @ snap))"

definition stream_merged :: "merge_lib \<Rightarrow> dl_driver \<Rightarrow> merge_request \<Rightarrow> read_plan \<Rightarrow> hot_table \<Rightarrow> tx_log \<Rightarrow> out_row list result" where
  "stream_merged lib dl rq plan ht log = rbind (stream_merged_parts lib dl rq plan ht log) interleave_parts"

definition resolve_log_tiers :: "merge_lib \<Rightarrow> dl_driver \<Rightarrow> merge_request \<Rightarrow> read_plan \<Rightarrow> (out_row list \<times> uuid set \<times> uuid list option) result" where
  "resolve_log_tiers lib dl rq plan =
     (if pl_hot plan \<noteq> None then Inl (MergeErr ''all-cold merge entry requires an all-cold plan (hot_storage == None)'')
      else rbind (request_row_uuids rq) (\<lambda>row_uuids.
           rbind (build_cold_resolved_and_exclusion_set dl plan (user_cols_of rq) (rq_snapshot rq) row_uuids) (\<lambda>(res, exclusion_set).
           rbind (apply_resolved_residual lib (rq_filter rq) res) (\<lambda>res'.
           rbind (project_resolved (rq_user_schema rq) res') (\<lambda>out.
           rbind (fold_base_projected lib dl plan (rq_user_schema rq) (rq_filter rq) (user_cols_of rq) row_uuids (out, exclusion_set))
             (\<lambda>(out', exclusion_set'). Inr (out', exclusion_set', row_uuids)))))))"

definition stream_all_cold_parts :: "merge_lib \<Rightarrow> dl_driver \<Rightarrow> merge_request \<Rightarrow> read_plan \<Rightarrow> merge_read_parts result" where
  "stream_all_cold_parts lib dl rq plan =
     rbind (resolve_log_tiers lib dl rq plan) (\<lambda>(out, exclusion_set, row_uuids).
     Inr \<lparr>mr_resolved = out, mr_snapshot = plan_snapshot_stream lib dl rq row_uuids plan exclusion_set\<rparr>)"

definition stream_all_cold :: "merge_lib \<Rightarrow> dl_driver \<Rightarrow> merge_request \<Rightarrow> read_plan \<Rightarrow> out_row list result" where
  "stream_all_cold lib dl rq plan = rbind (stream_all_cold_parts lib dl rq plan) interleave_parts"

section \<open>Resolution of a set of versions\<close>

definition older :: "version \<Rightarrow> version \<Rightarrow> bool" where
  "older v w = (lv_seq v < lv_seq w \<or> (lv_seq v = lv_seq w \<and> lv_wseq v < lv_wseq w))"

text \<open>\<open>row_live ups dels v\<close>: the upsert \<open>v\<close> is what the two logs say of its row.\<close>

definition row_live :: "version set \<Rightarrow> version set \<Rightarrow> version \<Rightarrow> bool" where
  "row_live ups dels v = (v \<in> ups \<and> (\<forall>w \<in> ups \<union> dels. lv_row w = lv_row v \<longrightarrow> \<not> older v w))"

definition ordered_versions :: "version set \<Rightarrow> bool" where
  "ordered_versions vs = (\<forall>v \<in> vs. \<forall>w \<in> vs. lv_row v = lv_row w \<longrightarrow> older v w \<or> v = w \<or> older w v)"

definition live_row :: "string set \<Rightarrow> version \<Rightarrow> resolved" where
  "live_row user_cols v = \<lparr>rv_row = lv_row v, rv_cols = lv_cols v |` user_cols, rv_micros = lv_micros v, rv_delete = False\<rparr>"

lemma lex_older:
  "lex_compare_predicate (lv_seq v) (lv_wseq v) (lv_seq w) (lv_wseq w) True \<longleftrightarrow> older w v"
  "lex_compare_predicate (lv_seq v) (lv_wseq v) (lv_seq w) (lv_wseq w) False \<longleftrightarrow> \<not> older v w"
  by (auto simp: lex_compare_predicate_def older_def)

lemma older_trans: "older u v \<Longrightarrow> older v w \<Longrightarrow> older u w"
  by (auto simp: older_def)

lemma not_older_trans: "\<not> older v u \<Longrightarrow> \<not> older w v \<Longrightarrow> \<not> older w u"
  by (auto simp: older_def)

lemma older_irrefl [simp]: "\<not> older v v"
  by (simp add: older_def)

lemma older_asym: "older v w \<Longrightarrow> \<not> older w v"
  by (auto simp: older_def)

lemma latest_of_newest:
  "latest_of v vs \<in> set (v # vs) \<and> (\<forall>w \<in> set (v # vs). \<not> older (latest_of v vs) w)"
proof (induction vs arbitrary: v)
  case (Cons w vs)
  define best where "best = (if older v w then w else v)"
  have step: "latest_of v (w # vs) = latest_of best vs" by (simp add: latest_of_def lex_older best_def)
  have mem: "latest_of best vs \<in> set (best # vs)" and top: "\<not> older (latest_of best vs) best" "\<forall>x \<in> set vs. \<not> older (latest_of best vs) x"
    using Cons.IH[of best] by simp_all
  have "\<not> older best v" "\<not> older best w" by (auto simp: best_def dest: older_asym)
  then have "\<not> older (latest_of best vs) v" "\<not> older (latest_of best vs) w" using top(1) not_older_trans by blast+
  moreover have "latest_of best vs \<in> set (v # w # vs)" using mem by (cases "older v w") (auto simp: best_def)
  ultimately show ?case unfolding step using top(2) by simp
qed (simp add: latest_of_def)

lemma latest_entry:
  assumes "u \<in> lv_row ` set vs"
  shows "\<exists>l. (case filter (\<lambda>v. lv_row v = u) vs of v # ws \<Rightarrow> latest_of v ws) = l \<and> l \<in> set vs \<and> lv_row l = u \<and>
    (\<forall>w \<in> set vs. lv_row w = u \<longrightarrow> \<not> older l w)"
proof -
  obtain v ws where vws: "filter (\<lambda>v. lv_row v = u) vs = v # ws"
    using assms by (cases "filter (\<lambda>v. lv_row v = u) vs") (auto simp: filter_empty_conv)
  then have mem: "set (v # ws) = {w \<in> set vs. lv_row w = u}" by (metis set_filter)
  define l where "l = latest_of v ws"
  have "l \<in> {w \<in> set vs. lv_row w = u}" "\<forall>w \<in> {w \<in> set vs. lv_row w = u}. \<not> older l w"
    using latest_of_newest[of v ws] unfolding mem l_def by blast+
  then show ?thesis using vws by (intro exI[of _ l]) (simp add: l_def)
qed

lemma latest_per_partition_rows:
  "map lv_row (latest_per_partition vs) = remdups (map lv_row vs)"
proof -
  have "(lv_row \<circ> (\<lambda>u. case filter (\<lambda>v. lv_row v = u) vs of v # ws \<Rightarrow> latest_of v ws)) u = u" if "u \<in> set (remdups (map lv_row vs))" for u
    using latest_entry[of u vs] that by auto
  then show ?thesis unfolding latest_per_partition_def map_map by (rule map_idI)
qed

lemma latest_per_partition_distinct: "distinct (map lv_row (latest_per_partition vs))"
  by (simp add: latest_per_partition_rows)

lemma latest_per_partition_mem:
  assumes "l \<in> set (latest_per_partition vs)"
  shows "l \<in> set vs \<and> (\<forall>w \<in> set vs. lv_row w = lv_row l \<longrightarrow> \<not> older l w)"
proof -
  obtain u where "u \<in> lv_row ` set vs" "l = (case filter (\<lambda>v. lv_row v = u) vs of v # ws \<Rightarrow> latest_of v ws)"
    using assms by (auto simp: latest_per_partition_def)
  then show ?thesis using latest_entry[of u vs] by metis
qed

lemma find_row:
  assumes "distinct (map lv_row ls)" "l \<in> set ls"
  shows "find (\<lambda>x. lv_row x = lv_row l) ls = Some l"
  using assms by (induction ls) (auto simp: image_iff)

lemma newest_find:
  "find (\<lambda>x. lv_row x = u) (latest_per_partition vs) = None \<longleftrightarrow> u \<notin> lv_row ` set vs"
proof -
  have "u \<in> set (map lv_row (latest_per_partition vs)) \<longleftrightarrow> u \<in> lv_row ` set vs" by (simp add: latest_per_partition_rows)
  then show ?thesis by (auto simp: find_None_iff)
qed

lemma newest_find_Some:
  assumes "find (\<lambda>x. lv_row x = u) (latest_per_partition vs) = Some l"
  shows "l \<in> set vs \<and> lv_row l = u \<and> (\<forall>w \<in> set vs. lv_row w = u \<longrightarrow> \<not> older l w)"
proof -
  have "l \<in> set (latest_per_partition vs)" "lv_row l = u" using assms by (auto simp: find_Some_iff)
  then show ?thesis using latest_per_partition_mem[of l vs] by simp
qed

lemma newest_find_ex:
  assumes "w \<in> set vs" "lv_row w = u"
  shows "\<exists>l. find (\<lambda>x. lv_row x = u) (latest_per_partition vs) = Some l"
proof -
  have "u \<in> lv_row ` set vs" using assms imageI[of w "set vs" lv_row] by simp
  then show ?thesis using newest_find[of u vs] by simp
qed

definition resolve_versions :: "string set \<Rightarrow> version list \<Rightarrow> version list \<Rightarrow> resolved list" where
  "resolve_versions user_cols ups dels = two_arm_resolve_select (build_composite_merge_resolution ups dels) user_cols"

definition upsert_arm :: "version list \<Rightarrow> version list \<Rightarrow> version list" where
  "upsert_arm ups dels = filter (\<lambda>l. case find (\<lambda>d. lv_row d = lv_row l) (latest_per_partition dels) of
     None \<Rightarrow> True | Some d \<Rightarrow> \<not> older l d) (latest_per_partition ups)"

definition delete_arm :: "version list \<Rightarrow> version list \<Rightarrow> version list" where
  "delete_arm ups dels = filter (\<lambda>d. case find (\<lambda>l. lv_row l = lv_row d) (latest_per_partition ups) of
     None \<Rightarrow> True | Some l \<Rightarrow> older l d) (latest_per_partition dels)"

lemma resolve_versions_arms:
  "\<exists>tomb. resolve_versions user_cols ups dels = map (live_row user_cols) (upsert_arm ups dels) @ map tomb (delete_arm ups dels) \<and>
     (\<forall>d. rv_row (tomb d) = lv_row d \<and> rv_delete (tomb d) \<and> rv_micros (tomb d) = lv_micros d)"
proof -
  define tomb where "tomb = (\<lambda>d :: version. \<lparr>rv_row = lv_row d,
      rv_cols = (case find (\<lambda>l. lv_row l = lv_row d) (latest_per_partition ups) of None \<Rightarrow> Map.empty | Some l \<Rightarrow> lv_cols l |` user_cols),
      rv_micros = lv_micros d, rv_delete = True\<rparr>)"
  have "resolve_versions user_cols ups dels = map (live_row user_cols) (upsert_arm ups dels) @ map tomb (delete_arm ups dels)"
    by (simp add: resolve_versions_def two_arm_resolve_select_def build_composite_merge_resolution_def lex_older
        upsert_arm_def delete_arm_def tomb_def live_row_def)
  then show ?thesis by (intro exI[of _ tomb]) (simp add: tomb_def)
qed

lemma upsert_arm_mem:
  assumes "ordered_versions (set ups)"
  shows "v \<in> set (upsert_arm ups dels) \<longleftrightarrow> row_live (set ups) (set dels) v"
proof
  assume v: "v \<in> set (upsert_arm ups dels)"
  then have l: "v \<in> set ups" "\<forall>w \<in> set ups. lv_row w = lv_row v \<longrightarrow> \<not> older v w"
    using latest_per_partition_mem by (auto simp: upsert_arm_def)
  have "\<not> older v w" if w: "w \<in> set dels" "lv_row w = lv_row v" for w
  proof -
    obtain d where d: "find (\<lambda>d. lv_row d = lv_row v) (latest_per_partition dels) = Some d"
      using newest_find_ex[OF w] by blast
    then have "\<not> older v d" using v by (simp add: upsert_arm_def)
    moreover have "\<not> older d w" using newest_find_Some[OF d] w by simp
    ultimately show ?thesis using not_older_trans by blast
  qed
  then show "row_live (set ups) (set dels) v" using l by (auto simp: row_live_def)
next
  assume v: "row_live (set ups) (set dels) v"
  obtain l where l: "find (\<lambda>l. lv_row l = lv_row v) (latest_per_partition ups) = Some l"
    using v newest_find_ex[of v ups] unfolding row_live_def by blast
  have "l \<in> set ups" "lv_row l = lv_row v" "\<not> older l v" using newest_find_Some[OF l] v by (auto simp: row_live_def)
  then have "l = v" using assms v unfolding ordered_versions_def row_live_def by (metis UnCI)
  moreover have "l \<in> set (latest_per_partition ups)" using l by (auto simp: find_Some_iff)
  moreover have "\<not> older v d" if "find (\<lambda>d. lv_row d = lv_row v) (latest_per_partition dels) = Some d" for d
    using newest_find_Some[OF that] v by (simp add: row_live_def)
  ultimately show "v \<in> set (upsert_arm ups dels)" by (simp add: upsert_arm_def split: option.splits)
qed

lemma arms_rows:
  "distinct (map lv_row (upsert_arm ups dels) @ map lv_row (delete_arm ups dels))"
  "set (map lv_row (upsert_arm ups dels) @ map lv_row (delete_arm ups dels)) = lv_row ` (set ups \<union> set dels)"
proof -
  have sub: "distinct (map lv_row (upsert_arm ups dels))" "distinct (map lv_row (delete_arm ups dels))"
    unfolding upsert_arm_def delete_arm_def by (simp_all add: distinct_map_filter latest_per_partition_distinct)
  have clash: "lv_row l \<noteq> lv_row d" if l: "l \<in> set (upsert_arm ups dels)" and d: "d \<in> set (delete_arm ups dels)" for l d
  proof
    assume eq: "lv_row l = lv_row d"
    have "find (\<lambda>x. lv_row x = lv_row d) (latest_per_partition dels) = Some d"
      using d by (intro find_row latest_per_partition_distinct) (simp add: delete_arm_def)
    then have "\<not> older l d" using l eq by (simp add: upsert_arm_def)
    moreover have "find (\<lambda>x. lv_row x = lv_row l) (latest_per_partition ups) = Some l"
      using l by (intro find_row latest_per_partition_distinct) (simp add: upsert_arm_def)
    then have "older l d" using d eq by (simp add: delete_arm_def)
    ultimately show False by simp
  qed
  show "distinct (map lv_row (upsert_arm ups dels) @ map lv_row (delete_arm ups dels))"
  proof -
    have "set (map lv_row (upsert_arm ups dels)) \<inter> set (map lv_row (delete_arm ups dels)) = {}"
    proof (rule equals0I)
      fix u assume "u \<in> set (map lv_row (upsert_arm ups dels)) \<inter> set (map lv_row (delete_arm ups dels))"
      then obtain l d where "l \<in> set (upsert_arm ups dels)" "u = lv_row l" "d \<in> set (delete_arm ups dels)" "u = lv_row d"
        unfolding set_map by (elim IntE imageE) simp
      then show False using clash by metis
    qed
    then show ?thesis using sub by simp
  qed
  have "u \<in> lv_row ` set (upsert_arm ups dels) \<union> lv_row ` set (delete_arm ups dels)" if mem: "u \<in> lv_row ` (set ups \<union> set dels)" for u
  proof (cases "find (\<lambda>x. lv_row x = u) (latest_per_partition ups)")
    case None
    then obtain d where d: "find (\<lambda>x. lv_row x = u) (latest_per_partition dels) = Some d"
      using mem newest_find[of u ups] newest_find[of u dels] by (auto simp: image_Un)
    then have "d \<in> set (latest_per_partition dels)" "lv_row d = u" by (auto simp: find_Some_iff)
    then have "d \<in> set (delete_arm ups dels)" using None by (simp add: delete_arm_def)
    then show ?thesis using \<open>lv_row d = u\<close> by blast
  next
    case (Some l)
    then have l: "l \<in> set (latest_per_partition ups)" "lv_row l = u" by (auto simp: find_Some_iff)
    show ?thesis
    proof (cases "l \<in> set (upsert_arm ups dels)")
      case False
      then obtain d where d: "find (\<lambda>x. lv_row x = u) (latest_per_partition dels) = Some d" "older l d"
        using l by (auto simp: upsert_arm_def split: option.splits)
      then have "d \<in> set (latest_per_partition dels)" "lv_row d = u" by (auto simp: find_Some_iff)
      then have "d \<in> set (delete_arm ups dels)" using Some d(2) by (simp add: delete_arm_def)
      then show ?thesis using \<open>lv_row d = u\<close> by blast
    qed (use l in blast)
  qed
  then have "lv_row ` (set ups \<union> set dels) \<subseteq> lv_row ` set (upsert_arm ups dels) \<union> lv_row ` set (delete_arm ups dels)" by (rule subsetI)
  moreover have "set (upsert_arm ups dels) \<subseteq> set ups" "set (delete_arm ups dels) \<subseteq> set dels"
    using latest_per_partition_mem unfolding upsert_arm_def delete_arm_def set_filter by blast+
  then have "lv_row ` set (upsert_arm ups dels) \<union> lv_row ` set (delete_arm ups dels) \<subseteq> lv_row ` (set ups \<union> set dels)"
    unfolding image_Un by (rule Un_mono[OF image_mono image_mono])
  ultimately show "set (map lv_row (upsert_arm ups dels) @ map lv_row (delete_arm ups dels)) = lv_row ` (set ups \<union> set dels)"
    unfolding set_append set_map by (rule subset_antisym[rotated])
qed

lemma resolve_versions_rows:
  "distinct (map rv_row (resolve_versions user_cols ups dels))"
  "set (map rv_row (resolve_versions user_cols ups dels)) = lv_row ` (set ups \<union> set dels)"
proof -
  obtain tomb where "resolve_versions user_cols ups dels = map (live_row user_cols) (upsert_arm ups dels) @ map tomb (delete_arm ups dels)"
    "\<forall>d. rv_row (tomb d) = lv_row d" using resolve_versions_arms by metis
  then have "map rv_row (resolve_versions user_cols ups dels) = map lv_row (upsert_arm ups dels) @ map lv_row (delete_arm ups dels)"
    by (simp add: live_row_def)
  then show "distinct (map rv_row (resolve_versions user_cols ups dels))"
    "set (map rv_row (resolve_versions user_cols ups dels)) = lv_row ` (set ups \<union> set dels)" by (simp_all only: arms_rows)
qed

lemma resolve_versions_live:
  assumes "ordered_versions (set ups)"
  shows "{r \<in> set (resolve_versions user_cols ups dels). \<not> rv_delete r} = live_row user_cols ` {v. row_live (set ups) (set dels) v}"
proof -
  obtain tomb where arms: "resolve_versions user_cols ups dels = map (live_row user_cols) (upsert_arm ups dels) @ map tomb (delete_arm ups dels)"
    and dead: "\<forall>d. rv_delete (tomb d)" using resolve_versions_arms by metis
  have "{r \<in> set (resolve_versions user_cols ups dels). \<not> rv_delete r} = live_row user_cols ` set (upsert_arm ups dels)"
    unfolding arms set_append set_map using dead by (auto simp: live_row_def)
  moreover have "set (upsert_arm ups dels) = {v. row_live (set ups) (set dels) v}" using upsert_arm_mem[OF assms] by blast
  ultimately show ?thesis by simp
qed

lemma resolve_versions_micros:
  assumes "r \<in> set (resolve_versions user_cols ups dels)"
  shows "\<exists>v \<in> set ups \<union> set dels. lv_row v = rv_row r \<and> lv_micros v = rv_micros r"
proof -
  obtain tomb where arms: "resolve_versions user_cols ups dels = map (live_row user_cols) (upsert_arm ups dels) @ map tomb (delete_arm ups dels)"
    and dead: "\<forall>d. rv_row (tomb d) = lv_row d \<and> rv_micros (tomb d) = lv_micros d" using resolve_versions_arms by metis
  have sub: "set (upsert_arm ups dels) \<subseteq> set ups" "set (delete_arm ups dels) \<subseteq> set dels"
    using latest_per_partition_mem unfolding upsert_arm_def delete_arm_def set_filter by blast+
  from assms consider v where "v \<in> set (upsert_arm ups dels)" "r = live_row user_cols v"
    | d where "d \<in> set (delete_arm ups dels)" "r = tomb d"
    unfolding arms set_append set_map by blast
  then show ?thesis
  proof cases
    case 1
    then show ?thesis using sub(1) by (intro bexI[of _ v]) (auto simp: live_row_def)
  next
    case 2
    then show ?thesis using sub(2) dead by (intro bexI[of _ d]) auto
  qed
qed

section \<open>Union of the tiers\<close>

lemma dedup_best_rows:
  assumes "distinct (map rv_row rs)"
    and "\<forall>r \<in> set rs. \<forall>idx ex. best (rv_row r) = Some (idx, ex) \<longrightarrow> rv_micros r \<le> ex"
  shows "(\<forall>k < length rs. best (rv_row (rs ! k)) = None \<longrightarrow> dedup_best i rs best (rv_row (rs ! k)) = Some (i + k, rv_micros (rs ! k))) \<and>
    (\<forall>u x. best u = Some x \<longrightarrow> dedup_best i rs best u = Some x)"
  using assms
proof (induction rs arbitrary: i best)
  case (Cons r rs)
  define best' where "best' = (case best (rv_row r) of None \<Rightarrow> best(rv_row r \<mapsto> (i, rv_micros r))
    | Some (idx, existing) \<Rightarrow> if rv_micros r > existing then best(rv_row r \<mapsto> (i, rv_micros r)) else best)"
  have best': "best' = (if best (rv_row r) = None then best(rv_row r \<mapsto> (i, rv_micros r)) else best)"
    using Cons.prems(2) unfolding best'_def by (auto split: option.splits)
  have fresh: "rv_row x \<noteq> rv_row r" if "x \<in> set rs" for x using Cons.prems(1) imageI[OF that, of rv_row] by auto
  have hyp: "\<forall>x \<in> set rs. \<forall>idx ex. best' (rv_row x) = Some (idx, ex) \<longrightarrow> rv_micros x \<le> ex"
    using Cons.prems(2) fresh unfolding best' by auto
  have IH: "\<forall>k < length rs. best' (rv_row (rs ! k)) = None \<longrightarrow> dedup_best (Suc i) rs best' (rv_row (rs ! k)) = Some (Suc i + k, rv_micros (rs ! k))"
    "\<forall>u x. best' u = Some x \<longrightarrow> dedup_best (Suc i) rs best' u = Some x"
    using Cons.IH[OF _ hyp, of "Suc i"] Cons.prems(1) by auto
  have step: "dedup_best i (r # rs) best = dedup_best (Suc i) rs best'" by (simp add: best'_def)
  have "dedup_best i (r # rs) best (rv_row ((r # rs) ! k)) = Some (i + k, rv_micros ((r # rs) ! k))"
    if k: "k < length (r # rs)" "best (rv_row ((r # rs) ! k)) = None" for k
  proof (cases k)
    case 0
    then show ?thesis unfolding step using IH(2) k best' by simp
  next
    case (Suc j)
    then have "best' (rv_row (rs ! j)) = None" using k fresh[of "rs ! j"] unfolding best' by simp
    then show ?thesis unfolding step using IH(1) k Suc by simp
  qed
  moreover have "dedup_best i (r # rs) best u = Some x" if "best u = Some x" for u x
    unfolding step using IH(2) that best' by (metis fun_upd_other option.distinct(1))
  ultimately show ?case by blast
qed simp

lemma dedup_best_append: "dedup_best i (a @ b) best = dedup_best (i + length a) b (dedup_best i a best)"
  by (induction a arbitrary: i best) auto

lemma dedup_best_dom: "dedup_best i rs best u \<noteq> None \<longleftrightarrow> best u \<noteq> None \<or> u \<in> set (map rv_row rs)"
  by (induction rs arbitrary: i best) (auto split: option.splits)

lemma filter_zip_snd:
  "length xs = length ys \<Longrightarrow> (\<And>i. i < length ys \<Longrightarrow> P (xs ! i, ys ! i) = Q (ys ! i)) \<Longrightarrow> map snd (filter P (zip xs ys)) = filter Q ys"
proof (induction xs ys rule: list_induct2)
  case (Cons x xs y ys)
  have "map snd (filter P (zip xs ys)) = filter Q ys" using Cons.IH Cons.prems[of "Suc i" for i] by simp
  then show ?case using Cons.prems[of 0] by simp
qed simp

lemma union_latest_tiers:
  assumes "distinct (map rv_row a)" "distinct (map rv_row b)"
    and "\<forall>x \<in> set a. \<forall>y \<in> set b. rv_row x = rv_row y \<longrightarrow> rv_micros y \<le> rv_micros x"
  shows "union_latest a b = a @ filter (\<lambda>r. rv_row r \<notin> set (map rv_row a)) b"
proof -
  define best_a where "best_a = dedup_best 0 a Map.empty"
  define best where "best = dedup_best (length a) b best_a"
  have in_a: "best_a (rv_row (a ! k)) = Some (k, rv_micros (a ! k))" if "k < length a" for k
    using dedup_best_rows[of a Map.empty 0] assms(1) that by (simp add: best_a_def)
  have dom_a: "best_a u = None \<longleftrightarrow> u \<notin> set (map rv_row a)" for u
    using dedup_best_dom[of 0 a Map.empty u] unfolding best_a_def by auto
  have below: "\<forall>y \<in> set b. \<forall>idx ex. best_a (rv_row y) = Some (idx, ex) \<longrightarrow> rv_micros y \<le> ex"
  proof (intro ballI allI impI)
    fix y idx ex assume y: "y \<in> set b" and e: "best_a (rv_row y) = Some (idx, ex)"
    then have "rv_row y \<in> set (map rv_row a)" using dom_a[of "rv_row y"] by (cases "rv_row y \<in> set (map rv_row a)") simp_all
    then obtain k where k: "k < length a" "rv_row (a ! k) = rv_row y" by (metis in_set_conv_nth length_map nth_map)
    then show "rv_micros y \<le> ex" using assms(3) y in_a[OF k(1)] e by simp
  qed
  have best_b: "best (rv_row (b ! k)) = Some (length a + k, rv_micros (b ! k))" if "k < length b" "rv_row (b ! k) \<notin> set (map rv_row a)" for k
    using dedup_best_rows[OF assms(2) below, of "length a"] dom_a that unfolding best_def by simp
  have keep: "best u = Some x" if "best_a u = Some x" for u x
    using conjunct2[OF dedup_best_rows[OF assms(2) below, of "length a"], rule_format, OF that] unfolding best_def .
  let ?P = "\<lambda>(i, r). map_option fst (best (rv_row r)) = Some i"
  have "zip [0..<length (a @ b)] (a @ b) = zip [0..<length a] a @ zip [length a..<length a + length b] b"
    by (simp add: upt_add_eq_append[of 0 "length a" "length b", simplified] zip_append)
  moreover have "map snd (filter ?P (zip [0..<length a] a)) = filter (\<lambda>_. True) a"
    by (rule filter_zip_snd) (simp_all add: keep[OF in_a])
  moreover have "map snd (filter ?P (zip [length a..<length a + length b] b)) = filter (\<lambda>r. rv_row r \<notin> set (map rv_row a)) b"
  proof (rule filter_zip_snd)
    fix k assume k: "k < length b"
    show "?P ([length a..<length a + length b] ! k, b ! k) = (rv_row (b ! k) \<notin> set (map rv_row a))"
    proof (cases "rv_row (b ! k) \<in> set (map rv_row a)")
      case True
      then obtain j where j: "j < length a" "rv_row (a ! j) = rv_row (b ! k)" by (metis in_set_conv_nth length_map nth_map)
      then have "best (rv_row (b ! k)) = Some (j, rv_micros (a ! j))" using keep[OF in_a[OF j(1)]] by simp
      then show ?thesis using True j(1) k by simp
    next
      case False
      then show ?thesis using best_b[OF k False] k by simp
    qed
  qed simp
  ultimately show ?thesis unfolding union_latest_def dedup_by_row_uuid_def Let_def best_def best_a_def dedup_best_append by simp
qed

section \<open>What a read should return\<close>

definition hot_sources :: "read_plan \<Rightarrow> read_snapshot \<Rightarrow> uuid list option \<Rightarrow> hot_table \<Rightarrow> tx_log \<Rightarrow> version list \<times> version list" where
  "hot_sources plan snap row_uuids ht log =
     (case pl_hot plan of
        None \<Rightarrow> ([], [])
      | Some hp \<Rightarrow>
          let committed = committed_tx (Option.bind (hp_commit_seq hp) min_seq)
                (tighten_for_hot snap (snd (extract_committed_at_bounds (hp_committed_at hp)))) log in
          (hot_upsert_source committed row_uuids ht, hot_delete_source committed row_uuids ht))"

definition cold_sources :: "dl_driver \<Rightarrow> cold_storage_plan option \<Rightarrow> int option \<Rightarrow> uuid list option \<Rightarrow>
    (version list \<times> version list) result" where
  "cold_sources dl cold commit_seq_upper row_uuids =
     (case Option.bind cold cp_persist of
        None \<Rightarrow> Inr ([], [])
      | Some p \<Rightarrow>
          rbind (dl_log_rows dl (pp_upserts p)) (\<lambda>upsert_log.
          rbind (dl_log_rows dl (pp_deletes p)) (\<lambda>delete_log.
          let admit = cold_source (fst (extract_committed_at_bounds (pp_committed_at p))) (snd (extract_committed_at_bounds (pp_committed_at p)))
                (fold_cold_seq_upper commit_seq_upper (Option.bind (pp_commit_seq p) max_seq)) row_uuids in
          Inr (admit upsert_log, admit delete_log))))"

definition snapshot_rows :: "dl_driver \<Rightarrow> read_plan \<Rightarrow> out_row list list result" where
  "snapshot_rows dl plan =
     (case plan_snapshot_leg plan of None \<Rightarrow> Inr [] | Some sp \<Rightarrow> rmap (dl_snapshot_rows dl) (sp_segments sp))"

definition above :: "int option \<Rightarrow> version \<Rightarrow> bool" where
  "above fence v = (case fence of None \<Rightarrow> True | Some f \<Rightarrow> f < lv_seq v)"

definition past :: "int option \<Rightarrow> version \<Rightarrow> bool" where
  "past snapshotted_at v = (case snapshotted_at of None \<Rightarrow> True | Some s \<Rightarrow> s < lv_micros v)"

definition in_commit_order :: "version set \<Rightarrow> bool" where
  "in_commit_order vs = (\<forall>v \<in> vs. \<forall>w \<in> vs. lv_seq v < lv_seq w \<longleftrightarrow> lv_micros v < lv_micros w)"

definition version_row :: "version \<Rightarrow> out_row" where
  "version_row v = (lv_row v, lv_cols v)"

text \<open>The tiers of a plan hold the versions \<open>ups\<close> and \<open>dels\<close>: hot those above the fence, the persist
  segments those at or below it and past the snapshot, the snapshot the live rows of the rest.\<close>

definition tiers_hold :: "version set \<Rightarrow> version set \<Rightarrow> int option \<Rightarrow> int option \<Rightarrow> version list \<times> version list \<Rightarrow>
    version list \<times> version list \<Rightarrow> out_row list \<Rightarrow> bool" where
  "tiers_hold ups dels fence snapshotted_at hot cold snap =
     (set (fst hot) = {v \<in> ups. above fence v} \<and> set (snd hot) = {v \<in> dels. above fence v} \<and>
      set (fst cold) = {v \<in> ups. \<not> above fence v \<and> past snapshotted_at v} \<and>
      set (snd cold) = {v \<in> dels. \<not> above fence v \<and> past snapshotted_at v} \<and>
      set snap = version_row ` {v. row_live {v \<in> ups. \<not> past snapshotted_at v} {v \<in> dels. \<not> past snapshotted_at v} v} \<and>
      distinct (map fst snap) \<and>
      (\<forall>v \<in> ups \<union> dels. \<not> past snapshotted_at v \<longrightarrow> \<not> above fence v))"

definition read_view :: "version set \<Rightarrow> version set \<Rightarrow> string set \<Rightarrow> (out_row \<Rightarrow> bool) option \<Rightarrow> uuid list option \<Rightarrow> out_row set" where
  "read_view ups dels user_cols predicate row_uuids =
     {r \<in> (\<lambda>v. project_row user_cols (version_row v)) ` {v. row_live ups dels v}.
        row_uuid_in_clause row_uuids (fst r) \<and> (case predicate of None \<Rightarrow> True | Some p \<Rightarrow> p r)}"

lemma row_live_split:
  assumes "\<forall>n \<in> nu \<union> nd. \<forall>old \<in> ou \<union> od. lv_row n = lv_row old \<longrightarrow> older old n"
  shows "row_live (nu \<union> ou) (nd \<union> od) v \<longleftrightarrow>
     row_live nu nd v \<or> (row_live ou od v \<and> lv_row v \<notin> lv_row ` (nu \<union> nd))"
proof
  assume v: "row_live (nu \<union> ou) (nd \<union> od) v"
  then have top: "\<not> older v w" if "w \<in> nu \<union> nd \<union> ou \<union> od" "lv_row w = lv_row v" for w
    using that unfolding row_live_def by blast
  show "row_live nu nd v \<or> (row_live ou od v \<and> lv_row v \<notin> lv_row ` (nu \<union> nd))"
  proof (cases "v \<in> nu")
    case True
    then show ?thesis using top unfolding row_live_def by blast
  next
    case False
    then have "v \<in> ou" using v unfolding row_live_def by blast
    moreover have "lv_row v \<notin> lv_row ` (nu \<union> nd)"
    proof
      assume "lv_row v \<in> lv_row ` (nu \<union> nd)"
      then obtain n where n: "n \<in> nu \<union> nd" "lv_row n = lv_row v" by (metis imageE)
      then have "older v n" using assms \<open>v \<in> ou\<close> by blast
      then show False using top n by blast
    qed
    ultimately show ?thesis using top unfolding row_live_def by blast
  qed
next
  assume "row_live nu nd v \<or> (row_live ou od v \<and> lv_row v \<notin> lv_row ` (nu \<union> nd))"
  then show "row_live (nu \<union> ou) (nd \<union> od) v"
  proof
    assume v: "row_live nu nd v"
    have "\<not> older v w" if "w \<in> ou \<union> od" "lv_row w = lv_row v" for w
    proof -
      have "older w v" using assms that v unfolding row_live_def by (metis UnCI)
      then show ?thesis by (rule older_asym)
    qed
    then show ?thesis using v unfolding row_live_def by blast
  next
    assume v: "row_live ou od v \<and> lv_row v \<notin> lv_row ` (nu \<union> nd)"
    then have "lv_row w \<noteq> lv_row v" if "w \<in> nu \<union> nd" for w using imageI[OF that, of lv_row] by metis
    then show ?thesis using v unfolding row_live_def by blast
  qed
qed

lemma row_live_restrict:
  "row_live {v \<in> ups. P (lv_row v)} {v \<in> dels. P (lv_row v)} v \<longleftrightarrow> row_live ups dels v \<and> P (lv_row v)"
  unfolding row_live_def by auto

lemma resolve_hot_sources:
  "resolve_hot plan user_cols snap row_uuids ht log =
     resolve_versions user_cols (fst (hot_sources plan snap row_uuids ht log)) (snd (hot_sources plan snap row_uuids ht log))"
proof (cases "pl_hot plan")
  case None
  have "resolve_versions user_cols [] [] = []" using resolve_versions_rows(2)[of user_cols "[]" "[]"] by simp
  then show ?thesis using None by (simp add: resolve_hot_def hot_sources_def)
qed (simp add: resolve_hot_def hot_sources_def build_merge_resolved_def resolve_versions_def Let_def)

lemma resolve_cold_sources:
  "resolve_cold dl cold user_cols n row_uuids =
     rbind (cold_sources dl cold n row_uuids) (\<lambda>(u, d). Inr (resolve_versions user_cols u d))"
proof (cases "Option.bind cold cp_persist")
  case None
  have "resolve_versions user_cols [] [] = []" using resolve_versions_rows(2)[of user_cols "[]" "[]"] by simp
  then show ?thesis using None by (simp add: resolve_cold_def cold_sources_def)
qed (simp add: resolve_cold_def cold_sources_def build_cold_merge_resolved_def resolve_versions_def Let_def rbind_assoc
      split: prod.splits)

lemma filter_concat_rows:
  assumes "\<And>x v. v \<in> set (f x) \<Longrightarrow> P v = Q x"
  shows "filter P (concat (map f xs)) = concat (map f (filter Q xs))"
proof (induction xs)
  case (Cons x xs)
  have "filter P (f x) = (if Q x then f x else [])" using assms by (auto simp: filter_id_conv filter_empty_conv)
  then show ?case using Cons by simp
qed simp

lemma hot_source_restrict:
  "hot_upsert_source c row_uuids ht = filter (\<lambda>v. row_uuid_in_clause row_uuids (lv_row v)) (hot_upsert_source c None ht)"
  "hot_delete_source c row_uuids ht = filter (\<lambda>v. row_uuid_in_clause row_uuids (lv_row v)) (hot_delete_source c None ht)"
proof -
  have all: "filter (\<lambda>u. row_uuid_in_clause None (f u)) xs = xs" for f and xs :: "'z list" by (simp add: row_uuid_in_clause_def)
  show "hot_upsert_source c row_uuids ht = filter (\<lambda>v. row_uuid_in_clause row_uuids (lv_row v)) (hot_upsert_source c None ht)"
    unfolding hot_upsert_source_def all by (rule filter_concat_rows[symmetric]) (auto simp: upsert_version_def)
  show "hot_delete_source c row_uuids ht = filter (\<lambda>v. row_uuid_in_clause row_uuids (lv_row v)) (hot_delete_source c None ht)"
    unfolding hot_delete_source_def all by (rule filter_concat_rows[symmetric]) (auto simp: delete_version_def)
qed

lemma hot_sources_restrict:
  "set (fst (hot_sources plan snap row_uuids ht log)) =
     {v \<in> set (fst (hot_sources plan snap None ht log)). row_uuid_in_clause row_uuids (lv_row v)}"
  "set (snd (hot_sources plan snap row_uuids ht log)) =
     {v \<in> set (snd (hot_sources plan snap None ht log)). row_uuid_in_clause row_uuids (lv_row v)}"
proof -
  let ?P = "\<lambda>v. row_uuid_in_clause row_uuids (lv_row v)"
  have "fst (hot_sources plan snap row_uuids ht log) = filter ?P (fst (hot_sources plan snap None ht log))"
    "snd (hot_sources plan snap row_uuids ht log) = filter ?P (snd (hot_sources plan snap None ht log))"
    unfolding hot_sources_def Let_def by (cases "pl_hot plan"; simp add: hot_source_restrict[of _ row_uuids])+
  then show "set (fst (hot_sources plan snap row_uuids ht log)) = {v \<in> set (fst (hot_sources plan snap None ht log)). ?P v}"
    "set (snd (hot_sources plan snap row_uuids ht log)) = {v \<in> set (snd (hot_sources plan snap None ht log)). ?P v}" by simp_all
qed

lemma cold_sources_restrict:
  assumes "cold_sources dl cold n None = Inr (u, d)"
  shows "cold_sources dl cold n row_uuids =
     Inr (filter (\<lambda>v. row_uuid_in_clause row_uuids (lv_row v)) u, filter (\<lambda>v. row_uuid_in_clause row_uuids (lv_row v)) d)"
proof -
  have f: "cold_source a b c row_uuids vs = filter (\<lambda>v. row_uuid_in_clause row_uuids (lv_row v)) (cold_source a b c None vs)" for a b c vs
    by (auto simp: cold_source_def row_uuid_in_clause_def intro!: filter_cong)
  show ?thesis
  proof (cases "Option.bind cold cp_persist")
    case None
    then show ?thesis using assms by (simp add: cold_sources_def)
  next
    case (Some p)
    then obtain ul dl' where "dl_log_rows dl (pp_upserts p) = Inr ul" "dl_log_rows dl (pp_deletes p) = Inr dl'"
      using assms by (auto simp: cold_sources_def rbind_eq_Inr)
    then show ?thesis using assms Some by (auto simp: cold_sources_def Let_def f[symmetric])
  qed
qed

lemma ordered_subset: "ordered_versions vs \<Longrightarrow> ws \<subseteq> vs \<Longrightarrow> ordered_versions ws"
  unfolding ordered_versions_def by blast

lemma compose_tiers:
  assumes order: "\<forall>n \<in> set hu \<union> set dh. \<forall>old \<in> set cu \<union> set cd. older old n \<and> lv_micros old \<le> lv_micros n"
    and ordered: "ordered_versions (set hu \<union> set cu)"
    and comp: "compose_resolved_and_exclusion (resolve_versions cols hu dh) (resolve_versions cols cu cd) = (res, excl)"
  shows "excl = lv_row ` ((set hu \<union> set cu) \<union> (set dh \<union> set cd)) \<and>
     set res = live_row cols ` {v. row_live (set hu \<union> set cu) (set dh \<union> set cd) v} \<and> distinct (map rv_row res)"
proof -
  let ?h = "resolve_versions cols hu dh" and ?c = "resolve_versions cols cu cd"
  let ?fresh = "\<lambda>r. rv_row r \<notin> set (map rv_row ?h)"
  have micros: "\<forall>x \<in> set ?h. \<forall>y \<in> set ?c. rv_row x = rv_row y \<longrightarrow> rv_micros y \<le> rv_micros x"
  proof (intro ballI impI)
    fix x y assume x: "x \<in> set ?h" and y: "y \<in> set ?c"
    obtain v where "v \<in> set hu \<union> set dh" "lv_micros v = rv_micros x" using resolve_versions_micros[OF x] by blast
    moreover obtain w where "w \<in> set cu \<union> set cd" "lv_micros w = rv_micros y" using resolve_versions_micros[OF y] by blast
    ultimately show "rv_micros y \<le> rv_micros x" using order by (metis (no_types))
  qed
  have union: "union_latest ?h ?c = ?h @ filter ?fresh ?c" by (rule union_latest_tiers[OF resolve_versions_rows(1) resolve_versions_rows(1) micros])
  have res: "res = filter (\<lambda>r. \<not> rv_delete r) (?h @ filter ?fresh ?c)"
    and excl: "excl = set (map rv_row (?h @ filter ?fresh ?c))"
    using comp unfolding compose_resolved_and_exclusion_def Let_def union filter_live_rows_def collect_row_uuids_def by auto
  have "excl = set (map rv_row ?h) \<union> set (map rv_row ?c)" unfolding excl by auto
  then have e: "excl = lv_row ` ((set hu \<union> set cu) \<union> (set dh \<union> set cd))" unfolding resolve_versions_rows(2) by (simp add: image_Un Un_ac)
  have rows_h: "set (map rv_row ?h) = lv_row ` (set hu \<union> set dh)" by (rule resolve_versions_rows(2))
  have "set res = {r \<in> set ?h. \<not> rv_delete r} \<union> {r \<in> {r \<in> set ?c. \<not> rv_delete r}. ?fresh r}" unfolding res by auto
  also have "\<dots> = live_row cols ` {v. row_live (set hu) (set dh) v} \<union>
      {r \<in> live_row cols ` {v. row_live (set cu) (set cd) v}. rv_row r \<notin> lv_row ` (set hu \<union> set dh)}"
    using ordered_subset[OF ordered] by (simp only: resolve_versions_live rows_h Un_upper1 Un_upper2)
  also have "\<dots> = live_row cols ` {v. row_live (set hu) (set dh) v \<or> (row_live (set cu) (set cd) v \<and> lv_row v \<notin> lv_row ` (set hu \<union> set dh))}"
  proof -
    have rv: "rv_row (live_row cols v) = lv_row v" for v by (simp add: live_row_def)
    have "{r \<in> live_row cols ` A. rv_row r \<notin> X} = live_row cols ` {v \<in> A. lv_row v \<notin> X}" for A X
      using rv by (auto simp: image_iff)
    then show ?thesis by (simp only: image_Un[symmetric] Collect_disj_eq Collect_conj_eq mem_Collect_eq)
  qed
  also have "\<dots> = live_row cols ` {v. row_live (set hu \<union> set cu) (set dh \<union> set cd) v}"
  proof -
    have "\<forall>n \<in> set hu \<union> set dh. \<forall>old \<in> set cu \<union> set cd. lv_row n = lv_row old \<longrightarrow> older old n" using order by blast
    from row_live_split[OF this] show ?thesis by presburger
  qed
  finally have "set res = live_row cols ` {v. row_live (set hu \<union> set cu) (set dh \<union> set cd) v}" .
  moreover have "distinct (map rv_row (?h @ filter ?fresh ?c))"
  proof -
    have "distinct (map rv_row (filter ?fresh ?c))" using resolve_versions_rows(1) by (rule distinct_map_filter)
    moreover have "set (map rv_row ?h) \<inter> set (map rv_row (filter ?fresh ?c)) = {}" by (auto, metis imageI)
    ultimately show ?thesis using resolve_versions_rows(1)[of cols hu dh] by (simp only: map_append distinct_append)
  qed
  then have "distinct (map rv_row res)" unfolding res by (rule distinct_map_filter)
  ultimately show ?thesis using e by blast
qed

lemma residual_live:
  assumes "residual_filter lib filt = Inr predicate"
  shows "apply_resolved_residual lib filt rs =
     Inr (filter (\<lambda>r. case predicate of None \<Rightarrow> True | Some p \<Rightarrow> p (resolved_out r)) rs)"
  using assms by (auto simp: apply_resolved_residual_def split: option.splits)

lemma rmap_each:
  assumes "rmap f xs = Inr yss"
  shows "(\<forall>x \<in> set xs. f x = Inr (projr (f x))) \<and> yss = map (\<lambda>x. projr (f x)) xs"
  using assms by (induction xs arbitrary: yss) (auto simp: rbind_eq_Inr)

lemma distinct_concat_filter:
  "distinct (map fst (concat (map g xs))) \<Longrightarrow> distinct (map fst (concat (map g (filter P xs))))"
proof (induction xs)
  case (Cons x xs)
  have "fst ` set (concat (map g (filter P xs))) \<subseteq> fst ` set (concat (map g xs))" by (rule image_mono) auto
  then show ?case using Cons by (cases "P x") (simp, blast, simp)
qed simp

definition keeps :: "(out_row \<Rightarrow> bool) option \<Rightarrow> out_row \<Rightarrow> bool" where
  "keeps predicate r = (case predicate of None \<Rightarrow> True | Some p \<Rightarrow> p r)"

text \<open>Segment statistics are sound: a segment with a row that passes the filter is not pruned.\<close>

definition prune_sound :: "merge_lib \<Rightarrow> dl_driver \<Rightarrow> string set \<Rightarrow> (out_row \<Rightarrow> bool) option \<Rightarrow> snapshot_segment list \<Rightarrow> bool" where
  "prune_sound lib dl user_cols predicate segs =
     (\<forall>p. predicate = Some p \<longrightarrow> (\<forall>seg \<in> set segs. \<forall>rs. dl_snapshot_rows dl seg = Inr rs \<longrightarrow>
        (\<exists>r \<in> set rs. p (project_row user_cols r)) \<longrightarrow> stats_may_match lib p seg))"

lemma pruned_segments_filter:
  assumes "residual_filter lib (rq_filter rq) = Inr predicate"
  shows "\<exists>Q. pruned_segments lib rq segs = filter Q segs \<and> (\<forall>seg. \<not> Q seg \<longrightarrow> (\<exists>p. predicate = Some p \<and> \<not> stats_may_match lib p seg))"
proof (cases "\<exists>p f. length segs > rq_prune_min rq \<and> rq_filter rq = Some f \<and> f \<noteq> [] \<and> full_plan_predicate lib f = Inr p")
  case True
  then obtain p f where pf: "length segs > rq_prune_min rq" "rq_filter rq = Some f" "f \<noteq> []" "full_plan_predicate lib f = Inr p" by blast
  then have "predicate = Some p" using assms by (auto simp: residual_filter_def)
  moreover have "pruned_segments lib rq segs = filter (stats_may_match lib p) segs" using pf by (simp add: pruned_segments_def)
  ultimately show ?thesis by blast
next
  case False
  then have "pruned_segments lib rq segs = segs" by (auto simp: pruned_segments_def split: option.splits sum.splits)
  then show ?thesis by (intro exI[of _ "\<lambda>_. True"]) simp
qed

lemma snapshot_scan:
  assumes "ids \<noteq> Some []"
  shows "snapshot_segment_stream lib dl rq ids sp excl =
     (let segs = pruned_segments lib rq (sp_segments sp) in
      if segs = [] then Inr []
      else rbind (residual_filter lib (rq_filter rq)) (\<lambda>predicate. rbind (rmap (dl_snapshot_rows dl) segs) (\<lambda>batches.
        Inr (filter (\<lambda>r. fst r \<notin> excl \<and> row_uuid_in_clause ids (fst r) \<and> keeps predicate r)
          (map (project_row (user_cols_of rq)) (concat batches))))))"
proof (cases "rq_order rq")
  case ByCompletion
  then show ?thesis
    by (simp add: snapshot_segment_stream_def build_cold_snapshot_scan_def keeps_def Let_def)
next
  case ByPlan
  have scan: "(case ids of None \<Rightarrow> filter_excluded_row_uuids fst excl (build_cold_snapshot_scan_plain cols predicate rs)
      | Some included \<Rightarrow> filter_to_included_row_uuids included (filter_excluded_row_uuids fst excl (build_cold_snapshot_scan_plain cols predicate rs))) =
     filter (\<lambda>r. fst r \<notin> excl \<and> row_uuid_in_clause ids (fst r) \<and> keeps predicate r) (map (project_row cols) rs)" for cols predicate rs
    using assms by (cases ids) (auto simp: filter_excluded_row_uuids_def filter_to_included_row_uuids_def build_cold_snapshot_scan_plain_def
        row_uuid_in_clause_def keeps_def intro!: filter_cong)
  show ?thesis using ByPlan by (simp add: snapshot_segment_stream_def Let_def scan)
qed

lemma snapshot_stream_rows:
  assumes pred: "residual_filter lib (rq_filter rq) = Inr predicate"
    and some: "ids \<noteq> Some []" and load: "snapshot_rows dl plan = Inr batches" and dist: "distinct (map fst (concat batches))"
    and sound: "\<And>sp. plan_snapshot_leg plan = Some sp \<Longrightarrow> prune_sound lib dl (user_cols_of rq) predicate (sp_segments sp)"
  shows "\<exists>out. plan_snapshot_stream lib dl rq ids plan excl = Inr out \<and> distinct (map fst out) \<and>
     set out = {r \<in> project_row (user_cols_of rq) ` set (concat batches). fst r \<notin> excl \<and> row_uuid_in_clause ids (fst r) \<and> keeps predicate r}"
proof (cases "plan_snapshot_leg plan")
  case None
  then show ?thesis using load by (simp add: plan_snapshot_stream_def snapshot_rows_def)
next
  case (Some sp)
  let ?proj = "project_row (user_cols_of rq)" and ?keep = "\<lambda>r. fst r \<notin> excl \<and> row_uuid_in_clause ids (fst r) \<and> keeps predicate r"
  define g where "g = (\<lambda>seg. projr (dl_snapshot_rows dl seg))"
  have all: "\<forall>seg \<in> set (sp_segments sp). dl_snapshot_rows dl seg = Inr (g seg)" "batches = map g (sp_segments sp)"
    using rmap_each[of "dl_snapshot_rows dl" "sp_segments sp" batches] load Some by (auto simp: snapshot_rows_def g_def)
  obtain Q where Q: "pruned_segments lib rq (sp_segments sp) = filter Q (sp_segments sp)"
    "\<forall>seg. \<not> Q seg \<longrightarrow> (\<exists>p. predicate = Some p \<and> \<not> stats_may_match lib p seg)" using pruned_segments_filter[OF pred] by blast
  have "rmap (dl_snapshot_rows dl) (filter Q (sp_segments sp)) = Inr (map g (filter Q (sp_segments sp)))"
    by (rule rmap_pure) (simp add: all(1))
  then have run: "plan_snapshot_stream lib dl rq ids plan excl =
      Inr (filter ?keep (map ?proj (concat (map g (filter Q (sp_segments sp))))))"
    using Some Q(1) pred by (simp add: plan_snapshot_stream_def snapshot_scan[OF some] Let_def)
  have first: "map fst (map ?proj rs) = map fst rs" for rs by (simp add: project_row_def)
  have "distinct (map fst (map ?proj (concat (map g (filter Q (sp_segments sp))))))"
    unfolding first by (rule distinct_concat_filter) (use dist all(2) in simp)
  then have "distinct (map fst (filter ?keep (map ?proj (concat (map g (filter Q (sp_segments sp)))))))" by (rule distinct_map_filter)
  moreover have "set (filter ?keep (map ?proj (concat (map g (filter Q (sp_segments sp)))))) = {r \<in> ?proj ` set (concat batches). ?keep r}"
  proof -
    have "Q seg" if seg: "seg \<in> set (sp_segments sp)" "r \<in> set (g seg)" "?keep (?proj r)" for seg r
    proof (rule ccontr)
      assume "\<not> Q seg"
      then obtain p where p: "predicate = Some p" "\<not> stats_may_match lib p seg" using Q(2) by blast
      have "p (?proj r)" using seg(3) p(1) by (simp add: keeps_def)
      then show False using sound[OF Some] p seg all(1) unfolding prune_sound_def by blast
    qed
    then have "{r \<in> ?proj ` (\<Union>seg \<in> set (filter Q (sp_segments sp)). set (g seg)). ?keep r} =
        {r \<in> ?proj ` (\<Union>seg \<in> set (sp_segments sp). set (g seg)). ?keep r}" by fastforce
    then show ?thesis by (simp add: all(2))
  qed
  ultimately show ?thesis using run by blast
qed

lemma tiers_cover:
  assumes tiers: "tiers_hold ups dels fence s_at hot cold snap" and order: "in_commit_order (ups \<union> dels)"
  shows "set (fst hot) \<union> set (fst cold) = {v \<in> ups. past s_at v}" "set (snd hot) \<union> set (snd cold) = {v \<in> dels. past s_at v}"
    "\<forall>n \<in> set (fst hot) \<union> set (snd hot). \<forall>old \<in> set (fst cold) \<union> set (snd cold). older old n \<and> lv_micros old \<le> lv_micros n"
    "\<forall>n \<in> {v \<in> ups \<union> dels. past s_at v}. \<forall>old \<in> {v \<in> ups \<union> dels. \<not> past s_at v}. older old n"
proof -
  have sets: "set (fst hot) = {v \<in> ups. above fence v}" "set (snd hot) = {v \<in> dels. above fence v}"
    "set (fst cold) = {v \<in> ups. \<not> above fence v \<and> past s_at v}" "set (snd cold) = {v \<in> dels. \<not> above fence v \<and> past s_at v}"
    and low: "\<forall>v \<in> ups \<union> dels. \<not> past s_at v \<longrightarrow> \<not> above fence v" using tiers by (simp_all add: tiers_hold_def)
  show "set (fst hot) \<union> set (fst cold) = {v \<in> ups. past s_at v}" "set (snd hot) \<union> set (snd cold) = {v \<in> dels. past s_at v}"
    unfolding sets using low by blast+
  show "\<forall>n \<in> set (fst hot) \<union> set (snd hot). \<forall>old \<in> set (fst cold) \<union> set (snd cold). older old n \<and> lv_micros old \<le> lv_micros n"
  proof (intro ballI)
    fix n old assume n: "n \<in> set (fst hot) \<union> set (snd hot)" and old: "old \<in> set (fst cold) \<union> set (snd cold)"
    have mem: "n \<in> ups \<union> dels" "old \<in> ups \<union> dels" using n old unfolding sets by blast+
    have "above fence n" "\<not> above fence old" using n old unfolding sets by blast+
    then have less: "lv_seq old < lv_seq n" by (cases fence) (simp_all add: above_def)
    then have "lv_micros old < lv_micros n" using order mem unfolding in_commit_order_def by blast
    then show "older old n \<and> lv_micros old \<le> lv_micros n" using less by (simp add: older_def)
  qed
  show "\<forall>n \<in> {v \<in> ups \<union> dels. past s_at v}. \<forall>old \<in> {v \<in> ups \<union> dels. \<not> past s_at v}. older old n"
  proof (intro ballI)
    fix n old assume n: "n \<in> {v \<in> ups \<union> dels. past s_at v}" and old: "old \<in> {v \<in> ups \<union> dels. \<not> past s_at v}"
    then have "lv_micros old < lv_micros n" by (cases s_at) (simp_all add: past_def)
    then have "lv_seq old < lv_seq n" using order n old unfolding in_commit_order_def by blast
    then show "older old n" by (simp add: older_def)
  qed
qed

lemma set_filter_image: "{r \<in> h ` A. Q r} = h ` {v \<in> A. Q (h v)}"
  by blast

lemma row_live_past:
  assumes newer: "\<forall>n \<in> {v \<in> ups \<union> dels. past s_at v}. \<forall>old \<in> {v \<in> ups \<union> dels. \<not> past s_at v}. older old n"
  shows "row_live ups dels v \<and> P (lv_row v) \<longleftrightarrow>
     row_live {v \<in> {v \<in> ups. past s_at v}. P (lv_row v)} {v \<in> {v \<in> dels. past s_at v}. P (lv_row v)} v \<or>
     (row_live {v \<in> ups. \<not> past s_at v} {v \<in> dels. \<not> past s_at v} v \<and> P (lv_row v) \<and>
      lv_row v \<notin> lv_row ` ({v \<in> {v \<in> ups. past s_at v}. P (lv_row v)} \<union> {v \<in> {v \<in> dels. past s_at v}. P (lv_row v)}))"
proof -
  let ?nu = "{v \<in> {v \<in> ups. past s_at v}. P (lv_row v)}" and ?nd = "{v \<in> {v \<in> dels. past s_at v}. P (lv_row v)}"
  let ?ou = "{v \<in> {v \<in> ups. \<not> past s_at v}. P (lv_row v)}" and ?od = "{v \<in> {v \<in> dels. \<not> past s_at v}. P (lv_row v)}"
  have cut: "{v \<in> ups. P (lv_row v)} = ?nu \<union> ?ou" "{v \<in> dels. P (lv_row v)} = ?nd \<union> ?od" by auto
  have "\<forall>n \<in> ?nu \<union> ?nd. \<forall>old \<in> ?ou \<union> ?od. lv_row n = lv_row old \<longrightarrow> older old n"
  proof (intro ballI impI)
    fix n old assume "n \<in> ?nu \<union> ?nd" "old \<in> ?ou \<union> ?od"
    then have "n \<in> {v \<in> ups \<union> dels. past s_at v}" "old \<in> {v \<in> ups \<union> dels. \<not> past s_at v}" by auto
    then show "older old n" by (rule bspec[OF bspec[OF newer]])
  qed
  from row_live_split[OF this, of v] show ?thesis
    unfolding row_live_restrict[of ups P dels v, symmetric] cut row_live_restrict[of "{v \<in> ups. \<not> past s_at v}" P "{v \<in> dels. \<not> past s_at v}" v]
    by blast
qed

lemma project_live:
  assumes "\<And>r. r \<in> set rs \<Longrightarrow> \<exists>v. r = live_row (set (map field_name sch)) v \<and>
     (\<forall>f \<in> set sch. field_nullable f \<or> \<not> is_null (lv_cols v (field_name f)))"
  shows "project_resolved sch rs = Inr (map resolved_out rs)"
proof -
  have "field_nullable f \<or> \<not> is_null (rv_cols r (field_name f))" if mem: "r \<in> set rs" "f \<in> set sch" for r f
  proof -
    obtain v where v: "r = live_row (set (map field_name sch)) v" "field_nullable f \<or> \<not> is_null (lv_cols v (field_name f))"
      using assms[OF mem(1)] mem(2) by blast
    have "rv_cols r (field_name f) = lv_cols v (field_name f)" using v(1) mem(2) by (simp add: live_row_def)
    then show ?thesis using v(2) by simp
  qed
  then show ?thesis unfolding project_resolved_def by meson
qed

lemma merged_read_rows:
  assumes ids: "request_row_uuids rq = Inr ids" and some: "ids \<noteq> Some []" and pred: "residual_filter lib (rq_filter rq) = Inr predicate"
    and base: "pl_base plan = None"
    and cold: "cold_sources dl (pl_cold plan) (cold_commit_seq_upper (rq_snapshot rq)) None = Inr cold"
    and load: "snapshot_rows dl plan = Inr batches"
    and tiers: "tiers_hold ups dels fence s_at (hot_sources plan (rq_snapshot rq) None ht log) cold (concat batches)"
    and ordered: "ordered_versions ups" and order: "in_commit_order (ups \<union> dels)"
    and sound: "\<And>sp. plan_snapshot_leg plan = Some sp \<Longrightarrow> prune_sound lib dl (user_cols_of rq) predicate (sp_segments sp)"
    and typed: "\<forall>v. row_live ups dels v \<longrightarrow> (\<forall>f \<in> set (rq_user_schema rq). field_nullable f \<or> \<not> is_null (lv_cols v (field_name f)))"
  shows "\<exists>out. stream_merged lib dl rq plan ht log = Inr out \<and> distinct (map fst out) \<and>
     set out = read_view ups dels (user_cols_of rq) predicate ids"
proof -
  let ?cols = "user_cols_of rq" and ?P = "row_uuid_in_clause ids"
  define hot where "hot = hot_sources plan (rq_snapshot rq) None ht log"
  define hot' where "hot' = hot_sources plan (rq_snapshot rq) ids ht log"
  define cold' where "cold' = (filter (\<lambda>v. ?P (lv_row v)) (fst cold), filter (\<lambda>v. ?P (lv_row v)) (snd cold))"
  note cover = tiers_cover[OF tiers order, folded hot_def]
  have hot': "set (fst hot') = {v \<in> set (fst hot). ?P (lv_row v)}" "set (snd hot') = {v \<in> set (snd hot). ?P (lv_row v)}"
    unfolding hot'_def hot_def by (rule hot_sources_restrict)+
  have cold': "cold_sources dl (pl_cold plan) (cold_commit_seq_upper (rq_snapshot rq)) ids = Inr cold'"
    using cold_sources_restrict[of dl "pl_cold plan" _ "fst cold" "snd cold" ids] cold by (simp add: cold'_def)
  define nu where "nu = set (fst hot') \<union> set (fst cold')"
  define nd where "nd = set (snd hot') \<union> set (snd cold')"
  have nu: "nu = {v \<in> {v \<in> ups. past s_at v}. ?P (lv_row v)}" and nd: "nd = {v \<in> {v \<in> dels. past s_at v}. ?P (lv_row v)}"
    unfolding nu_def nd_def hot' cold'_def cover(1,2)[symmetric] by auto
  obtain res excl where comp: "compose_resolved_and_exclusion (resolve_versions ?cols (fst hot') (snd hot'))
      (resolve_versions ?cols (fst cold') (snd cold')) = (res, excl)" by fastforce
  have res: "excl = lv_row ` (nu \<union> nd)" "set res = live_row ?cols ` {v. row_live nu nd v}" "distinct (map rv_row res)"
  proof -
    have "\<forall>n \<in> set (fst hot') \<union> set (snd hot'). \<forall>old \<in> set (fst cold') \<union> set (snd cold'). older old n \<and> lv_micros old \<le> lv_micros n"
      using cover(3) unfolding hot' cold'_def by auto
    moreover have "ordered_versions (set (fst hot') \<union> set (fst cold'))"
      using ordered_subset[OF ordered, of nu] nu unfolding nu_def by blast
    ultimately have "excl = lv_row ` (nu \<union> nd) \<and> set res = live_row ?cols ` {v. row_live nu nd v} \<and> distinct (map rv_row res)"
      unfolding nu_def nd_def by (rule compose_tiers[OF _ _ comp])
    then show "excl = lv_row ` (nu \<union> nd)" "set res = live_row ?cols ` {v. row_live nu nd v}" "distinct (map rv_row res)" by simp_all
  qed
  define su where "su = {v \<in> ups. \<not> past s_at v}"
  define sd where "sd = {v \<in> dels. \<not> past s_at v}"
  have split: "row_live ups dels v \<and> ?P (lv_row v) \<longleftrightarrow> row_live nu nd v \<or> (row_live su sd v \<and> ?P (lv_row v) \<and> lv_row v \<notin> lv_row ` (nu \<union> nd))" for v
    unfolding nu nd su_def sd_def by (rule row_live_past[OF cover(4)])
  define kept where "kept = filter (\<lambda>r. keeps predicate (resolved_out r)) res"
  have out1: "resolved_out (live_row ?cols v) = project_row ?cols (version_row v)" for v
    by (simp add: resolved_out_def live_row_def project_row_def version_row_def)
  have proj: "project_resolved (rq_user_schema rq) kept = Inr (map resolved_out kept)"
  proof (rule project_live)
    fix r assume "r \<in> set kept"
    then obtain v where "r = live_row ?cols v" "row_live nu nd v" using res(2) unfolding kept_def by auto
    then show "\<exists>v. r = live_row (set (map field_name (rq_user_schema rq))) v \<and>
        (\<forall>f \<in> set (rq_user_schema rq). field_nullable f \<or> \<not> is_null (lv_cols v (field_name f)))"
      using typed split[of v] unfolding user_cols_of_def by blast
  qed
  have dist: "distinct (map fst (concat batches))" and snap: "set (concat batches) = version_row ` {v. row_live su sd v}"
    using tiers unfolding tiers_hold_def su_def sd_def by blast+
  obtain out2 where out2: "plan_snapshot_stream lib dl rq ids plan excl = Inr out2" "distinct (map fst out2)"
    "set out2 = {r \<in> project_row ?cols ` set (concat batches). fst r \<notin> excl \<and> ?P (fst r) \<and> keeps predicate r}"
    using snapshot_stream_rows[OF pred some load dist sound] by blast
  have "apply_resolved_residual lib (rq_filter rq) res = Inr kept"
    using residual_live[OF pred, of res] unfolding kept_def keeps_def .
  then have run: "stream_merged lib dl rq plan ht log = Inr (map resolved_out kept @ out2)"
    using ids base cold' comp proj out2(1)
    by (simp add: stream_merged_def stream_merged_parts_def build_resolved_and_exclusion_set_def resolve_hot_sources
        resolve_cold_sources hot'_def[symmetric] fold_base_if_present_def interleave_parts_def case_prod_beta)
  have fst_out: "map fst (map resolved_out kept) = map rv_row kept" by (simp add: resolved_out_def)
  have sub: "set (map rv_row kept) \<subseteq> excl"
  proof -
    have "set (map rv_row kept) \<subseteq> rv_row ` set res" unfolding kept_def set_map set_filter by (rule image_mono) (simp add: subset_eq)
    also have "\<dots> = lv_row ` {v. row_live nu nd v}" unfolding res(2) image_image by (simp add: live_row_def)
    also have "\<dots> \<subseteq> excl" unfolding res(1) by (rule image_mono) (simp add: subset_eq row_live_def)
    finally show ?thesis .
  qed
  have "distinct (map rv_row kept)" unfolding kept_def using res(3) by (rule distinct_map_filter)
  moreover have "set (map fst out2) \<inter> excl = {}" unfolding set_map out2(3) by (rule equals0I) (elim IntE imageE CollectE conjE, simp)
  then have "set (map rv_row kept) \<inter> set (map fst out2) = {}" using sub by (meson disjoint_iff subsetD)
  ultimately have "distinct (map fst (map resolved_out kept @ out2))"
    unfolding map_append fst_out distinct_append using out2(2) by (intro conjI)
  moreover have "set (map resolved_out kept @ out2) = read_view ups dels ?cols predicate ids"
  proof -
    let ?h = "\<lambda>v. project_row ?cols (version_row v)"
    have row: "fst (?h v) = lv_row v" for v by (simp add: project_row_def version_row_def)
    have "set (map resolved_out kept) = ?h ` {v. row_live nu nd v \<and> keeps predicate (?h v)}"
      unfolding kept_def set_map set_filter res(2) set_filter_image image_image out1 mem_Collect_eq ..
    moreover have "set out2 = ?h ` {v. row_live su sd v \<and> lv_row v \<notin> lv_row ` (nu \<union> nd) \<and> ?P (lv_row v) \<and> keeps predicate (?h v)}"
      unfolding out2(3) snap res(1) image_image set_filter_image row mem_Collect_eq ..
    moreover have "read_view ups dels ?cols predicate ids = ?h ` {v. (row_live ups dels v \<and> ?P (lv_row v)) \<and> keeps predicate (?h v)}"
      unfolding read_view_def set_filter_image row mem_Collect_eq keeps_def conj_assoc ..
    ultimately show ?thesis unfolding set_append split by (simp only: image_Un[symmetric]) (rule arg_cong[of _ _ "image ?h"], auto)
  qed
  ultimately show ?thesis using run by blast
qed

text \<open>C6: a read returns the table as of its snapshot.  When the tiers of the plan hold the versions the
  read may see (hot those above the fence, the persist segments those below it that are past the
  snapshot, the snapshot the rows that were live before), and commit times follow the commit order,
  then the merge returns every row whose newest version is an upsert, once and with that version's
  values, restricted to the requested rows and the filter.\<close>

theorem merge_read_exact:
  assumes ids: "request_row_uuids rq = Inr ids" and some: "ids \<noteq> Some []" and pred: "residual_filter lib (rq_filter rq) = Inr predicate"
    and base: "pl_base plan = None"
    and cold: "cold_sources dl (pl_cold plan) (cold_commit_seq_upper (rq_snapshot rq)) None = Inr cold"
    and load: "snapshot_rows dl plan = Inr batches"
    and tiers: "tiers_hold ups dels fence s_at (hot_sources plan (rq_snapshot rq) None ht log) cold (concat batches)"
    and ordered: "ordered_versions ups" and order: "in_commit_order (ups \<union> dels)"
    and sound: "\<And>sp. plan_snapshot_leg plan = Some sp \<Longrightarrow> prune_sound lib dl (user_cols_of rq) predicate (sp_segments sp)"
    and typed: "\<forall>v. row_live ups dels v \<longrightarrow> (\<forall>f \<in> set (rq_user_schema rq). field_nullable f \<or> \<not> is_null (lv_cols v (field_name f)))"
  shows "\<exists>out. stream_merged lib dl rq plan ht log = Inr out \<and> distinct (map fst out) \<and>
     set out = read_view ups dels (user_cols_of rq) predicate ids"
  by (rule merged_read_rows[OF assms])

section \<open>Own writes of an open transaction\<close>

lemma hot_source_mem:
  "v \<in> set (hot_upsert_source c None ht) \<longleftrightarrow> (\<exists>r m s. r \<in> set (ht_upserts ht) \<and> (up_tx r, m, s) \<in> set c \<and> v = upsert_version r m s)"
  "v \<in> set (hot_delete_source c None ht) \<longleftrightarrow> (\<exists>d m s. d \<in> set (ht_deletes ht) \<and> (dl_tx d, m, s) \<in> set c \<and> v = delete_version d m s)"
proof -
  show "v \<in> set (hot_upsert_source c None ht) \<longleftrightarrow> (\<exists>r m s. r \<in> set (ht_upserts ht) \<and> (up_tx r, m, s) \<in> set c \<and> v = upsert_version r m s)"
    by (auto simp: hot_upsert_source_def row_uuid_in_clause_def image_iff split: prod.splits)
  show "v \<in> set (hot_delete_source c None ht) \<longleftrightarrow> (\<exists>d m s. d \<in> set (ht_deletes ht) \<and> (dl_tx d, m, s) \<in> set c \<and> v = delete_version d m s)"
    by (auto simp: hot_delete_source_def row_uuid_in_clause_def image_iff split: prod.splits)
qed

lemma hot_source_append:
  "set (hot_upsert_source (c @ d) None ht) = set (hot_upsert_source c None ht) \<union> set (hot_upsert_source d None ht)"
  "set (hot_delete_source (c @ d) None ht) = set (hot_delete_source c None ht) \<union> set (hot_delete_source d None ht)"
  unfolding hot_upsert_source_def hot_delete_source_def set_concat set_map image_image filter_append map_append set_append
  by (rule UN_Un_distrib)+

lemma hot_source_single:
  "set (hot_upsert_source [(tx, m, s)] None ht) = (\<lambda>r. upsert_version r m s) ` {r \<in> set (ht_upserts ht). up_tx r = tx}"
  "set (hot_delete_source [(tx, m, s)] None ht) = (\<lambda>d. delete_version d m s) ` {d \<in> set (ht_deletes ht). dl_tx d = tx}"
  by (auto simp: hot_upsert_source_def hot_delete_source_def row_uuid_in_clause_def split: if_splits)

definition own_versions :: "uuid \<Rightarrow> hot_table \<Rightarrow> version set \<times> version set" where
  "own_versions tx ht =
     ((\<lambda>r. upsert_version r i64_max i64_max) ` {r \<in> set (ht_upserts ht). up_tx r = tx},
      (\<lambda>d. delete_version d i64_max i64_max) ` {d \<in> set (ht_deletes ht). dl_tx d = tx})"

lemma open_tx_sources:
  assumes "pl_hot plan = Some hp" "\<forall>c \<in> set (tl_commits log). ct_seq c < i64_max"
  shows "\<exists>ou od. set (fst (hot_sources plan (OpenTx b tx) None ht log)) = fst (own_versions tx ht) \<union> ou \<and>
     set (snd (hot_sources plan (OpenTx b tx) None ht log)) = snd (own_versions tx ht) \<union> od \<and>
     (\<forall>v \<in> ou \<union> od. lv_seq v < i64_max)"
proof -
  define c where "c = map (\<lambda>t. (ct_tx t, ct_micros t, ct_seq t))
    (filter (read_snapshot_clause (Option.bind (hp_commit_seq hp) min_seq) (OpenTx b tx)) (tl_commits log))"
  have "committed_tx (Option.bind (hp_commit_seq hp) min_seq) (tighten_for_hot (OpenTx b tx) m) log = c @ [(tx, i64_max, i64_max)]" for m
    by (simp add: committed_tx_def open_tx_union_clause_def c_def)
  then have src: "hot_sources plan (OpenTx b tx) None ht log =
      (hot_upsert_source (c @ [(tx, i64_max, i64_max)]) None ht, hot_delete_source (c @ [(tx, i64_max, i64_max)]) None ht)"
    using assms(1) by (simp add: hot_sources_def Let_def)
  have seq: "s < i64_max" if "(t, m, s) \<in> set c" for t m s using assms(2) that by (auto simp: c_def)
  show ?thesis
  proof (intro exI conjI)
    show "set (fst (hot_sources plan (OpenTx b tx) None ht log)) = fst (own_versions tx ht) \<union> set (hot_upsert_source c None ht)"
      by (simp add: src own_versions_def hot_source_append hot_source_single Un_commute)
    show "set (snd (hot_sources plan (OpenTx b tx) None ht log)) = snd (own_versions tx ht) \<union> set (hot_delete_source c None ht)"
      by (simp add: src own_versions_def hot_source_append hot_source_single Un_commute)
    show "\<forall>v \<in> set (hot_upsert_source c None ht) \<union> set (hot_delete_source c None ht). lv_seq v < i64_max"
      using seq by (auto simp: hot_source_mem upsert_version_def delete_version_def)
  qed
qed

lemma own_versions_row:
  assumes own: "own_rows h tx us ht" "u \<in> us" and v: "lv_row v = u"
  shows "row_live (fst (own_versions tx ht)) (snd (own_versions tx ht)) v \<longleftrightarrow>
    (\<exists>r. tx_upsert h tx u ht = Some r \<and> v = upsert_version r i64_max i64_max) \<and> row_wins (tx_row h tx u ht)"
proof -
  have up: "w \<in> fst (own_versions tx ht) \<and> lv_row w = u \<longleftrightarrow> (\<exists>r. tx_upsert h tx u ht = Some r \<and> w = upsert_version r i64_max i64_max)" for w
    unfolding own_row_find(1)[OF own] by (auto simp: own_versions_def upsert_version_def)
  have del: "w \<in> snd (own_versions tx ht) \<and> lv_row w = u \<longleftrightarrow> (\<exists>d. tx_delete h tx u ht = Some d \<and> w = delete_version d i64_max i64_max)" for w
    unfolding own_row_find(2)[OF own] by (auto simp: own_versions_def delete_version_def)
  have "row_live (fst (own_versions tx ht)) (snd (own_versions tx ht)) v \<longleftrightarrow>
      (v \<in> fst (own_versions tx ht) \<and> lv_row v = u) \<and>
      (\<forall>w. (w \<in> fst (own_versions tx ht) \<and> lv_row w = u) \<or> (w \<in> snd (own_versions tx ht) \<and> lv_row w = u) \<longrightarrow> \<not> older v w)"
    unfolding row_live_def using v by auto
  also have "\<dots> \<longleftrightarrow> (\<exists>r. tx_upsert h tx u ht = Some r \<and> v = upsert_version r i64_max i64_max) \<and>
      (\<forall>d. tx_delete h tx u ht = Some d \<longrightarrow> \<not> older v (delete_version d i64_max i64_max))"
    unfolding up del by (auto simp: upsert_version_def)
  also have "\<dots> \<longleftrightarrow> (\<exists>r. tx_upsert h tx u ht = Some r \<and> v = upsert_version r i64_max i64_max) \<and> row_wins (tx_row h tx u ht)"
    by (cases "tx_upsert h tx u ht"; cases "tx_delete h tx u ht")
      (auto simp: tx_row_def row_wins_def older_def upsert_version_def delete_version_def)
  finally show ?thesis .
qed


section \<open>Witnesses\<close>

definition demo_version :: "uuid \<Rightarrow> int \<Rightarrow> int \<Rightarrow> int \<Rightarrow> int \<Rightarrow> version" where
  "demo_version u c t w q = \<lparr>lv_row = u, lv_cols = [''v'' \<mapsto> Cell True (VInt c)], lv_micros = t, lv_wseq = w, lv_seq = q\<rparr>"

definition demo_read_segment :: "string \<Rightarrow> persist_segment" where
  "demo_read_segment u = \<lparr>seg_uuid = u, seg_uri = u, seg_format = Parquet, seg_row_count = 1, seg_size_bytes = 1, seg_metadata_json = [],
     seg_statistics = [], seg_offset = None, seg_length = None, seg_max_commit_seq_num = None, seg_content_hash = []\<rparr>"

definition demo_driver :: dl_driver where
  "demo_driver =
     \<lparr>dl_log_rows = (\<lambda>segs. Inr (concat (map (\<lambda>s. if seg_uuid s = ''p''
         then [demo_version ''c'' 3 9 3 1] else [demo_version ''b'' 0 9 2 1]) segs))),
      dl_snapshot_rows = (\<lambda>s. Inr (map version_row [demo_version ''a'' 1 5 0 0, demo_version ''b'' 2 5 1 0]))\<rparr>"

definition demo_plan :: read_plan where
  "demo_plan =
     \<lparr>pl_hot = Some \<lparr>hp_committed_at = None, hp_commit_seq = Some \<lparr>min_seq = Some 1, max_seq = None\<rparr>\<rparr>,
      pl_cold = Some \<lparr>cp_snapshot = Some \<lparr>sp_segments = [\<lparr>sg_uuid = ''s'', sg_snapshot = ''t'', sg_uri = ''s'', sg_format = Parquet, sg_offset = 0,
          sg_length = 1, sg_row_count = 2, sg_size_bytes = 1, sg_statistics = [], sg_row_uuid_index = None, sg_index_sidecars = [], sg_content_hash = []\<rparr>],
          sp_indexes = [], sp_snapshotted_at = 5, sp_seq = 0\<rparr>,
        cp_persist = Some \<lparr>pp_upserts = [demo_read_segment ''p''], pp_deletes = [demo_read_segment ''q''], pp_committed_at = None,
          pp_commit_seq = Some \<lparr>min_seq = None, max_seq = Some 1\<rparr>\<rparr>\<rparr>,
      pl_base = None\<rparr>"

definition demo_request :: merge_request where
  "demo_request = \<lparr>rq_user_schema = [AField ''v'' DtInt64 False], rq_snapshot = LatestSeq 2, rq_filter = None, rq_seeks = None,
     rq_order = ByCompletion, rq_prune_min = 8\<rparr>"

definition demo_merge_lib :: merge_lib where
  "demo_merge_lib = \<lparr>full_plan_predicate = (\<lambda>_. Inl (MergeErr [])), stats_may_match = (\<lambda>_ _. True)\<rparr>"

definition demo_hot :: hot_table where
  "demo_hot = \<lparr>ht_upserts = [\<lparr>up_version = ''x'', up_row = ''a'', up_tx = ''z'', up_wseq = 4, up_cols = [''v'' \<mapsto> Cell True (VInt 4)]\<rparr>],
     ht_deletes = [], ht_write_seq = 5\<rparr>"

lemma demo_hot_sources:
  "hot_sources demo_plan (LatestSeq 2) None demo_hot (demo_log [demo_commit ''z'' 12 2]) = ([demo_version ''a'' 4 12 4 2], [])"
  by (simp add: hot_sources_def demo_plan_def committed_tx_def hot_upsert_source_def hot_delete_source_def extract_committed_at_bounds_def
      read_snapshot_clause_def open_tx_union_clause_def demo_log_def demo_commit_def demo_hot_def upsert_version_def demo_version_def row_uuid_in_clause_def)

lemma demo_cold_sources:
  "cold_sources demo_driver (pl_cold demo_plan) (cold_commit_seq_upper (LatestSeq 2)) None = Inr ([demo_version ''c'' 3 9 3 1], [demo_version ''b'' 0 9 2 1])"
  by (simp add: cold_sources_def demo_plan_def demo_driver_def demo_read_segment_def rbind_def cold_source_def extract_committed_at_bounds_def
      cold_commit_seq_upper_def cold_visibility_clause_def row_uuid_in_clause_def demo_version_def Let_def)

lemma demo_snapshot_rows:
  "snapshot_rows demo_driver demo_plan = Inr [map version_row [demo_version ''a'' 1 5 0 0, demo_version ''b'' 2 5 1 0]]"
  by (simp add: snapshot_rows_def plan_snapshot_leg_def demo_plan_def demo_driver_def rbind_def)

definition demo_upserts :: "version set" where
  "demo_upserts = set [demo_version ''a'' 1 5 0 0, demo_version ''b'' 2 5 1 0, demo_version ''c'' 3 9 3 1, demo_version ''a'' 4 12 4 2]"

definition demo_deletes :: "version set" where
  "demo_deletes = set [demo_version ''b'' 0 9 2 1]"

lemma demo_version_sel [simp]:
  "lv_row (demo_version u c t w q) = u" "lv_cols (demo_version u c t w q) = [''v'' \<mapsto> Cell True (VInt c)]"
  "lv_micros (demo_version u c t w q) = t" "lv_wseq (demo_version u c t w q) = w" "lv_seq (demo_version u c t w q) = q"
  by (simp_all add: demo_version_def)

lemma row_live_list:
  "row_live (set us) (set ds) v \<longleftrightarrow> v \<in> set (filter (\<lambda>v. list_all (\<lambda>w. lv_row w = lv_row v \<longrightarrow> \<not> older v w) (us @ ds)) us)"
  by (auto simp: row_live_def list_all_iff)

lemma demo_live:
  "row_live {v \<in> demo_upserts. \<not> past (Some 5) v} {v \<in> demo_deletes. \<not> past (Some 5) v} v \<longleftrightarrow>
     v \<in> {demo_version ''a'' 1 5 0 0, demo_version ''b'' 2 5 1 0}"
  "row_live demo_upserts demo_deletes v \<longleftrightarrow> v \<in> {demo_version ''c'' 3 9 3 1, demo_version ''a'' 4 12 4 2}"
  unfolding demo_upserts_def demo_deletes_def set_filter[symmetric] row_live_list by (simp_all add: older_def past_def)

lemma demo_tiers:
  "tiers_hold demo_upserts demo_deletes (Some 1) (Some 5) ([demo_version ''a'' 4 12 4 2], []) ([demo_version ''c'' 3 9 3 1], [demo_version ''b'' 0 9 2 1])
     (map version_row [demo_version ''a'' 1 5 0 0, demo_version ''b'' 2 5 1 0])"
  unfolding tiers_hold_def demo_live(1) Collect_mem_eq
  by (auto simp: demo_upserts_def demo_deletes_def above_def past_def version_row_def)

theorem merge_read_exact_witness:
  "\<exists>out. stream_merged demo_merge_lib demo_driver demo_request demo_plan demo_hot (demo_log [demo_commit ''z'' 12 2]) = Inr out \<and>
     distinct (map fst out) \<and> set out = {(''a'', [''v'' \<mapsto> Cell True (VInt 4)]), (''c'', [''v'' \<mapsto> Cell True (VInt 3)])}"
proof -
  have rq: "rq_snapshot demo_request = LatestSeq 2" "user_cols_of demo_request = {''v''}"
    by (simp_all add: demo_request_def user_cols_of_def)
  have view: "read_view demo_upserts demo_deletes {''v''} None None = {(''a'', [''v'' \<mapsto> Cell True (VInt 4)]), (''c'', [''v'' \<mapsto> Cell True (VInt 3)])}"
    unfolding read_view_def demo_live(2) Collect_mem_eq by (auto simp: project_row_def version_row_def row_uuid_in_clause_def)
  have "\<exists>out. stream_merged demo_merge_lib demo_driver demo_request demo_plan demo_hot (demo_log [demo_commit ''z'' 12 2]) = Inr out \<and>
     distinct (map fst out) \<and> set out = read_view demo_upserts demo_deletes (user_cols_of demo_request) None None"
  proof (rule merge_read_exact[where cold = "([demo_version ''c'' 3 9 3 1], [demo_version ''b'' 0 9 2 1])" and fence = "Some 1" and s_at = "Some 5"
        and batches = "[map version_row [demo_version ''a'' 1 5 0 0, demo_version ''b'' 2 5 1 0]]"])
    show "request_row_uuids demo_request = Inr None" by (simp add: request_row_uuids_def demo_request_def identity_row_uuids_def)
    show "residual_filter demo_merge_lib (rq_filter demo_request) = Inr None" by (simp add: residual_filter_def demo_request_def)
    show "pl_base demo_plan = None" by (simp add: demo_plan_def)
    show "ordered_versions demo_upserts" by (auto simp: ordered_versions_def demo_upserts_def older_def)
    show "in_commit_order (demo_upserts \<union> demo_deletes)" by (auto simp: in_commit_order_def demo_upserts_def demo_deletes_def)
    show "\<forall>v. row_live demo_upserts demo_deletes v \<longrightarrow> (\<forall>f \<in> set (rq_user_schema demo_request). field_nullable f \<or> \<not> is_null (lv_cols v (field_name f)))"
      unfolding demo_live(2) by (auto simp: demo_request_def is_null_def)
  qed (simp_all add: rq demo_hot_sources demo_cold_sources demo_snapshot_rows demo_tiers prune_sound_def demo_tiers[simplified])
  then show ?thesis unfolding rq view .
qed


end
