(* ===== verification/Read_Plan.thy ===== *)
theory Read_Plan
  imports Merge_Read Segment_Listing
begin

text \<open>
  The read planner (\<open>penca-api/src/query/meta_plan.rs\<close>, with the watermark functions of
  \<open>penca-storage-meta/src/watermarks.rs\<close>) and the dispatch of a planned read
  (\<open>penca-api/src/query/mod.rs\<close>, \<open>cold_read.rs\<close>): the snapshot a read resolves to and its segments, the
  fence between the hot and the cold tier, the persist segments past the snapshot, and the parent
  of a fork for reads below it.  The statements of a plan run one after the other; the model runs
  them on one state of the catalog.  User-index seeks, which only narrow the rows a scan fetches
  before the filter is applied, and the point-read bypass of \<open>stream_cold_read\<close> are not modelled.
  A row keeps its row UUID in the model's output; the code projects it away last.
\<close>

section \<open>Watermarks\<close>

definition SNAPSHOT_SEQ_GENESIS :: int where "SNAPSHOT_SEQ_GENESIS = -1"

definition compute_snapshot_picker_as_of :: "int \<Rightarrow> int \<Rightarrow> int" where
  "compute_snapshot_picker_as_of as_of_micros cutoff_micros = min as_of_micros (cutoff_micros - 1)"

section \<open>The segments of a snapshot\<close>

record snapshot_result =
  sr_snapshotted_at :: "int option"
  sr_seq :: "int option"
  sr_segments :: "snapshot_segment list"
  sr_indexes :: "snapshot_index_def list"
  sr_partition_keys :: "string list option"
  sr_clustering_keys :: "string list option"

definition no_snapshot :: snapshot_result where
  "no_snapshot = \<lparr>sr_snapshotted_at = None, sr_seq = None, sr_segments = [], sr_indexes = [],
     sr_partition_keys = None, sr_clustering_keys = None\<rparr>"

definition committed_snapshots :: "uuid \<Rightarrow> uuid \<Rightarrow> int option \<Rightarrow> int option \<Rightarrow> cold_catalog \<Rightarrow> snapshot_row list" where
  "committed_snapshots branch table as_of_micros commit_seq_upper cat =
     filter (\<lambda>s. sm_table s = table \<and> sm_branch s = branch \<and> sm_commit s \<noteq> None \<and>
         (case as_of_micros of None \<Rightarrow> True | Some t \<Rightarrow> sm_snapshotted_at s \<le> t) \<and>
         (case commit_seq_upper of None \<Rightarrow> True | Some n \<Rightarrow> sm_seq s \<le> n)) (cat_snapshots cat)"

definition pick_snapshot :: "uuid \<Rightarrow> uuid \<Rightarrow> int option \<Rightarrow> int option \<Rightarrow> cold_catalog \<Rightarrow> snapshot_row option" where
  "pick_snapshot branch table as_of_micros commit_seq_upper cat =
     sql_top (\<lambda>s. (sm_snapshotted_at s, sm_seq s)) (committed_snapshots branch table as_of_micros commit_seq_upper cat)"

text \<open>The two \<open>LEFT JOIN\<close>s: the index parents a planned segment is joined with, and their sidecars.\<close>

definition index_parents :: "uuid \<Rightarrow> uuid option \<Rightarrow> snapshot_seg_row \<Rightarrow> cold_catalog \<Rightarrow> snapshot_index_row option list" where
  "index_parents branch name_index seg cat =
     (let ps = filter (\<lambda>p. si_snapshot p = ss_snapshot seg \<and> si_branch p = branch \<and> si_commit p \<noteq> None \<and>
            (si_index p = None \<or> si_key_columns p \<noteq> None \<or> (name_index \<noteq> None \<and> si_index p = name_index)))
          (cat_snapshot_indexes cat) in
      if ps = [] then [None] else map Some ps)"

definition index_children :: "uuid \<Rightarrow> snapshot_seg_row \<Rightarrow> snapshot_index_row option \<Rightarrow> cold_catalog \<Rightarrow> sidecar_row option list" where
  "index_children branch seg parent cat =
     (let cs = (case parent of
            None \<Rightarrow> []
          | Some p \<Rightarrow> filter (\<lambda>c. sc_snapshot_index c = si_uuid p \<and> sc_segment c = ss_uuid seg \<and> sc_branch c = branch \<and>
              sc_commit c \<noteq> None) (cat_sidecars cat)) in
      if cs = [] then [None] else map Some cs)"

type_synonym snapshot_join_row = "snapshot_seg_row \<times> snapshot_index_row option \<times> sidecar_row option"

definition snapshot_join_rows :: "uuid \<Rightarrow> uuid option \<Rightarrow> snapshot_row \<Rightarrow> cold_catalog \<Rightarrow> snapshot_join_row list" where
  "snapshot_join_rows branch name_index snap cat =
     sort_key (\<lambda>(seg, parent, _). (ss_chunk_idx seg, Option.bind parent si_index))
       (concat (map (\<lambda>seg. concat (map (\<lambda>parent. map (\<lambda>child. (seg, parent, child)) (index_children branch seg parent cat))
            (index_parents branch name_index seg cat)))
         (filter (\<lambda>seg. ss_snapshot seg = sm_uuid snap \<and> ss_branch seg = branch \<and> ss_commit seg \<noteq> None) (cat_snapshot_segs cat))))"

definition decode_child_sidecar :: "sidecar_row option \<Rightarrow> index_sidecar option result" where
  "decode_child_sidecar child =
     (case child of
        None \<Rightarrow> Inr None
      | Some c \<Rightarrow>
          (case format_from_str (sc_format c) of
             Inl e \<Rightarrow> Inl (MetadataErr (''table_snapshot_segment_index_metadata.format decode failed: '' @ e))
           | Inr f \<Rightarrow> Inr (Some \<lparr>is_uri = sc_uri c, is_offset = sc_offset c, is_length = sc_length c, is_format = f,
               is_uuid = sc_uuid c, is_size_bytes = (case sc_size c of None \<Rightarrow> 0 | Some n \<Rightarrow> n), is_content_hash = sc_hash c\<rparr>)))"

definition attach_parent_row :: "uuid option \<Rightarrow> index_sidecar option \<Rightarrow> snapshot_segment \<Rightarrow> snapshot_segment" where
  "attach_parent_row parent_index child segment =
     (case (parent_index, child) of
        (None, sidecar) \<Rightarrow> segment\<lparr>sg_row_uuid_index := sidecar\<rparr>
      | (Some u, Some sidecar) \<Rightarrow> segment\<lparr>sg_index_sidecars := sg_index_sidecars segment @ [(u, sidecar)]\<rparr>
      | (Some u, None) \<Rightarrow> segment)"

definition planned_segment :: "snapshot_seg_row \<Rightarrow> format \<Rightarrow> snapshot_segment" where
  "planned_segment seg f =
     \<lparr>sg_uuid = ss_uuid seg, sg_snapshot = ss_snapshot seg, sg_uri = ss_uri seg, sg_format = f, sg_offset = ss_offset seg,
      sg_length = ss_length seg, sg_row_count = ss_row_count seg,
      sg_size_bytes = (case ss_size seg of None \<Rightarrow> 0 | Some n \<Rightarrow> n),
      sg_statistics = (case ss_statistics seg of None \<Rightarrow> [] | Some b \<Rightarrow> b),
      sg_row_uuid_index = None, sg_index_sidecars = [], sg_content_hash = ss_hash seg\<rparr>"

definition push_index_def :: "snapshot_index_row option \<Rightarrow> snapshot_index_def list \<Rightarrow> snapshot_index_def list" where
  "push_index_def parent defs =
     (case (Option.bind parent si_index, Option.bind parent si_key_columns) of
        (Some idx, Some cols) \<Rightarrow> if idx \<in> xd_index ` set defs then defs else defs @ [\<lparr>xd_index = idx, xd_key_columns = cols\<rparr>]
      | _ \<Rightarrow> defs)"

definition fold_join_row :: "snapshot_row \<Rightarrow> snapshot_result \<Rightarrow> snapshot_join_row \<Rightarrow> snapshot_result result" where
  "fold_join_row snap res row =
     (case row of (seg, parent, child) \<Rightarrow>
      let res1 = (if sr_snapshotted_at res = None
                  then res\<lparr>sr_snapshotted_at := Some (sm_snapshotted_at snap), sr_seq := Some (sm_seq snap),
                           sr_partition_keys := sm_partition_keys snap, sr_clustering_keys := sm_clustering_keys snap\<rparr>
                  else res);
          res2 = res1\<lparr>sr_indexes := push_index_def parent (sr_indexes res1)\<rparr> in
      if ss_row_count seg = 0 then Inr res2
      else (case format_from_str (ss_format seg) of
          Inl e \<Rightarrow> Inl (MetadataErr (''table_snapshot_segment_metadata.format decode failed: '' @ e))
        | Inr f \<Rightarrow>
            rbind (decode_child_sidecar child) (\<lambda>sidecar.
            let segs = (if sr_segments res2 \<noteq> [] \<and> sg_uuid (last (sr_segments res2)) = ss_uuid seg then sr_segments res2
                        else sr_segments res2 @ [planned_segment seg f]) in
            Inr (res2\<lparr>sr_segments := butlast segs @ [attach_parent_row (Option.bind parent si_index) sidecar (last segs)]\<rparr>))))"

definition sort_sidecars :: "snapshot_segment \<Rightarrow> snapshot_segment" where
  "sort_sidecars seg = seg\<lparr>sg_index_sidecars := sort_key fst (sg_index_sidecars seg)\<rparr>"

definition read_snapshot_segments_for_table :: "hash_fn \<Rightarrow> uuid \<Rightarrow> uuid \<Rightarrow> uuid \<Rightarrow> int option \<Rightarrow> int option \<Rightarrow> uuid option \<Rightarrow>
    cold_catalog \<Rightarrow> snapshot_result result" where
  "read_snapshot_segments_for_table h catalog branch table as_of_micros commit_seq_upper pinned cat =
     (let picked = (case pinned of
            Some u \<Rightarrow> find (\<lambda>s. sm_uuid s = u) (committed_snapshots branch table None None cat)
          | None \<Rightarrow> pick_snapshot branch table as_of_micros commit_seq_upper cat) in
      case picked of
        None \<Rightarrow> Inr no_snapshot
      | Some snap \<Rightarrow>
          rbind (rfold (fold_join_row snap) no_snapshot
            (snapshot_join_rows branch (map_option sni_index_uuid (system_name_index_spec h catalog table)) snap cat)) (\<lambda>res.
          Inr (res\<lparr>sr_indexes := sort_key xd_index (sr_indexes res), sr_segments := map sort_sidecars (sr_segments res)\<rparr>)))"

section \<open>The cached segment list\<close>

type_synonym list_key = "uuid \<times> uuid \<times> uuid \<times> int"

record cached_list =
  cl_segments :: "snapshot_segment list"
  cl_indexes :: "snapshot_index_def list"
  cl_seq :: int
  cl_snapshotted_at :: int
  cl_partition_keys :: "string list option"
  cl_clustering_keys :: "string list option"

definition cached_snapshot_list :: "snapshot_result \<Rightarrow> cached_list option" where
  "cached_snapshot_list res =
     (case (sr_snapshotted_at res, sr_seq res) of
        (Some at, Some sq) \<Rightarrow> Some \<lparr>cl_segments = sr_segments res, cl_indexes = sr_indexes res, cl_seq = sq, cl_snapshotted_at = at,
           cl_partition_keys = sr_partition_keys res, cl_clustering_keys = sr_clustering_keys res\<rparr>
      | _ \<Rightarrow> None)"

definition cached_result :: "cached_list \<Rightarrow> snapshot_result" where
  "cached_result hit = \<lparr>sr_snapshotted_at = Some (cl_snapshotted_at hit), sr_seq = Some (cl_seq hit), sr_segments = cl_segments hit,
     sr_indexes = cl_indexes hit, sr_partition_keys = cl_partition_keys hit, sr_clustering_keys = cl_clustering_keys hit\<rparr>"

record picked_snapshot =
  pk_uuid :: uuid
  pk_w_snap :: int

definition list_snapshot_segments :: "hash_fn \<Rightarrow> (list_key \<rightharpoonup> cached_list) option \<Rightarrow> uuid \<Rightarrow> uuid \<Rightarrow> uuid \<Rightarrow> int \<Rightarrow> int option \<Rightarrow>
    picked_snapshot option \<Rightarrow> cold_catalog \<Rightarrow> (snapshot_result \<times> (list_key \<rightharpoonup> cached_list) option) result" where
  "list_snapshot_segments h cache catalog branch table snapshot_as_of commit_seq_upper cache_pick cat =
     (case (cache, cache_pick) of
        (Some c, Some pick) \<Rightarrow>
          (let key = (catalog, branch, table, pk_w_snap pick) in
           case c key of
             Some hit \<Rightarrow> Inr (cached_result hit, cache)
           | None \<Rightarrow>
               rbind (read_snapshot_segments_for_table h catalog branch table None None (Some (pk_uuid pick)) cat) (\<lambda>res.
               Inr (res, Some (case cached_snapshot_list res of None \<Rightarrow> c | Some entry \<Rightarrow> c(key \<mapsto> entry)))))
      | _ \<Rightarrow>
          rbind (read_snapshot_segments_for_table h catalog branch table (Some snapshot_as_of) commit_seq_upper None cat) (\<lambda>res.
          Inr (res, cache)))"

section \<open>Cutoffs\<close>

record branch_row =
  br_uuid :: uuid
  br_parent :: "uuid option"
  br_fork_seq :: int
  br_fork_micros :: int

definition read_branch_lineage :: "uuid \<Rightarrow> branch_row list \<Rightarrow> (uuid \<times> int \<times> int) option" where
  "read_branch_lineage branch branch_store =
     Option.bind (find (\<lambda>b. br_uuid b = branch) branch_store) (\<lambda>b.
     map_option (\<lambda>parent. (parent, br_fork_seq b, br_fork_micros b)) (br_parent b))"

definition hot_min_and_snapshot_pick :: "int \<Rightarrow> uuid \<Rightarrow> uuid \<Rightarrow> int \<Rightarrow> int option \<Rightarrow> int option \<Rightarrow> branch_row list \<Rightarrow> cold_catalog \<Rightarrow>
    int \<times> picked_snapshot option \<times> retention_floor_pick option \<times> (uuid \<times> int \<times> int) option" where
  "hot_min_and_snapshot_pick now branch table as_of_micros commit_seq_upper retention_duration_seconds branch_store cat =
     (let persist_wm = latest_committed_table_persist_watermark branch table cat;
          bound = min as_of_micros (case persist_wm of None \<Rightarrow> -1 | Some p \<Rightarrow> p);
          pick = map_option (\<lambda>s. \<lparr>pk_uuid = sm_uuid s, pk_w_snap = sm_seq s\<rparr>) (pick_snapshot branch table (Some bound) commit_seq_upper cat);
          floor = Option.bind retention_duration_seconds (\<lambda>d. retention_floor_select branch table (now - d * 1000000) cat) in
      (case persist_wm of None \<Rightarrow> 0 | Some p \<Rightarrow> p + 1, pick, floor, read_branch_lineage branch branch_store))"

definition phase_one_fence_and_existence :: "uuid \<Rightarrow> uuid \<Rightarrow> int \<Rightarrow> hot_table \<Rightarrow> cold_catalog \<Rightarrow> int \<times> bool" where
  "phase_one_fence_and_existence branch table w_snap ht cat =
     (case latest_committed_table_purge_seq_watermark branch table cat of None \<Rightarrow> w_snap | Some pu \<Rightarrow> max pu w_snap,
      ht_upserts ht \<noteq> [] \<or> ht_deletes ht \<noteq> [])"

definition cold_committed_at_max :: "int \<Rightarrow> int \<Rightarrow> int" where
  "cold_committed_at_max as_of_micros hot_min = min (i64_saturating_add as_of_micros 1) hot_min"

definition read_persist_segments_for_window :: "uuid \<Rightarrow> uuid \<Rightarrow> int option \<Rightarrow> int option \<Rightarrow> int option \<Rightarrow> cold_catalog \<Rightarrow>
    (persist_segment list \<times> persist_segment list) result" where
  "read_persist_segments_for_window branch table from_micros to_micros commit_seq_upper cat =
     rbind (read_and_classify_persist_segments branch table (map_option (\<lambda>f. i64_saturating_add f (-1)) from_micros)
       (map_option (\<lambda>t. i64_saturating_add t (-1)) to_micros) commit_seq_upper cat) (\<lambda>c.
     Inr (upsert_segments c, delete_segments c))"

definition inherited_own_arm_floor :: "uuid \<Rightarrow> uuid \<Rightarrow> int \<Rightarrow> cold_catalog \<Rightarrow> int option" where
  "inherited_own_arm_floor branch table fork_seq cat =
     (let mins = map ps_min_tx (filter (\<lambda>s. ps_branch s = branch \<and> ps_table s = table \<and> ps_commit s \<noteq> None \<and> ps_min_seq s \<le> fork_seq)
          (cat_persist_segs cat)) in
      if mins = [] then None else Some (Min (set mins)))"

section \<open>Assembling a plan\<close>

record cold_inputs =
  ci_snapshotted_at :: "int option"
  ci_snapshot_seq :: int
  ci_snapshot_segments :: "snapshot_segment list"
  ci_indexes :: "snapshot_index_def list"
  ci_upserts :: "persist_segment list"
  ci_deletes :: "persist_segment list"

definition plan_hot_storage :: "int option \<Rightarrow> int \<Rightarrow> hot_storage_plan" where
  "plan_hot_storage fence as_of_micros =
     \<lparr>hp_committed_at = Some \<lparr>min_micros = None, max_micros = Some as_of_micros\<rparr>,
      hp_commit_seq = map_option (\<lambda>f. \<lparr>min_seq = Some f, max_seq = None\<rparr>) fence\<rparr>"

definition cold_plan_of :: "snapshot_plan option \<Rightarrow> persist_plan option \<Rightarrow> cold_storage_plan option" where
  "cold_plan_of snap persist =
     (if snap \<noteq> None \<or> persist \<noteq> None then Some \<lparr>cp_snapshot = snap, cp_persist = persist\<rparr> else None)"

definition plan_cold_storage :: "int \<Rightarrow> int option \<Rightarrow> int \<Rightarrow> cold_inputs \<Rightarrow> cold_storage_plan option" where
  "plan_cold_storage hot_min fence as_of_micros cold =
     (if hot_min = 0 then None
      else cold_plan_of
        (map_option (\<lambda>ts. \<lparr>sp_segments = ci_snapshot_segments cold, sp_indexes = ci_indexes cold, sp_snapshotted_at = ts,
             sp_seq = ci_snapshot_seq cold\<rparr>) (ci_snapshotted_at cold))
        (if ci_upserts cold = [] \<and> ci_deletes cold = [] then None
         else Some \<lparr>pp_upserts = ci_upserts cold, pp_deletes = ci_deletes cold,
           pp_committed_at = Some \<lparr>min_micros = None, max_micros = Some (i64_saturating_add as_of_micros 1)\<rparr>,
           pp_commit_seq = Some \<lparr>min_seq = None, max_seq = fence\<rparr>\<rparr>))"

definition assemble_plan :: "int \<Rightarrow> int option \<Rightarrow> bool \<Rightarrow> int \<Rightarrow> cold_inputs \<Rightarrow> read_plan" where
  "assemble_plan hot_min fence hot_present as_of_micros cold =
     \<lparr>pl_hot = (if hot_present then Some (plan_hot_storage fence as_of_micros) else None),
      pl_cold = plan_cold_storage hot_min fence as_of_micros cold,
      pl_base = None\<rparr>"

definition enumerate_base_cold_source :: "hash_fn \<Rightarrow> uuid \<Rightarrow> uuid \<Rightarrow> uuid \<Rightarrow> int \<Rightarrow> int \<Rightarrow> cold_catalog \<Rightarrow> base_cold_storage option result" where
  "enumerate_base_cold_source h catalog parent table as_of_micros commit_seq_ceiling cat =
     rbind (read_snapshot_segments_for_table h catalog parent table (Some as_of_micros) (Some commit_seq_ceiling) None cat) (\<lambda>snapshot.
     rbind (read_persist_segments_for_window parent table (map_option (\<lambda>ts. i64_saturating_add ts 1) (sr_snapshotted_at snapshot)) None
       (Some commit_seq_ceiling) cat) (\<lambda>(ups, dels).
     Inr (map_option (\<lambda>cold. \<lparr>bc_cold = cold, bc_ceiling = commit_seq_ceiling\<rparr>)
       (cold_plan_of
         (map_option (\<lambda>ts. \<lparr>sp_segments = sr_segments snapshot, sp_indexes = sr_indexes snapshot, sp_snapshotted_at = ts,
            sp_seq = (case sr_seq snapshot of None \<Rightarrow> SNAPSHOT_SEQ_GENESIS | Some n \<Rightarrow> n)\<rparr>) (sr_snapshotted_at snapshot))
         (if ups = [] \<and> dels = [] then None
          else Some \<lparr>pp_upserts = ups, pp_deletes = dels,
            pp_committed_at = Some \<lparr>min_micros = None, max_micros = Some (i64_saturating_add as_of_micros 1)\<rparr>,
            pp_commit_seq = Some \<lparr>min_seq = None, max_seq = Some commit_seq_ceiling\<rparr>\<rparr>)))))"

definition read_is_below_fork :: "int \<Rightarrow> int option \<Rightarrow> int \<Rightarrow> int \<Rightarrow> bool" where
  "read_is_below_fork as_of_micros commit_seq_upper fork_seq fork_micros =
     (as_of_micros < fork_micros \<or> (case commit_seq_upper of None \<Rightarrow> False | Some n \<Rightarrow> n < fork_seq))"

text \<open>The cold inputs, the fence and the hot-existence gate of a plan.\<close>

definition plan_inputs_of :: "hash_fn \<Rightarrow> (list_key \<rightharpoonup> cached_list) option \<Rightarrow> uuid \<Rightarrow> uuid \<Rightarrow> uuid \<Rightarrow> int \<Rightarrow> int option \<Rightarrow> int \<Rightarrow>
    picked_snapshot option \<Rightarrow> hot_table \<Rightarrow> cold_catalog \<Rightarrow>
    (cold_inputs \<times> int option \<times> bool \<times> (list_key \<rightharpoonup> cached_list) option) result" where
  "plan_inputs_of h cache catalog table branch as_of_micros commit_seq_upper hot_min cache_pick ht cat =
     (if hot_min = 0
      then Inr (\<lparr>ci_snapshotted_at = None, ci_snapshot_seq = 0, ci_snapshot_segments = [], ci_indexes = [], ci_upserts = [], ci_deletes = []\<rparr>,
                None, True, cache)
      else
        rbind (list_snapshot_segments h cache catalog branch table (compute_snapshot_picker_as_of as_of_micros hot_min)
          commit_seq_upper cache_pick cat) (\<lambda>(snapshot, cache').
        let w_snap = (case sr_seq snapshot of None \<Rightarrow> SNAPSHOT_SEQ_GENESIS | Some n \<Rightarrow> n) in
        case phase_one_fence_and_existence branch table w_snap ht cat of (fence, hot_present) \<Rightarrow>
        rbind (read_persist_segments_for_window branch table (map_option (\<lambda>s. i64_saturating_add s 1) (sr_snapshotted_at snapshot))
          (Some (cold_committed_at_max as_of_micros hot_min)) commit_seq_upper cat) (\<lambda>(ups, dels).
        Inr (\<lparr>ci_snapshotted_at = sr_snapshotted_at snapshot, ci_snapshot_seq = w_snap, ci_snapshot_segments = sr_segments snapshot,
              ci_indexes = sr_indexes snapshot, ci_upserts = ups, ci_deletes = dels\<rparr>, Some fence, hot_present, cache'))))"

definition plan :: "hash_fn \<Rightarrow> int \<Rightarrow> (list_key \<rightharpoonup> cached_list) option \<Rightarrow> branch_row list \<Rightarrow> uuid \<Rightarrow> uuid \<Rightarrow> uuid \<Rightarrow> int \<Rightarrow> int option \<Rightarrow>
    int option \<Rightarrow> hot_table \<Rightarrow> cold_catalog \<Rightarrow> (read_plan \<times> retention_floor_pick option \<times> (list_key \<rightharpoonup> cached_list) option) result" where
  "plan h now cache branch_store catalog table branch as_of_micros commit_seq_upper retention_duration_seconds ht cat =
     (case hot_min_and_snapshot_pick now branch table as_of_micros commit_seq_upper retention_duration_seconds branch_store cat of
        (hot_min, cache_pick, floor, lineage) \<Rightarrow>
      rbind (plan_inputs_of h cache catalog table branch as_of_micros commit_seq_upper hot_min cache_pick ht cat) (\<lambda>(cold, fence, hot_present, cache').
      rbind (case lineage of
               Some (parent, fork_seq, fork_micros) \<Rightarrow>
                 if read_is_below_fork as_of_micros commit_seq_upper fork_seq fork_micros
                 then enumerate_base_cold_source h catalog parent table as_of_micros
                        (case commit_seq_upper of None \<Rightarrow> fork_seq | Some n \<Rightarrow> min fork_seq n) cat
                 else Inr None
             | None \<Rightarrow> Inr None) (\<lambda>base.
      Inr ((assemble_plan hot_min fence hot_present as_of_micros cold)\<lparr>pl_base := base\<rparr>, floor, cache'))))"

definition retention_floor_below :: "retention_floor_pick \<Rightarrow> int \<Rightarrow> int option \<Rightarrow> bool" where
  "retention_floor_below floor as_of_micros commit_seq_upper =
     (case commit_seq_upper of Some n \<Rightarrow> n < rf_commit_seq_num floor | None \<Rightarrow> as_of_micros < rf_snapshotted_at floor)"

section \<open>Dispatch\<close>

definition is_all_hot :: "read_plan \<Rightarrow> bool" where
  "is_all_hot p =
     (if pl_base p \<noteq> None then False
      else case pl_cold p of None \<Rightarrow> True | Some c \<Rightarrow> cp_persist c = None \<and> cp_snapshot c = None)"

definition is_all_cold :: "read_plan \<Rightarrow> bool" where
  "is_all_cold p = (pl_hot p = None)"

definition has_filter :: "merge_request \<Rightarrow> bool" where
  "has_filter rq = (case rq_filter rq of None \<Rightarrow> False | Some f \<Rightarrow> f \<noteq> [])"

definition stream_all_hot :: "merge_lib \<Rightarrow> merge_request \<Rightarrow> uuid list option \<Rightarrow> read_plan \<Rightarrow> hot_table \<Rightarrow> tx_log \<Rightarrow> out_row list result" where
  "stream_all_hot lib rq row_uuids p ht log =
     (case pl_hot p of
        None \<Rightarrow> Inr []
      | Some hp \<Rightarrow>
          let inner = build_merge_resolved (user_cols_of rq) (Option.bind (hp_commit_seq hp) min_seq)
                (tighten_for_hot (rq_snapshot rq) (snd (extract_committed_at_bounds (hp_committed_at hp)))) row_uuids ht log;
              live = filter_live_rows inner in
          if rq_user_schema rq = [] \<and> \<not> has_filter rq then Inr (map resolved_out live)
          else if rq_user_schema rq = [] then Inl (Internal ''all-hot read has a residual filter but a 0-column projection: the filter's columns were not projected (CHA-368 invariant)'')
          else if \<not> has_filter rq then project_resolved (rq_user_schema rq) live
          else rbind (residual_filter lib (rq_filter rq)) (\<lambda>predicate.
               rbind (project_resolved (rq_user_schema rq) live) (\<lambda>out.
               Inr (case predicate of None \<Rightarrow> out | Some p \<Rightarrow> filter p out))))"

definition read_dispatch :: "merge_lib \<Rightarrow> dl_driver \<Rightarrow> merge_request \<Rightarrow> uuid list option \<Rightarrow> read_plan \<Rightarrow> hot_table \<Rightarrow> tx_log \<Rightarrow> out_row list result" where
  "read_dispatch lib dl rq row_uuids p ht log =
     (if is_all_hot p then stream_all_hot lib rq row_uuids p ht log
      else let rq' = rq\<lparr>rq_seeks := identity_seeks row_uuids, rq_order := ByCompletion\<rparr> in
           if is_all_cold p then stream_all_cold lib dl rq' p else stream_merged lib dl rq' p ht log)"

definition read_data :: "merge_lib \<Rightarrow> dl_driver \<Rightarrow> hash_fn \<Rightarrow> int \<Rightarrow> (list_key \<rightharpoonup> cached_list) option \<Rightarrow> branch_row list \<Rightarrow> uuid \<Rightarrow> uuid \<Rightarrow> uuid \<Rightarrow>
    int option \<Rightarrow> merge_request \<Rightarrow> uuid list option \<Rightarrow> hot_table \<Rightarrow> tx_log \<Rightarrow> cold_catalog \<Rightarrow> out_row list result" where
  "read_data lib dl h now cache branch_store catalog table branch retention_duration_seconds rq row_uuids ht log cat =
     rbind (plan h now cache branch_store catalog table branch (plan_as_of_micros (rq_snapshot rq)) (plan_commit_seq_upper (rq_snapshot rq))
       retention_duration_seconds ht cat) (\<lambda>(p, floor, _).
     case floor of
       None \<Rightarrow> read_dispatch lib dl rq row_uuids p ht log
     | Some f \<Rightarrow>
         if retention_floor_below f (plan_as_of_micros (rq_snapshot rq)) (plan_commit_seq_upper (rq_snapshot rq))
         then Inl (FailedPrecondition (''as_of precedes retention horizon (floor: commit_seq_num='' @ show_int (rf_commit_seq_num f) @
           '', snapshotted_at_micros='' @ show_int (rf_snapshotted_at f) @ '')''))
         else read_dispatch lib dl rq row_uuids p ht log)"

section \<open>Planned segments\<close>

definition push_uuid :: "uuid \<Rightarrow> uuid list \<Rightarrow> uuid list" where
  "push_uuid u us = (if us \<noteq> [] \<and> last us = u then us else us @ [u])"

lemma attach_parent_row_uuid [simp]: "sg_uuid (attach_parent_row p c seg) = sg_uuid seg"
  by (auto simp: attach_parent_row_def split: option.splits)

lemma sort_sidecars_uuid [simp]: "sg_uuid (sort_sidecars seg) = sg_uuid seg"
  by (simp add: sort_sidecars_def)

lemma map_replace_last: "xs \<noteq> [] \<Longrightarrow> f y = f (last xs) \<Longrightarrow> map f (butlast xs @ [y]) = map f xs"
  by (metis append_butlast_last_id list.simps(8,9) map_append)

definition row_formats_ok :: "snapshot_join_row \<Rightarrow> bool" where
  "row_formats_ok row = (case row of (seg, _, child) \<Rightarrow>
     is_ok (format_from_str (ss_format seg)) \<and> (case child of None \<Rightarrow> True | Some c \<Rightarrow> is_ok (format_from_str (sc_format c))))"

lemma fold_join_row_step:
  assumes ok: "row_formats_ok row"
    and at: "sr_snapshotted_at res = None \<or> (sr_snapshotted_at res = Some (sm_snapshotted_at snap) \<and> sr_seq res = Some (sm_seq snap))"
  shows "\<exists>res'. fold_join_row snap res row = Inr res' \<and> sr_snapshotted_at res' = Some (sm_snapshotted_at snap) \<and> sr_seq res' = Some (sm_seq snap) \<and>
     map sg_uuid (sr_segments res') =
       (if ss_row_count (fst row) = 0 then map sg_uuid (sr_segments res) else push_uuid (ss_uuid (fst row)) (map sg_uuid (sr_segments res)))"
proof -
  obtain seg parent child where row: "row = (seg, parent, child)" by (cases row)
  obtain f where f: "format_from_str (ss_format seg) = Inr f" using ok by (auto simp: row row_formats_ok_def is_ok_iff)
  obtain sc where sc: "decode_child_sidecar child = Inr sc"
    using ok by (auto simp: row row_formats_ok_def is_ok_iff decode_child_sidecar_def split: option.splits)
  show ?thesis
  proof (cases "ss_row_count seg = 0")
    case True
    then show ?thesis using at by (auto simp: row fold_join_row_def Let_def)
  next
    case False
    let ?segs = "if sr_segments res \<noteq> [] \<and> sg_uuid (last (sr_segments res)) = ss_uuid seg then sr_segments res
      else sr_segments res @ [planned_segment seg f]"
    have "map sg_uuid (butlast ?segs @ [attach_parent_row (Option.bind parent si_index) sc (last ?segs)]) = map sg_uuid ?segs"
      by (rule map_replace_last) simp_all
    also have "\<dots> = push_uuid (ss_uuid seg) (map sg_uuid (sr_segments res))"
      by (cases "sr_segments res = []") (simp_all add: push_uuid_def planned_segment_def last_map)
    finally have segs: "map sg_uuid (butlast ?segs @ [attach_parent_row (Option.bind parent si_index) sc (last ?segs)]) =
      push_uuid (ss_uuid seg) (map sg_uuid (sr_segments res))" .
    show ?thesis using at False f sc segs by (auto simp: row fold_join_row_def Let_def)
  qed
qed

lemma fold_join_rows:
  assumes "\<forall>row \<in> set R. row_formats_ok row"
    and "sr_snapshotted_at res = None \<or> (sr_snapshotted_at res = Some (sm_snapshotted_at snap) \<and> sr_seq res = Some (sm_seq snap))"
  shows "\<exists>res'. rfold (fold_join_row snap) res R = Inr res' \<and>
     (R \<noteq> [] \<longrightarrow> sr_snapshotted_at res' = Some (sm_snapshotted_at snap) \<and> sr_seq res' = Some (sm_seq snap)) \<and> (R = [] \<longrightarrow> res' = res) \<and>
     map sg_uuid (sr_segments res') =
       fold push_uuid (map (\<lambda>row. ss_uuid (fst row)) (filter (\<lambda>row. ss_row_count (fst row) \<noteq> 0) R)) (map sg_uuid (sr_segments res))"
  using assms
proof (induction R arbitrary: res)
  case (Cons row R)
  obtain res1 where res1: "fold_join_row snap res row = Inr res1" "sr_snapshotted_at res1 = Some (sm_snapshotted_at snap)" "sr_seq res1 = Some (sm_seq snap)"
    "map sg_uuid (sr_segments res1) =
       (if ss_row_count (fst row) = 0 then map sg_uuid (sr_segments res) else push_uuid (ss_uuid (fst row)) (map sg_uuid (sr_segments res)))"
    using fold_join_row_step[of row res snap] Cons.prems by auto
  obtain res2 where "rfold (fold_join_row snap) res1 R = Inr res2"
    "R \<noteq> [] \<longrightarrow> sr_snapshotted_at res2 = Some (sm_snapshotted_at snap) \<and> sr_seq res2 = Some (sm_seq snap)" "R = [] \<longrightarrow> res2 = res1"
    "map sg_uuid (sr_segments res2) =
       fold push_uuid (map (\<lambda>row. ss_uuid (fst row)) (filter (\<lambda>row. ss_row_count (fst row) \<noteq> 0) R)) (map sg_uuid (sr_segments res1))"
    using Cons.IH[of res1] Cons.prems(1) res1(2,3) by auto
  then show ?case using res1 by (cases "R = []") (auto simp: rbind_def)
qed simp

lemma push_grouped:
  assumes "sorted (map f xs)" "\<forall>x \<in> set xs. \<forall>y \<in> set xs. f x = f y \<longleftrightarrow> u x = (u y :: uuid)"
  shows "distinct (fold push_uuid (map u xs) []) \<and> set (fold push_uuid (map u xs) []) = u ` set xs \<and>
    (xs \<noteq> [] \<longrightarrow> last (fold push_uuid (map u xs) []) = u (last xs) \<and> fold push_uuid (map u xs) [] \<noteq> [])"
  using assms
proof (induction xs rule: rev_induct)
  case (snoc x xs)
  let ?ys = "fold push_uuid (map u xs) []"
  have IH: "distinct ?ys" "set ?ys = u ` set xs" "xs \<noteq> [] \<Longrightarrow> last ?ys = u (last xs) \<and> ?ys \<noteq> []"
    using snoc by (auto simp: sorted_append)
  have new: "u x \<notin> set ?ys" if last: "xs \<noteq> []" "u (last xs) \<noteq> u x"
  proof
    assume "u x \<in> set ?ys"
    then obtain z where z: "z \<in> set xs" "u z = u x" using IH(2) by auto
    then have "f z = f x" using snoc.prems(2) by auto
    moreover have "f z \<le> f (last xs)" using snoc.prems(1) z(1) last(1)
      by (cases xs rule: rev_cases) (auto simp: sorted_append)
    moreover have "f (last xs) \<le> f x" using snoc.prems(1) last(1) by (simp add: sorted_append)
    ultimately have "f (last xs) = f x" by simp
    then show False using snoc.prems(2) last by auto
  qed
  have step: "fold push_uuid (map u (xs @ [x])) [] = push_uuid (u x) ?ys" by simp
  show ?case
  proof (cases "xs = []")
    case True
    then show ?thesis unfolding step by (simp add: push_uuid_def)
  next
    case False
    note ys = IH(3)[OF False]
    show ?thesis
    proof (cases "u (last xs) = u x")
      case True
      then have "push_uuid (u x) ?ys = ?ys" using ys by (simp add: push_uuid_def[of "u x" ?ys])
      moreover have "u x \<in> u ` set xs" using True False last_in_set[OF False] by (metis imageI)
      ultimately show ?thesis unfolding step using IH(1,2) ys True False by auto
    next
      case new_row: False
      then have "push_uuid (u x) ?ys = ?ys @ [u x]" using ys by (simp add: push_uuid_def[of "u x" ?ys])
      then show ?thesis unfolding step using IH(1,2) new[OF False new_row] by auto
    qed
  qed
qed simp

section \<open>The snapshot a read resolves to\<close>

definition snapshot_segment_rows :: "uuid \<Rightarrow> snapshot_row \<Rightarrow> cold_catalog \<Rightarrow> snapshot_seg_row set" where
  "snapshot_segment_rows branch snap cat =
     {seg \<in> set (cat_snapshot_segs cat). ss_snapshot seg = sm_uuid snap \<and> ss_branch seg = branch \<and> ss_commit seg \<noteq> None}"

text \<open>Segment rows of one snapshot are told apart by their chunk index as by their identity, and every format
  column holds a known format.\<close>

definition snapshot_rows_wf :: "uuid \<Rightarrow> cold_catalog \<Rightarrow> bool" where
  "snapshot_rows_wf branch cat =
     ((\<forall>s \<in> set (cat_snapshot_segs cat). \<forall>t \<in> set (cat_snapshot_segs cat).
         ss_branch s = branch \<and> ss_branch t = branch \<and> ss_snapshot s = ss_snapshot t \<longrightarrow> (ss_chunk_idx s = ss_chunk_idx t \<longleftrightarrow> ss_uuid s = ss_uuid t)) \<and>
      (\<forall>s \<in> set (cat_snapshot_segs cat). is_ok (format_from_str (ss_format s))) \<and>
      (\<forall>c \<in> set (cat_sidecars cat). is_ok (format_from_str (sc_format c))))"

lemma index_parents_nonempty [simp]: "index_parents branch n seg cat \<noteq> []"
  by (simp add: index_parents_def Let_def)

lemma index_children_nonempty [simp]: "index_children branch seg p cat \<noteq> []"
  by (simp add: index_children_def Let_def)

lemma index_children_mem: "Some c \<in> set (index_children branch seg p cat) \<Longrightarrow> c \<in> set (cat_sidecars cat)"
  by (auto simp: index_children_def Let_def split: option.splits if_splits)

lemma snapshot_join_rows_segs:
  "fst ` set (snapshot_join_rows branch n snap cat) = snapshot_segment_rows branch snap cat"
proof -
  have one: "fst ` (\<Union>p \<in> set (index_parents branch n seg cat). (\<lambda>c. (seg, p, c)) ` set (index_children branch seg p cat)) = {seg}" for seg
    by (simp add: image_UN image_image image_constant_conv)
  have "fst ` set (snapshot_join_rows branch n snap cat) =
      (\<Union>seg \<in> snapshot_segment_rows branch snap cat.
        fst ` (\<Union>p \<in> set (index_parents branch n seg cat). (\<lambda>c. (seg, p, c)) ` set (index_children branch seg p cat)))"
    unfolding snapshot_join_rows_def snapshot_segment_rows_def set_sort set_concat set_map set_filter image_image image_UN ..
  then show ?thesis unfolding one by simp
qed

lemma snapshot_join_rows_ok:
  assumes "snapshot_rows_wf branch cat" "row \<in> set (snapshot_join_rows branch n snap cat)"
  shows "row_formats_ok row"
proof -
  obtain seg p c where row: "row = (seg, p, c)" by (cases row)
  have seg: "seg \<in> set (cat_snapshot_segs cat)" using snapshot_join_rows_segs[of branch n snap cat] assms(2) unfolding row snapshot_segment_rows_def by force
  have "c \<in> set (index_children branch seg p cat)" using assms(2) unfolding row snapshot_join_rows_def by auto
  then have "case c of None \<Rightarrow> True | Some c \<Rightarrow> is_ok (format_from_str (sc_format c))"
    using assms(1) index_children_mem[of _ branch seg p cat] unfolding snapshot_rows_wf_def by (auto split: option.splits)
  then show ?thesis using assms(1) seg unfolding row row_formats_ok_def snapshot_rows_wf_def by simp
qed

text \<open>The planned segments of a snapshot are its committed, non-empty segment rows, each once.\<close>

lemma snapshot_segments_read:
  assumes wf: "snapshot_rows_wf branch cat" and pick: "pick_snapshot branch table (Some t) n cat = Some snap"
  shows "\<exists>res. read_snapshot_segments_for_table h catalog branch table (Some t) n None cat = Inr res \<and>
     distinct (map sg_uuid (sr_segments res)) \<and>
     set (map sg_uuid (sr_segments res)) = ss_uuid ` {s \<in> snapshot_segment_rows branch snap cat. ss_row_count s \<noteq> 0} \<and>
     (if snapshot_segment_rows branch snap cat = {} then res = no_snapshot
      else sr_snapshotted_at res = Some (sm_snapshotted_at snap) \<and> sr_seq res = Some (sm_seq snap))"
proof -
  let ?n = "map_option sni_index_uuid (system_name_index_spec h catalog table)"
  define R where "R = snapshot_join_rows branch ?n snap cat"
  define Q where "Q = filter (\<lambda>row. ss_row_count (fst row) \<noteq> 0) R"
  have segs: "fst ` set R = snapshot_segment_rows branch snap cat" unfolding R_def by (rule snapshot_join_rows_segs)
  have ok: "\<forall>row \<in> set R. row_formats_ok row" using snapshot_join_rows_ok[OF wf] unfolding R_def by blast
  obtain res where res: "rfold (fold_join_row snap) no_snapshot R = Inr res"
    "R \<noteq> [] \<longrightarrow> sr_snapshotted_at res = Some (sm_snapshotted_at snap) \<and> sr_seq res = Some (sm_seq snap)" "R = [] \<longrightarrow> res = no_snapshot"
    "map sg_uuid (sr_segments res) = fold push_uuid (map (\<lambda>row. ss_uuid (fst row)) Q) []"
    using fold_join_rows[OF ok, of no_snapshot snap] unfolding Q_def by (auto simp: no_snapshot_def)
  have "sorted (map (\<lambda>(seg, parent, _). (ss_chunk_idx seg, Option.bind parent si_index)) R)"
    unfolding R_def snapshot_join_rows_def by (rule sorted_sort_key)
  then have "sorted (map (\<lambda>row. ss_chunk_idx (fst row)) R)"
    by (simp add: sorted_wrt_map split_beta less_eq_prod_simp) (rule sorted_wrt_mono_rel, auto)
  then have sorted: "sorted (map (\<lambda>row. ss_chunk_idx (fst row)) Q)" unfolding Q_def by (rule sorted_filter)
  have "\<forall>x \<in> set Q. \<forall>y \<in> set Q. ss_chunk_idx (fst x) = ss_chunk_idx (fst y) \<longleftrightarrow> ss_uuid (fst x) = ss_uuid (fst y)"
  proof (intro ballI)
    fix x y assume "x \<in> set Q" "y \<in> set Q"
    then have "fst x \<in> snapshot_segment_rows branch snap cat" "fst y \<in> snapshot_segment_rows branch snap cat"
      unfolding segs[symmetric] Q_def by simp_all
    then show "ss_chunk_idx (fst x) = ss_chunk_idx (fst y) \<longleftrightarrow> ss_uuid (fst x) = ss_uuid (fst y)"
      using wf unfolding snapshot_rows_wf_def snapshot_segment_rows_def by auto
  qed
  from push_grouped[OF sorted this] have uuids: "distinct (map sg_uuid (sr_segments res))" "set (map sg_uuid (sr_segments res)) = (\<lambda>row. ss_uuid (fst row)) ` set Q"
    unfolding res(4) by blast+
  have "(\<lambda>row. ss_uuid (fst row)) ` set Q = ss_uuid ` (fst ` set Q)" by (simp add: image_image)
  also have "fst ` set Q = {s \<in> snapshot_segment_rows branch snap cat. ss_row_count s \<noteq> 0}" unfolding Q_def segs[symmetric] by auto
  finally have set: "set (map sg_uuid (sr_segments res)) = ss_uuid ` {s \<in> snapshot_segment_rows branch snap cat. ss_row_count s \<noteq> 0}" using uuids(2) by simp
  define out where "out = res\<lparr>sr_indexes := sort_key xd_index (sr_indexes res), sr_segments := map sort_sidecars (sr_segments res)\<rparr>"
  have run: "read_snapshot_segments_for_table h catalog branch table (Some t) n None cat = Inr out"
    using res(1) pick unfolding out_def R_def by (simp add: read_snapshot_segments_for_table_def)
  have same: "map sg_uuid (sr_segments out) = map sg_uuid (sr_segments res)" by (simp add: out_def)
  show ?thesis
  proof (intro exI conjI)
    show "read_snapshot_segments_for_table h catalog branch table (Some t) n None cat = Inr out" by (rule run)
    show "distinct (map sg_uuid (sr_segments out))" unfolding same by (rule uuids(1))
    show "set (map sg_uuid (sr_segments out)) = ss_uuid ` {s \<in> snapshot_segment_rows branch snap cat. ss_row_count s \<noteq> 0}" unfolding same by (rule set)
    show "if snapshot_segment_rows branch snap cat = {} then out = no_snapshot
      else sr_snapshotted_at out = Some (sm_snapshotted_at snap) \<and> sr_seq out = Some (sm_seq snap)"
    proof (cases "R = []")
      case True
      then have "snapshot_segment_rows branch snap cat = {}" using segs by simp
      then show ?thesis using res(3) True by (simp add: out_def no_snapshot_def)
    next
      case False
      then have "snapshot_segment_rows branch snap cat \<noteq> {}" using segs by auto
      then show ?thesis using res(2) False by (simp add: out_def)
    qed
  qed
qed

section \<open>A planned read is exact\<close>

text \<open>The versions a read may see.\<close>

definition visible :: "read_snapshot \<Rightarrow> version \<Rightarrow> bool" where
  "visible snap v =
     (case snap of
        AsOfMicros ts \<Rightarrow> lv_micros v \<le> ts
      | AsOfSeq n \<Rightarrow> lv_seq v \<le> n
      | LatestSeq n \<Rightarrow> lv_seq v \<le> n
      | OpenTx b _ \<Rightarrow> lv_seq v < b)"

definition kind_versions :: "log_kind \<Rightarrow> version set \<Rightarrow> version set \<Rightarrow> version set" where
  "kind_versions k ups dels = (case k of UpsertLog \<Rightarrow> ups | DeleteLog \<Rightarrow> dels)"

text \<open>What the lifecycle keeps true of a table with history \<open>ups\<close> and \<open>dels\<close>.  The hot logs hold every version above
  the purge watermark.\<close>

definition hot_holds :: "version set \<Rightarrow> version set \<Rightarrow> int option \<Rightarrow> hot_table \<Rightarrow> tx_log \<Rightarrow> bool" where
  "hot_holds ups dels pu ht log =
     (set (read_committed_upserts None None ht log) \<subseteq> ups \<and> {v \<in> ups. above pu v} \<subseteq> set (read_committed_upserts None None ht log) \<and>
      set (read_committed_deletes None None ht log) \<subseteq> dels \<and> {v \<in> dels. above pu v} \<subseteq> set (read_committed_deletes None None ht log))"

text \<open>A listed segment holds versions of its kind within its recorded bounds.\<close>

definition segments_sound :: "(uuid \<Rightarrow> version list) \<Rightarrow> uuid \<Rightarrow> uuid \<Rightarrow> cold_catalog \<Rightarrow> version set \<Rightarrow> version set \<Rightarrow> bool" where
  "segments_sound content branch table cat ups dels =
     (\<forall>s \<in> set (cat_persist_segs cat). \<forall>k. listed branch table cat s = Some (k, s) \<longrightarrow>
        is_ok (format_from_str (ps_format s)) \<and> (ps_row_count s = 0 \<longrightarrow> content (ps_uuid s) = []) \<and>
        (\<forall>v \<in> set (content (ps_uuid s)). v \<in> kind_versions k ups dels \<and>
           ps_min_tx s \<le> lv_micros v \<and> lv_micros v \<le> ps_max_tx s \<and> ps_min_seq s \<le> lv_seq v))"

text \<open>Every version the purge or a snapshot watermark covers is in a listed segment and at or below the persist
  watermark.\<close>

definition segments_complete :: "(uuid \<Rightarrow> version list) \<Rightarrow> uuid \<Rightarrow> uuid \<Rightarrow> cold_catalog \<Rightarrow> version set \<Rightarrow> version set \<Rightarrow> bool" where
  "segments_complete content branch table cat ups dels =
     (\<forall>k. \<forall>v \<in> kind_versions k ups dels.
        ((\<exists>pu. latest_committed_table_purge_seq_watermark branch table cat = Some pu \<and> lv_seq v \<le> pu) \<or>
         (\<exists>s \<in> set (committed_snapshots branch table None None cat). lv_seq v \<le> sm_seq s)) \<longrightarrow>
        (\<exists>wm. latest_committed_table_persist_watermark branch table cat = Some wm \<and> lv_micros v \<le> wm) \<and>
        (\<exists>s \<in> set (cat_persist_segs cat). listed branch table cat s = Some (k, s) \<and> v \<in> set (content (ps_uuid s))))"

text \<open>No listed segment reaches from a snapshot's past into its future.\<close>

definition no_straddle :: "uuid \<Rightarrow> uuid \<Rightarrow> cold_catalog \<Rightarrow> bool" where
  "no_straddle branch table cat =
     (\<forall>s \<in> set (cat_persist_segs cat). \<forall>k. listed branch table cat s = Some (k, s) \<longrightarrow>
        (\<forall>snap \<in> set (committed_snapshots branch table None None cat).
           ps_max_tx s \<le> sm_snapshotted_at snap \<or> sm_snapshotted_at snap < ps_min_tx s))"

text \<open>A committed snapshot has segments, holds the rows that were live at its time, each in one segment, and its
  commit position covers them.\<close>

definition snapshots_sound :: "(uuid \<Rightarrow> out_row list) \<Rightarrow> uuid \<Rightarrow> uuid \<Rightarrow> cold_catalog \<Rightarrow> version set \<Rightarrow> version set \<Rightarrow> bool" where
  "snapshots_sound rows_of branch table cat ups dels =
     (snapshot_rows_wf branch cat \<and>
      (\<forall>snap \<in> set (committed_snapshots branch table None None cat).
        let at = Some (sm_snapshotted_at snap); segs = snapshot_segment_rows branch snap cat in
        segs \<noteq> {} \<and>
        (\<forall>s \<in> segs. distinct (map fst (rows_of (ss_uuid s))) \<and> (ss_row_count s = 0 \<longrightarrow> rows_of (ss_uuid s) = [])) \<and>
        (\<forall>s \<in> segs. \<forall>t \<in> segs. ss_uuid s \<noteq> ss_uuid t \<longrightarrow> fst ` set (rows_of (ss_uuid s)) \<inter> fst ` set (rows_of (ss_uuid t)) = {}) \<and>
        (\<Union>s \<in> segs. set (rows_of (ss_uuid s))) =
          version_row ` {v. row_live {v \<in> ups. \<not> past at v} {v \<in> dels. \<not> past at v} v} \<and>
        (\<forall>v \<in> ups \<union> dels. \<not> past at v \<longrightarrow> lv_seq v \<le> sm_seq snap)))"

text \<open>The cold driver reads a segment's rows; the rows of a log scan are those of its segments.\<close>

definition driver_reads :: "dl_driver \<Rightarrow> (uuid \<Rightarrow> version list) \<Rightarrow> (uuid \<Rightarrow> out_row list) \<Rightarrow> bool" where
  "driver_reads dl content rows_of =
     ((\<forall>segs. dl_log_rows dl segs = Inr (concat (map (\<lambda>s. content (seg_uuid s)) segs))) \<and>
      (\<forall>seg. dl_snapshot_rows dl seg = Inr (rows_of (sg_uuid seg))))"

lemma read_committed_mem:
  "v \<in> set (read_committed_upserts None None ht log) \<longleftrightarrow>
     (\<exists>u \<in> set (ht_upserts ht). \<exists>t \<in> set (tl_commits log). ct_tx t = up_tx u \<and> v = upsert_version u (ct_micros t) (ct_seq t))"
  "v \<in> set (read_committed_deletes None None ht log) \<longleftrightarrow>
     (\<exists>d \<in> set (ht_deletes ht). \<exists>t \<in> set (tl_commits log). ct_tx t = dl_tx d \<and> v = delete_version d (ct_micros t) (ct_seq t))"
  by (auto simp: read_committed_upserts_def read_committed_deletes_def build_committed_at_filter_def)

lemma tighten_for_hot_as_of: "tighten_for_hot snap (Some (plan_as_of_micros snap)) = snap"
  by (cases snap) simp_all

lemma committed_tx_mem:
  assumes "open_tx_uuid snap = None"
  shows "(tx, m, s) \<in> set (committed_tx fence snap log) \<longleftrightarrow>
    (\<exists>t \<in> set (tl_commits log). read_snapshot_clause fence snap t \<and> tx = ct_tx t \<and> m = ct_micros t \<and> s = ct_seq t)"
  using assms by (auto simp: committed_tx_def open_tx_union_clause_def)

lemma clause_versions:
  "read_snapshot_clause fence snap t \<longleftrightarrow> above fence (upsert_version u (ct_micros t) (ct_seq t)) \<and> visible snap (upsert_version u (ct_micros t) (ct_seq t))"
  "read_snapshot_clause fence snap t \<longleftrightarrow> above fence (delete_version d (ct_micros t) (ct_seq t)) \<and> visible snap (delete_version d (ct_micros t) (ct_seq t))"
  by (auto simp: read_snapshot_clause_def above_def visible_def upsert_version_def delete_version_def split: option.splits read_snapshot.splits)

lemma planned_hot_sources:
  assumes "pl_hot p = Some (plan_hot_storage fence (plan_as_of_micros snap))" "open_tx_uuid snap = None"
  shows "set (fst (hot_sources p snap None ht log)) = {v \<in> set (read_committed_upserts None None ht log). above fence v \<and> visible snap v}"
    "set (snd (hot_sources p snap None ht log)) = {v \<in> set (read_committed_deletes None None ht log). above fence v \<and> visible snap v}"
proof -
  have lower: "Option.bind (map_option (\<lambda>f. \<lparr>min_seq = Some f, max_seq = None\<rparr>) fence) min_seq = fence" by (cases fence) simp_all
  have src: "hot_sources p snap None ht log =
      (hot_upsert_source (committed_tx fence snap log) None ht, hot_delete_source (committed_tx fence snap log) None ht)"
    using assms(1) by (simp add: hot_sources_def plan_hot_storage_def extract_committed_at_bounds_def tighten_for_hot_as_of lower Let_def)
  show "set (fst (hot_sources p snap None ht log)) = {v \<in> set (read_committed_upserts None None ht log). above fence v \<and> visible snap v}"
    unfolding src fst_conv set_eq_iff hot_source_mem(1) mem_Collect_eq read_committed_mem(1) committed_tx_mem[OF assms(2)]
    by (metis clause_versions(1))
  show "set (snd (hot_sources p snap None ht log)) = {v \<in> set (read_committed_deletes None None ht log). above fence v \<and> visible snap v}"
    unfolding src snd_conv set_eq_iff hot_source_mem(2) mem_Collect_eq read_committed_mem(2) committed_tx_mem[OF assms(2)]
    by (metis clause_versions(2))
qed

text \<open>The versions in the listed segments of a kind that overlap a window.\<close>

definition window_versions :: "(uuid \<Rightarrow> version list) \<Rightarrow> uuid \<Rightarrow> uuid \<Rightarrow> int option \<Rightarrow> int option \<Rightarrow> int option \<Rightarrow> log_kind \<Rightarrow> cold_catalog \<Rightarrow> version set" where
  "window_versions content branch table lo hi n k cat =
     {v. \<exists>s \<in> set (cat_persist_segs cat). listed branch table cat s = Some (k, s) \<and> persist_segment_overlap_clause lo hi n s \<and> v \<in> set (content (ps_uuid s))}"

lemma classify_rows_ok:
  "\<forall>(k, s) \<in> set rs. is_ok (format_from_str (ps_format s)) \<Longrightarrow> is_ok (classify_rows rs)"
proof (induction rs rule: classify_rows.induct)
  case (2 k s rest)
  obtain f where "format_from_str (ps_format s) = Inr f" using 2(3) by (auto simp: is_ok_iff)
  then obtain seg where "listed_segment s = Inr seg" by (simp add: listed_segment_def)
  moreover obtain c where "classify_rows rest = Inr c" using 2 by (cases "ps_row_count s = 0") (auto simp: is_ok_iff)
  ultimately show ?case by (simp add: is_ok_iff)
qed (simp add: is_ok_iff)

lemma listed_segment_uuid: "listed_segment s = Inr seg \<Longrightarrow> seg_uuid seg = ps_uuid s"
  by (auto simp: listed_segment_def split: sum.splits)

lemma rmap_listed_uuids: "rmap listed_segment ss = Inr segs \<Longrightarrow> map seg_uuid segs = map ps_uuid ss"
  by (induction ss arbitrary: segs) (auto simp: rbind_eq_Inr listed_segment_uuid)

lemma kind_content:
  assumes sound: "segments_sound content branch table cat ups dels"
    and segs: "rmap listed_segment (map snd (filter (\<lambda>(k', s). k' = k \<and> ps_row_count s \<noteq> 0) (listing_rows branch table lo hi n cat))) = Inr segs"
  shows "set (concat (map (\<lambda>s. content (seg_uuid s)) segs)) = window_versions content branch table lo hi n k cat"
proof -
  let ?R = "listing_rows branch table lo hi n cat"
  have "map (\<lambda>s. content (seg_uuid s)) segs = map content (map seg_uuid segs)" by simp
  also have "\<dots> = map (\<lambda>s. content (ps_uuid s)) (map snd (filter (\<lambda>(k', s). k' = k \<and> ps_row_count s \<noteq> 0) ?R))"
    unfolding rmap_listed_uuids[OF segs] by simp
  finally have "set (concat (map (\<lambda>s. content (seg_uuid s)) segs)) =
      {v. \<exists>s. (k, s) \<in> set ?R \<and> ps_row_count s \<noteq> 0 \<and> v \<in> set (content (ps_uuid s))}" by auto
  also have "\<dots> = window_versions content branch table lo hi n k cat"
    unfolding window_versions_def listing_rows_mem
  proof (intro Collect_cong iffI; elim exE conjE bexE)
    fix v s assume s: "s \<in> set (cat_persist_segs cat)" "listed branch table cat s = Some (k, s)" "persist_segment_overlap_clause lo hi n s" "v \<in> set (content (ps_uuid s))"
    then have "ps_row_count s \<noteq> 0" using sound unfolding segments_sound_def by fastforce
    then show "\<exists>s. (s \<in> set (cat_persist_segs cat) \<and> listed branch table cat s = Some (k, s) \<and> persist_segment_overlap_clause lo hi n s) \<and>
        ps_row_count s \<noteq> 0 \<and> v \<in> set (content (ps_uuid s))" using s by blast
  qed blast
  finally show ?thesis .
qed

lemma window_segments:
  assumes sound: "segments_sound content branch table cat ups dels"
  shows "\<exists>U D. read_and_classify_persist_segments branch table lo hi n cat = Inr \<lparr>upsert_segments = U, delete_segments = D\<rparr> \<and>
     set (concat (map (\<lambda>s. content (seg_uuid s)) U)) = window_versions content branch table lo hi n UpsertLog cat \<and>
     set (concat (map (\<lambda>s. content (seg_uuid s)) D)) = window_versions content branch table lo hi n DeleteLog cat"
proof -
  have "\<forall>(k, s) \<in> set (listing_rows branch table lo hi n cat). is_ok (format_from_str (ps_format s))"
    using sound unfolding segments_sound_def by (auto simp: listing_rows_mem)
  from classify_rows_ok[OF this] obtain c where c: "classify_rows (listing_rows branch table lo hi n cat) = Inr c" by (auto simp: is_ok_iff)
  obtain U D where UD: "c = \<lparr>upsert_segments = U, delete_segments = D\<rparr>" by (cases c)
  note parts = classify_rows_upserts[OF c]
  show ?thesis
  proof (intro exI conjI)
    show "read_and_classify_persist_segments branch table lo hi n cat = Inr \<lparr>upsert_segments = U, delete_segments = D\<rparr>"
      using c by (simp add: read_and_classify_persist_segments_def UD)
    show "set (concat (map (\<lambda>s. content (seg_uuid s)) U)) = window_versions content branch table lo hi n UpsertLog cat"
      by (rule kind_content[OF sound]) (use parts UD in simp)
    show "set (concat (map (\<lambda>s. content (seg_uuid s)) D)) = window_versions content branch table lo hi n DeleteLog cat"
      by (rule kind_content[OF sound]) (use parts UD in simp)
  qed
qed

text \<open>Positions start at 0, and times are within the range where \<open>+ 1\<close> does not saturate.\<close>

definition times_ok :: "uuid \<Rightarrow> uuid \<Rightarrow> cold_catalog \<Rightarrow> version set \<Rightarrow> bool" where
  "times_ok branch table cat vs =
     ((\<forall>v \<in> vs. 0 \<le> lv_seq v \<and> 0 \<le> lv_micros v \<and> lv_micros v < i64_max) \<and>
      (\<forall>wm. latest_committed_table_persist_watermark branch table cat = Some wm \<longrightarrow> 0 \<le> wm \<and> wm < i64_max) \<and>
      (\<forall>s \<in> set (committed_snapshots branch table None None cat). 0 \<le> sm_snapshotted_at s \<and> sm_snapshotted_at s < i64_max))"

definition table_inv :: "(uuid \<Rightarrow> version list) \<Rightarrow> (uuid \<Rightarrow> out_row list) \<Rightarrow> uuid \<Rightarrow> uuid \<Rightarrow> hot_table \<Rightarrow> tx_log \<Rightarrow> cold_catalog \<Rightarrow>
    version set \<Rightarrow> version set \<Rightarrow> bool" where
  "table_inv content rows_of branch table ht log cat ups dels =
     (hot_holds ups dels (latest_committed_table_purge_seq_watermark branch table cat) ht log \<and>
      segments_sound content branch table cat ups dels \<and> segments_complete content branch table cat ups dels \<and>
      no_straddle branch table cat \<and> snapshots_sound rows_of branch table cat ups dels \<and> times_ok branch table cat (ups \<union> dels))"

lemma pick_snapshot_mem:
  assumes "pick_snapshot branch table (Some t) n cat = Some s"
  shows "s \<in> set (committed_snapshots branch table None None cat)" "sm_snapshotted_at s \<le> t" "\<And>m. n = Some m \<Longrightarrow> sm_seq s \<le> m"
proof -
  have "s \<in> set (committed_snapshots branch table (Some t) n cat)"
    using assms unfolding pick_snapshot_def by (rule sql_top_mem)
  then show "s \<in> set (committed_snapshots branch table None None cat)" "sm_snapshotted_at s \<le> t" "\<And>m. n = Some m \<Longrightarrow> sm_seq s \<le> m"
    by (auto simp: committed_snapshots_def)
qed

lemma saturating_pred: "0 \<le> s \<Longrightarrow> s < i64_max \<Longrightarrow> i64_saturating_add (i64_saturating_add s 1) (-1) = s"
  by (simp add: i64_saturating_add_def i64_max_def i64_min_def)

lemma below_as_of: "0 \<le> m \<Longrightarrow> m < i64_max \<Longrightarrow> m < i64_saturating_add t 1 \<longleftrightarrow> m \<le> t"
  by (auto simp: i64_saturating_add_def i64_min_def)

lemma cold_row_visible:
  assumes "open_tx_uuid snap = None" "0 \<le> lv_micros v" "lv_micros v < i64_max"
  shows "cold_visibility_clause None (Some (i64_saturating_add (plan_as_of_micros snap) 1)) (fold_cold_seq_upper (plan_commit_seq_upper snap) (Some fence)) v \<longleftrightarrow>
     visible snap v \<and> lv_seq v \<le> fence"
  using assms by (cases snap) (auto simp: cold_visibility_clause_def visible_def below_as_of)

lemma visible_as_of: "open_tx_uuid snap = None \<Longrightarrow> lv_micros v < i64_max \<Longrightarrow> visible snap v \<Longrightarrow> lv_micros v \<le> plan_as_of_micros snap"
  by (cases snap) (simp_all add: visible_def)

lemma visible_seq: "open_tx_uuid snap = None \<Longrightarrow> visible snap v \<Longrightarrow> plan_commit_seq_upper snap = Some n \<Longrightarrow> lv_seq v \<le> n"
  by (cases snap) (simp_all add: visible_def)

text \<open>The cold log rows a plan admits are the visible versions at or below the fence and past the snapshot.\<close>

lemma planned_cold_versions:
  assumes inv: "table_inv content rows_of branch table ht log cat ups dels" and axis: "open_tx_uuid snap = None"
    and wm: "latest_committed_table_persist_watermark branch table cat = Some wm"
    and at: "at = None \<or> (\<exists>s \<in> set (committed_snapshots branch table None None cat). at = Some (sm_snapshotted_at s))"
    and covered: "\<And>v. v \<in> ups \<union> dels \<Longrightarrow> lv_seq v \<le> fence \<Longrightarrow>
       (\<exists>pu. latest_committed_table_purge_seq_watermark branch table cat = Some pu \<and> lv_seq v \<le> pu) \<or>
       (\<exists>s \<in> set (committed_snapshots branch table None None cat). lv_seq v \<le> sm_seq s)"
  shows "{v \<in> window_versions content branch table (map_option (\<lambda>f. i64_saturating_add f (-1)) (map_option (\<lambda>s. i64_saturating_add s 1) at))
         (map_option (\<lambda>t. i64_saturating_add t (-1)) (Some (cold_committed_at_max (plan_as_of_micros snap) (wm + 1)))) (plan_commit_seq_upper snap) k cat.
       cold_visibility_clause None (Some (i64_saturating_add (plan_as_of_micros snap) 1)) (fold_cold_seq_upper (plan_commit_seq_upper snap) (Some fence)) v} =
     {v \<in> kind_versions k {v \<in> ups. visible snap v} {v \<in> dels. visible snap v}. \<not> above (Some fence) v \<and> past at v}" (is "?L = ?R")
proof (rule set_eqI, rule iffI)
  let ?lo = "map_option (\<lambda>f. i64_saturating_add f (-1)) (map_option (\<lambda>s. i64_saturating_add s 1) at)"
  let ?hi = "map_option (\<lambda>t. i64_saturating_add t (-1)) (Some (cold_committed_at_max (plan_as_of_micros snap) (wm + 1)))"
  have ok: "segments_sound content branch table cat ups dels" "segments_complete content branch table cat ups dels" "no_straddle branch table cat"
    "times_ok branch table cat (ups \<union> dels)" using inv unfolding table_inv_def by blast+
  have lo: "?lo = at" using at ok(4) saturating_pred unfolding times_ok_def by auto
  have kinds: "kind_versions k ups dels \<subseteq> ups \<union> dels" by (cases k) (auto simp: kind_versions_def)
  have vis: "v \<in> kind_versions k {v \<in> ups. visible snap v} {v \<in> dels. visible snap v} \<longleftrightarrow> v \<in> kind_versions k ups dels \<and> visible snap v" for v
    by (cases k) (auto simp: kind_versions_def)
  fix v
  {
    assume "v \<in> ?L"
    then obtain s where s: "s \<in> set (cat_persist_segs cat)" "listed branch table cat s = Some (k, s)" "persist_segment_overlap_clause at ?hi (plan_commit_seq_upper snap) s"
      "v \<in> set (content (ps_uuid s))"
      and row: "cold_visibility_clause None (Some (i64_saturating_add (plan_as_of_micros snap) 1)) (fold_cold_seq_upper (plan_commit_seq_upper snap) (Some fence)) v"
      unfolding window_versions_def lo by blast
    have v: "v \<in> kind_versions k ups dels" "ps_min_tx s \<le> lv_micros v" using ok(1) s unfolding segments_sound_def by blast+
    have "past at v"
    proof (cases at)
      case (Some x)
      then obtain sn where "sn \<in> set (committed_snapshots branch table None None cat)" "x = sm_snapshotted_at sn" using at by auto
      then have "ps_max_tx s \<le> x \<or> x < ps_min_tx s" using ok(3) s(1,2) unfolding no_straddle_def by blast
      then show ?thesis using s(3) v(2) Some by (auto simp: persist_segment_overlap_clause_def past_def)
    qed (simp add: past_def)
    moreover have "0 \<le> lv_micros v" "lv_micros v < i64_max" using ok(4) v(1) kinds unfolding times_ok_def by blast+
    then have "visible snap v \<and> lv_seq v \<le> fence" using row cold_row_visible[OF axis] by simp
    ultimately show "v \<in> ?R" using v(1) vis by (simp add: above_def)
  }
  {
    assume "v \<in> ?R"
    then have v: "v \<in> kind_versions k ups dels" "visible snap v" "lv_seq v \<le> fence" "past at v" using vis by (auto simp: above_def)
    have mem: "v \<in> ups \<union> dels" using v(1) kinds by blast
    obtain s where s: "s \<in> set (cat_persist_segs cat)" "listed branch table cat s = Some (k, s)" "v \<in> set (content (ps_uuid s))" and le: "lv_micros v \<le> wm"
      using ok(2) covered[OF mem v(3)] v(1) wm unfolding segments_complete_def by fastforce
    have bounds: "ps_min_tx s \<le> lv_micros v" "lv_micros v \<le> ps_max_tx s" "ps_min_seq s \<le> lv_seq v" using ok(1) s unfolding segments_sound_def by blast+
    have small: "0 \<le> lv_micros v" "lv_micros v < i64_max" using ok(4) mem unfolding times_ok_def by blast+
    have t: "lv_micros v \<le> plan_as_of_micros snap" by (rule visible_as_of[OF axis small(2) v(2)])
    have hi: "lv_micros v \<le> i64_saturating_add (cold_committed_at_max (plan_as_of_micros snap) (wm + 1)) (-1)"
      using t small le below_as_of[OF small, of "plan_as_of_micros snap"] by (auto simp: cold_committed_at_max_def i64_saturating_add_def)
    have "persist_segment_overlap_clause at ?hi (plan_commit_seq_upper snap) s"
      unfolding persist_segment_overlap_clause_def
    proof (intro conjI)
      show "case at of None \<Rightarrow> True | Some ts \<Rightarrow> ts < ps_max_tx s" using v(4) bounds(2) by (auto simp: past_def split: option.splits)
      show "case ?hi of None \<Rightarrow> True | Some aom \<Rightarrow> ps_min_tx s \<le> aom" using hi bounds(1) by simp
      show "case plan_commit_seq_upper snap of None \<Rightarrow> True | Some seq \<Rightarrow> ps_min_seq s \<le> seq"
        using visible_seq[OF axis v(2)] bounds(3) by (auto split: option.splits)
    qed
    moreover have "cold_visibility_clause None (Some (i64_saturating_add (plan_as_of_micros snap) 1)) (fold_cold_seq_upper (plan_commit_seq_upper snap) (Some fence)) v"
      using cold_row_visible[OF axis small] v(2,3) by simp
    ultimately show "v \<in> ?L" using s unfolding window_versions_def lo by blast
  }
qed

lemma cold_plan_of_sel [simp]:
  "Option.bind (cold_plan_of s q) cp_persist = q" "Option.bind (cold_plan_of s q) cp_snapshot = s"
  by (auto simp: cold_plan_of_def)

lemma planned_cold_sources:
  assumes dl: "driver_reads dl content rows_of" and min: "hot_min \<noteq> 0"
  shows "\<exists>cu cd. cold_sources dl (plan_cold_storage hot_min (Some fence) t ci) n None = Inr (cu, cd) \<and>
     set cu = {v \<in> set (concat (map (\<lambda>s. content (seg_uuid s)) (ci_upserts ci))).
        cold_visibility_clause None (Some (i64_saturating_add t 1)) (fold_cold_seq_upper n (Some fence)) v} \<and>
     set cd = {v \<in> set (concat (map (\<lambda>s. content (seg_uuid s)) (ci_deletes ci))).
        cold_visibility_clause None (Some (i64_saturating_add t 1)) (fold_cold_seq_upper n (Some fence)) v}"
proof (cases "ci_upserts ci = [] \<and> ci_deletes ci = []")
  case True
  then show ?thesis using min by (simp add: plan_cold_storage_def cold_sources_def)
next
  case False
  then show ?thesis using min dl
    by (simp add: plan_cold_storage_def cold_sources_def driver_reads_def extract_committed_at_bounds_def cold_source_def row_uuid_in_clause_def Let_def)
qed

lemma distinct_concat_rows:
  assumes "distinct us" "\<forall>u \<in> set us. distinct (map fst (rows_of u))"
    "\<forall>u \<in> set us. \<forall>w \<in> set us. u \<noteq> w \<longrightarrow> fst ` set (rows_of u) \<inter> fst ` set (rows_of w) = {}"
  shows "distinct (map fst (concat (map rows_of us)))"
  using assms
proof (induction us)
  case (Cons u us)
  have "fst ` set (rows_of u) \<inter> fst ` set (rows_of w) = {}" if w: "w \<in> set us" for w
    using Cons.prems(1,3) w by (metis distinct.simps(2) list.set_intros(1,2))
  then have "fst ` set (rows_of u) \<inter> (\<Union>w \<in> set us. fst ` set (rows_of w)) = {}" unfolding Int_UN_distrib by simp
  then have inter: "set (map fst (rows_of u)) \<inter> set (map fst (concat (map rows_of us))) = {}" by (simp only: set_map set_concat image_UN image_image)
  have rest: "distinct (map fst (concat (map rows_of us)))" using Cons by simp
  have "distinct (map fst (rows_of u))" using Cons.prems(2) by simp
  then show ?case unfolding list.map concat.simps map_append distinct_append using rest inter by (intro conjI)
qed simp

lemma snapshot_batches:
  assumes dl: "driver_reads dl content rows_of" and sound: "snapshots_sound rows_of branch table cat ups dels"
    and snap: "snap \<in> set (committed_snapshots branch table None None cat)"
    and segs: "distinct (map sg_uuid segs)" "set (map sg_uuid segs) = ss_uuid ` {s \<in> snapshot_segment_rows branch snap cat. ss_row_count s \<noteq> 0}"
  shows "rmap (dl_snapshot_rows dl) segs = Inr (map (\<lambda>s. rows_of (sg_uuid s)) segs)"
    "distinct (map fst (concat (map (\<lambda>s. rows_of (sg_uuid s)) segs)))"
    "set (concat (map (\<lambda>s. rows_of (sg_uuid s)) segs)) =
       version_row ` {v. row_live {v \<in> ups. \<not> past (Some (sm_snapshotted_at snap)) v} {v \<in> dels. \<not> past (Some (sm_snapshotted_at snap)) v} v}"
proof -
  let ?S = "snapshot_segment_rows branch snap cat"
  note all = bspec[OF conjunct2[OF sound[unfolded snapshots_sound_def Let_def]] snap]
  have parts: "\<forall>s \<in> ?S. distinct (map fst (rows_of (ss_uuid s))) \<and> (ss_row_count s = 0 \<longrightarrow> rows_of (ss_uuid s) = [])"
    "\<forall>s \<in> ?S. \<forall>t \<in> ?S. ss_uuid s \<noteq> ss_uuid t \<longrightarrow> fst ` set (rows_of (ss_uuid s)) \<inter> fst ` set (rows_of (ss_uuid t)) = {}"
    "(\<Union>s \<in> ?S. set (rows_of (ss_uuid s))) =
       version_row ` {v. row_live {v \<in> ups. \<not> past (Some (sm_snapshotted_at snap)) v} {v \<in> dels. \<not> past (Some (sm_snapshotted_at snap)) v} v}"
    by (rule conjunct1[OF conjunct2[OF all]], rule conjunct1[OF conjunct2[OF conjunct2[OF all]]],
        rule conjunct1[OF conjunct2[OF conjunct2[OF conjunct2[OF all]]]])
  show "rmap (dl_snapshot_rows dl) segs = Inr (map (\<lambda>s. rows_of (sg_uuid s)) segs)"
    by (rule rmap_pure) (use dl in \<open>simp add: driver_reads_def\<close>)
  have eq: "map (\<lambda>s. rows_of (sg_uuid s)) segs = map rows_of (map sg_uuid segs)" by simp
  show "distinct (map fst (concat (map (\<lambda>s. rows_of (sg_uuid s)) segs)))"
    unfolding eq using segs(1)
  proof (rule distinct_concat_rows)
    show "\<forall>u \<in> set (map sg_uuid segs). distinct (map fst (rows_of u))" unfolding segs(2) using parts(1) by blast
    show "\<forall>u \<in> set (map sg_uuid segs). \<forall>w \<in> set (map sg_uuid segs). u \<noteq> w \<longrightarrow> fst ` set (rows_of u) \<inter> fst ` set (rows_of w) = {}"
      unfolding segs(2) using parts(2) by blast
  qed
  have "set (concat (map (\<lambda>s. rows_of (sg_uuid s)) segs)) = (\<Union>u \<in> set (map sg_uuid segs). set (rows_of u))" unfolding eq by simp
  also have "\<dots> = (\<Union>s \<in> {s \<in> ?S. ss_row_count s \<noteq> 0}. set (rows_of (ss_uuid s)))" unfolding segs(2) by simp
  also have "\<dots> = (\<Union>s \<in> ?S. set (rows_of (ss_uuid s)))" using parts(1) by auto
  finally show "set (concat (map (\<lambda>s. rows_of (sg_uuid s)) segs)) =
       version_row ` {v. row_live {v \<in> ups. \<not> past (Some (sm_snapshotted_at snap)) v} {v \<in> dels. \<not> past (Some (sm_snapshotted_at snap)) v} v}"
    unfolding parts(3) .
qed

definition planned_floor :: "int \<Rightarrow> uuid \<Rightarrow> uuid \<Rightarrow> int option \<Rightarrow> cold_catalog \<Rightarrow> retention_floor_pick option" where
  "planned_floor now branch table retention cat = Option.bind retention (\<lambda>d. retention_floor_select branch table (now - d * 1000000) cat)"

definition at_or_above_fork :: "read_snapshot \<Rightarrow> uuid \<Rightarrow> branch_row list \<Rightarrow> bool" where
  "at_or_above_fork snap branch branch_store =
     (case read_branch_lineage branch branch_store of None \<Rightarrow> True
      | Some (_, fork_seq, fork_micros) \<Rightarrow> \<not> read_is_below_fork (plan_as_of_micros snap) (plan_commit_seq_upper snap) fork_seq fork_micros)"

lemma plan_assembled:
  assumes "at_or_above_fork snap branch branch_store"
    and "plan_inputs_of h cache catalog table branch (plan_as_of_micros snap) (plan_commit_seq_upper snap)
      (case latest_committed_table_persist_watermark branch table cat of None \<Rightarrow> 0 | Some p \<Rightarrow> p + 1)
      (fst (snd (hot_min_and_snapshot_pick now branch table (plan_as_of_micros snap) (plan_commit_seq_upper snap) retention branch_store cat))) ht cat =
      Inr (ci, fence, present, cache')"
  shows "plan h now cache branch_store catalog table branch (plan_as_of_micros snap) (plan_commit_seq_upper snap) retention ht cat =
    Inr (assemble_plan (case latest_committed_table_persist_watermark branch table cat of None \<Rightarrow> 0 | Some p \<Rightarrow> p + 1) fence present
      (plan_as_of_micros snap) ci, planned_floor now branch table retention cat, cache')"
proof -
  let ?wm = "latest_committed_table_persist_watermark branch table cat"
  have parts: "fst (hot_min_and_snapshot_pick now branch table t n retention branch_store cat) = (case ?wm of None \<Rightarrow> 0 | Some p \<Rightarrow> p + 1)"
    "fst (snd (snd (hot_min_and_snapshot_pick now branch table t n retention branch_store cat))) = planned_floor now branch table retention cat"
    "snd (snd (snd (hot_min_and_snapshot_pick now branch table t n retention branch_store cat))) = read_branch_lineage branch branch_store" for t n
    by (simp_all add: hot_min_and_snapshot_pick_def planned_floor_def Let_def)
  obtain hm pk fl li where pick: "hot_min_and_snapshot_pick now branch table (plan_as_of_micros snap) (plan_commit_seq_upper snap) retention branch_store cat =
      (hm, pk, fl, li)" by (metis prod_cases4)
  have same: "(assemble_plan m fence present t ci)\<lparr>pl_base := None\<rparr> = assemble_plan m fence present t ci" for m t
    by (simp add: assemble_plan_def)
  have base: "(case li of Some (parent, fork_seq, fork_micros) \<Rightarrow>
        if read_is_below_fork (plan_as_of_micros snap) (plan_commit_seq_upper snap) fork_seq fork_micros
        then enumerate_base_cold_source h catalog parent table (plan_as_of_micros snap)
          (case plan_commit_seq_upper snap of None \<Rightarrow> fork_seq | Some n \<Rightarrow> min fork_seq n) cat else Inr None
      | None \<Rightarrow> Inr None) = Inr None"
    using assms(1) parts(3)[of "plan_as_of_micros snap" "plan_commit_seq_upper snap"]
    unfolding pick at_or_above_fork_def by (auto split: option.splits)
  have hm: "hm = (case ?wm of None \<Rightarrow> 0 | Some p \<Rightarrow> p + 1)" and fl: "fl = planned_floor now branch table retention cat"
    using parts(1,2)[of "plan_as_of_micros snap" "plan_commit_seq_upper snap"] unfolding pick by simp_all
  show ?thesis using assms(2) unfolding plan_def pick hm[symmetric] fl by (simp add: same base)
qed

lemma hot_holds_above:
  assumes hot: "hot_holds ups dels pu ht log" and le: "\<And>v. above fence v \<Longrightarrow> above pu v"
  shows "{v \<in> set (read_committed_upserts None None ht log). above fence v \<and> visible snap v} = {v \<in> {v \<in> ups. visible snap v}. above fence v}"
    "{v \<in> set (read_committed_deletes None None ht log). above fence v \<and> visible snap v} = {v \<in> {v \<in> dels. visible snap v}. above fence v}"
proof -
  have sub: "set (read_committed_upserts None None ht log) \<subseteq> ups" "{v \<in> ups. above pu v} \<subseteq> set (read_committed_upserts None None ht log)"
    "set (read_committed_deletes None None ht log) \<subseteq> dels" "{v \<in> dels. above pu v} \<subseteq> set (read_committed_deletes None None ht log)"
    using hot unfolding hot_holds_def by blast+
  show "{v \<in> set (read_committed_upserts None None ht log). above fence v \<and> visible snap v} = {v \<in> {v \<in> ups. visible snap v}. above fence v}"
    using sub(1,2) le by blast
  show "{v \<in> set (read_committed_deletes None None ht log). above fence v \<and> visible snap v} = {v \<in> {v \<in> dels. visible snap v}. above fence v}"
    using sub(3,4) le by blast
qed

text \<open>Before the first Persist the hot logs hold the whole history.\<close>

lemma tiers_before_persist:
  assumes inv: "table_inv content rows_of branch table ht log cat ups dels" and axis: "open_tx_uuid snap = None"
    and none: "latest_committed_table_persist_watermark branch table cat = None"
    and hot: "pl_hot p = Some (plan_hot_storage None (plan_as_of_micros snap))"
  shows "tiers_hold {v \<in> ups. visible snap v} {v \<in> dels. visible snap v} None None (hot_sources p snap None ht log) ([], []) []"
proof -
  let ?pu = "latest_committed_table_purge_seq_watermark branch table cat"
  have ok: "hot_holds ups dels ?pu ht log" "segments_complete content branch table cat ups dels" using inv unfolding table_inv_def by blast+
  have "above ?pu v" if v: "v \<in> ups \<union> dels" for v
  proof (rule ccontr)
    assume "\<not> above ?pu v"
    then obtain pu where "?pu = Some pu" "lv_seq v \<le> pu" by (auto simp: above_def split: option.splits)
    moreover obtain k where "v \<in> kind_versions k ups dels" using v by (metis Un_iff kind_versions_def log_kind.simps(3,4))
    ultimately show False using ok(2) none unfolding segments_complete_def by fastforce
  qed
  then have hu: "{v \<in> ups. above ?pu v} = ups" and hd: "{v \<in> dels. above ?pu v} = dels" by blast+
  have "hot_holds ups dels None ht log" using ok(1) unfolding hot_holds_def hu hd by (simp add: above_def)
  then show ?thesis
    using hot_holds_above[of ups dels None ht log None snap]
    unfolding tiers_hold_def planned_hot_sources[OF hot axis] by (simp add: past_def above_def row_live_def)
qed

lemma tiers_after_persist:
  assumes inv: "table_inv content rows_of branch table ht log cat ups dels" and axis: "open_tx_uuid snap = None"
    and dl: "driver_reads dl content rows_of"
    and wm: "latest_committed_table_persist_watermark branch table cat = Some wm"
  shows "\<exists>ci fence present at cold batches. plan_inputs_of h None catalog table branch (plan_as_of_micros snap) (plan_commit_seq_upper snap) (wm + 1) pick ht cat =
       Inr (ci, Some fence, present, None) \<and>
     (let p = assemble_plan (wm + 1) (Some fence) present (plan_as_of_micros snap) ci in
      cold_sources dl (pl_cold p) (cold_commit_seq_upper snap) None = Inr cold \<and> snapshot_rows dl p = Inr batches \<and>
      tiers_hold {v \<in> ups. visible snap v} {v \<in> dels. visible snap v} (Some fence) at (hot_sources p snap None ht log) cold (concat batches))"
proof -
  let ?t = "plan_as_of_micros snap" and ?n = "plan_commit_seq_upper snap" and ?pu = "latest_committed_table_purge_seq_watermark branch table cat"
  let ?U = "{v \<in> ups. visible snap v}" and ?D = "{v \<in> dels. visible snap v}"
  have ok: "hot_holds ups dels ?pu ht log" "segments_sound content branch table cat ups dels" "snapshots_sound rows_of branch table cat ups dels"
    "times_ok branch table cat (ups \<union> dels)" using inv unfolding table_inv_def by blast+
  have wm_ok: "0 \<le> wm" "wm < i64_max" using ok(4) wm unfolding times_ok_def by blast+
  have wf: "snapshot_rows_wf branch cat" using ok(3) unfolding snapshots_sound_def by blast
  have picker: "compute_snapshot_picker_as_of ?t (wm + 1) = min ?t wm" by (simp add: compute_snapshot_picker_as_of_def)
  obtain res w at segs where res: "read_snapshot_segments_for_table h catalog branch table (Some (min ?t wm)) ?n None cat = Inr res"
      "sr_snapshotted_at res = at" "(case sr_seq res of None \<Rightarrow> SNAPSHOT_SEQ_GENESIS | Some n \<Rightarrow> n) = w" "sr_segments res = segs"
    and at: "at = None \<or> (\<exists>s \<in> set (committed_snapshots branch table None None cat). at = Some (sm_snapshotted_at s))"
    and w: "\<And>v. v \<in> ups \<union> dels \<Longrightarrow> lv_seq v \<le> w \<Longrightarrow> \<exists>s \<in> set (committed_snapshots branch table None None cat). lv_seq v \<le> sm_seq s"
    and below: "\<And>v. v \<in> ups \<union> dels \<Longrightarrow> \<not> past at v \<Longrightarrow> visible snap v \<and> lv_seq v \<le> w"
    and snap_rows: "at = None \<Longrightarrow> segs = []"
      "rmap (dl_snapshot_rows dl) segs = Inr (map (\<lambda>s. rows_of (sg_uuid s)) segs)"
      "distinct (map fst (concat (map (\<lambda>s. rows_of (sg_uuid s)) segs)))"
      "set (concat (map (\<lambda>s. rows_of (sg_uuid s)) segs)) = version_row ` {v. row_live {v \<in> ups. \<not> past at v} {v \<in> dels. \<not> past at v} v}"
  proof (cases "pick_snapshot branch table (Some (min ?t wm)) ?n cat")
    case None
    show ?thesis
    proof (rule that[of no_snapshot None "-1" "[]"])
      show "read_snapshot_segments_for_table h catalog branch table (Some (min ?t wm)) ?n None cat = Inr no_snapshot"
        using None by (simp add: read_snapshot_segments_for_table_def)
      show "\<exists>s \<in> set (committed_snapshots branch table None None cat). lv_seq v \<le> sm_seq s" if "v \<in> ups \<union> dels" "lv_seq v \<le> -1" for v
      proof -
        have "0 \<le> lv_seq v" using ok(4) that(1) unfolding times_ok_def by blast
        then show ?thesis using that(2) by simp
      qed
    qed (simp_all add: no_snapshot_def SNAPSHOT_SEQ_GENESIS_def past_def row_live_def)
  next
    case (Some s)
    note mem = pick_snapshot_mem[OF Some]
    note all = bspec[OF conjunct2[OF ok(3)[unfolded snapshots_sound_def Let_def]] mem(1)]
    obtain r where r: "read_snapshot_segments_for_table h catalog branch table (Some (min ?t wm)) ?n None cat = Inr r"
      "distinct (map sg_uuid (sr_segments r))" "set (map sg_uuid (sr_segments r)) = ss_uuid ` {x \<in> snapshot_segment_rows branch s cat. ss_row_count x \<noteq> 0}"
      "sr_snapshotted_at r = Some (sm_snapshotted_at s)" "sr_seq r = Some (sm_seq s)"
      using snapshot_segments_read[OF wf Some, of h catalog] conjunct1[OF all] by auto
    have covers: "\<forall>v \<in> ups \<union> dels. \<not> past (Some (sm_snapshotted_at s)) v \<longrightarrow> lv_seq v \<le> sm_seq s"
      by (rule conjunct2[OF conjunct2[OF conjunct2[OF conjunct2[OF all]]]])
    note batches = snapshot_batches[OF dl ok(3) mem(1) r(2,3)]
    show ?thesis
    proof (rule that[of r "Some (sm_snapshotted_at s)" "sm_seq s" "sr_segments r"])
      show "visible snap v \<and> lv_seq v \<le> sm_seq s" if v: "v \<in> ups \<union> dels" "\<not> past (Some (sm_snapshotted_at s)) v" for v
      proof
        show le: "lv_seq v \<le> sm_seq s" using covers v by blast
        show "visible snap v" using le v(2) mem(2,3) axis by (cases snap) (auto simp: visible_def past_def)
      qed
    qed (use r(1,4,5) mem(1) batches in \<open>auto\<close>)
  qed
  define fence where "fence = (case ?pu of None \<Rightarrow> w | Some pu \<Rightarrow> max pu w)"
  define present where "present = (ht_upserts ht \<noteq> [] \<or> ht_deletes ht \<noteq> [])"
  have covered: "(\<exists>pu. ?pu = Some pu \<and> lv_seq v \<le> pu) \<or> (\<exists>s \<in> set (committed_snapshots branch table None None cat). lv_seq v \<le> sm_seq s)"
    if "v \<in> ups \<union> dels" "lv_seq v \<le> fence" for v
    using that w[of v] unfolding fence_def by (cases ?pu) (auto simp: le_max_iff_disj)
  let ?lo = "map_option (\<lambda>f. i64_saturating_add f (-1)) (map_option (\<lambda>s. i64_saturating_add s 1) at)"
  let ?hi = "map_option (\<lambda>t. i64_saturating_add t (-1)) (Some (cold_committed_at_max ?t (wm + 1)))"
  obtain U D where UD: "read_and_classify_persist_segments branch table ?lo ?hi ?n cat = Inr \<lparr>upsert_segments = U, delete_segments = D\<rparr>"
    "set (concat (map (\<lambda>s. content (seg_uuid s)) U)) = window_versions content branch table ?lo ?hi ?n UpsertLog cat"
    "set (concat (map (\<lambda>s. content (seg_uuid s)) D)) = window_versions content branch table ?lo ?hi ?n DeleteLog cat"
    using window_segments[OF ok(2), of ?lo ?hi ?n] by blast
  define ci where "ci = \<lparr>ci_snapshotted_at = at, ci_snapshot_seq = w, ci_snapshot_segments = segs, ci_indexes = sr_indexes res, ci_upserts = U, ci_deletes = D\<rparr>"
  define p where "p = assemble_plan (wm + 1) (Some fence) present ?t ci"
  have run: "plan_inputs_of h None catalog table branch ?t ?n (wm + 1) pick ht cat = Inr (ci, Some fence, present, None)"
    using res UD(1) wm_ok
    by (simp add: plan_inputs_of_def list_snapshot_segments_def picker phase_one_fence_and_existence_def fence_def present_def
        read_persist_segments_for_window_def ci_def Let_def cong: option.case_cong)
  have sel: "ci_upserts ci = U" "ci_deletes ci = D" "wm + 1 \<noteq> 0" using wm_ok by (simp_all add: ci_def)
  obtain cu cd where cold: "cold_sources dl (plan_cold_storage (wm + 1) (Some fence) ?t ci) ?n None = Inr (cu, cd)"
    and cuts: "set cu = {v \<in> window_versions content branch table ?lo ?hi ?n UpsertLog cat.
        cold_visibility_clause None (Some (i64_saturating_add ?t 1)) (fold_cold_seq_upper ?n (Some fence)) v}"
      "set cd = {v \<in> window_versions content branch table ?lo ?hi ?n DeleteLog cat.
        cold_visibility_clause None (Some (i64_saturating_add ?t 1)) (fold_cold_seq_upper ?n (Some fence)) v}"
    using planned_cold_sources[OF dl sel(3), of fence ?t ci ?n] unfolding sel(1,2) UD(2,3) by (elim exE conjE)
  have "set cu = {v \<in> kind_versions UpsertLog ?U ?D. \<not> above (Some fence) v \<and> past at v}"
    unfolding cuts(1) by (rule planned_cold_versions[OF inv axis wm at]) (rule covered)
  then have cu: "set cu = {v \<in> ?U. \<not> above (Some fence) v \<and> past at v}" by (simp only: kind_versions_def log_kind.case)
  have "set cd = {v \<in> kind_versions DeleteLog ?U ?D. \<not> above (Some fence) v \<and> past at v}"
    unfolding cuts(2) by (rule planned_cold_versions[OF inv axis wm at]) (rule covered)
  then have cd: "set cd = {v \<in> ?D. \<not> above (Some fence) v \<and> past at v}" by (simp only: kind_versions_def log_kind.case)
  have hot: "set (fst (hot_sources p snap None ht log)) = {v \<in> ?U. above (Some fence) v}" "set (snd (hot_sources p snap None ht log)) = {v \<in> ?D. above (Some fence) v}"
  proof -
    have le: "above ?pu v" if "above (Some fence) v" for v using that by (auto simp: above_def fence_def split: option.splits)
    note eq = hot_holds_above[OF ok(1) le]
    have "set (fst (hot_sources p snap None ht log)) = {v \<in> ?U. above (Some fence) v} \<and> set (snd (hot_sources p snap None ht log)) = {v \<in> ?D. above (Some fence) v}"
    proof (cases present)
      case True
      then have "pl_hot p = Some (plan_hot_storage (Some fence) ?t)" by (simp add: p_def assemble_plan_def)
      from planned_hot_sources[OF this axis] eq show ?thesis by simp
    next
      case False
      then have "hot_sources p snap None ht log = ([], [])" by (simp add: hot_sources_def p_def assemble_plan_def)
      moreover have "read_committed_upserts None None ht log = []" "read_committed_deletes None None ht log = []"
        using False by (simp_all add: present_def read_committed_upserts_def read_committed_deletes_def)
      ultimately show ?thesis using eq by simp
    qed
    then show "set (fst (hot_sources p snap None ht log)) = {v \<in> ?U. above (Some fence) v}"
      "set (snd (hot_sources p snap None ht log)) = {v \<in> ?D. above (Some fence) v}" by simp_all
  qed
  have leg: "plan_snapshot_leg p = map_option (\<lambda>ts. \<lparr>sp_segments = segs, sp_indexes = sr_indexes res, sp_snapshotted_at = ts, sp_seq = w\<rparr>) at"
    using wm_ok by (cases at) (simp_all add: plan_snapshot_leg_def p_def assemble_plan_def plan_cold_storage_def ci_def)
  have batches: "snapshot_rows dl p = Inr (map (\<lambda>s. rows_of (sg_uuid s)) segs)"
    using snap_rows(1,2) by (cases at) (simp_all add: snapshot_rows_def leg)
  have su: "{v \<in> ?U. \<not> past at v} = {v \<in> ups. \<not> past at v}" and sd: "{v \<in> ?D. \<not> past at v} = {v \<in> dels. \<not> past at v}"
    using below by blast+
  have fenced: "\<forall>v \<in> ?U \<union> ?D. \<not> past at v \<longrightarrow> \<not> above (Some fence) v"
  proof (intro ballI impI)
    fix v assume "v \<in> ?U \<union> ?D" "\<not> past at v"
    then have "lv_seq v \<le> w" using below by blast
    also have "w \<le> fence" by (auto simp: fence_def split: option.splits)
    finally show "\<not> above (Some fence) v" by (simp add: above_def)
  qed
  have "tiers_hold ?U ?D (Some fence) at (hot_sources p snap None ht log) (cu, cd) (concat (map (\<lambda>s. rows_of (sg_uuid s)) segs))"
    unfolding tiers_hold_def su sd fst_conv snd_conv using hot cu cd snap_rows(3,4) fenced by blast
  moreover have "cold_sources dl (pl_cold p) ?n None = Inr (cu, cd)" using cold by (simp add: p_def assemble_plan_def)
  ultimately show ?thesis using run batches unfolding p_def cold_commit_seq_upper_def Let_def by blast
qed

section \<open>Reads\<close>

lemma stream_all_cold_merged:
  assumes "pl_hot p = None" "pl_base p = None"
  shows "stream_all_cold lib dl rq p = stream_merged lib dl rq p ht log"
proof -
  have hot: "resolve_hot p cols snap ids ht log = []" for cols snap ids using assms(1) by (simp add: resolve_hot_def)
  show ?thesis using assms
    by (simp add: stream_all_cold_def stream_merged_def stream_all_cold_parts_def stream_merged_parts_def resolve_log_tiers_def
        build_cold_resolved_and_exclusion_set_def build_resolved_and_exclusion_set_def hot fold_base_projected_def fold_base_if_present_def
        rbind_assoc case_prod_beta)
qed

lemma identity_seeks_restrict:
  assumes "\<forall>us. ids = Some us \<longrightarrow> list_all wf_uuid us"
  shows "request_row_uuids (rq\<lparr>rq_seeks := identity_seeks ids, rq_order := ord\<rparr>) = Inr ids"
proof (cases ids)
  case (Some us)
  have "rmap identity_tuple (map (\<lambda>u. [u]) ws) = Inr ws" if "list_all wf_uuid ws" for ws
    using that by (induction ws) (simp_all add: identity_tuple_def)
  then show ?thesis using assms Some by (simp add: request_row_uuids_def identity_seeks_def identity_seek_def identity_row_uuids_def)
qed (simp add: request_row_uuids_def identity_seeks_def identity_row_uuids_def)

lemma no_filter_predicate:
  assumes "residual_filter lib (rq_filter rq) = Inr predicate" "\<not> has_filter rq"
  shows "predicate = None"
  using assms by (auto simp: residual_filter_def has_filter_def split: option.splits)

lemma keeps_eta: "keeps (Some q) = q" "keeps None = (\<lambda>_. True)"
  by (simp_all add: keeps_def fun_eq_iff)

lemma all_hot_rows:
  assumes tiers: "tiers_hold ups dels fence at (hot_sources p (rq_snapshot rq) None ht log) ([], []) []"
    and ordered: "ordered_versions ups" and order: "in_commit_order (ups \<union> dels)"
    and pred: "residual_filter lib (rq_filter rq) = Inr predicate" and cols: "rq_user_schema rq \<noteq> []"
    and typed: "\<forall>v. row_live ups dels v \<longrightarrow> (\<forall>f \<in> set (rq_user_schema rq). field_nullable f \<or> \<not> is_null (lv_cols v (field_name f)))"
  shows "\<exists>out. stream_all_hot lib rq ids p ht log = Inr out \<and> distinct (map fst out) \<and>
     set out = read_view ups dels (user_cols_of rq) predicate ids"
proof -
  let ?cols = "user_cols_of rq" and ?P = "row_uuid_in_clause ids"
  define hot' where "hot' = hot_sources p (rq_snapshot rq) ids ht log"
  note cover = tiers_cover[OF tiers order]
  have hot': "set (fst hot') = {v \<in> {v \<in> ups. past at v}. ?P (lv_row v)}" "set (snd hot') = {v \<in> {v \<in> dels. past at v}. ?P (lv_row v)}"
    using cover(1,2) unfolding hot'_def hot_sources_restrict[of p _ ids] by simp_all
  have "version_row ` {v. row_live {v \<in> ups. \<not> past at v} {v \<in> dels. \<not> past at v} v} = {}"
    using tiers unfolding tiers_hold_def by simp
  then have live: "row_live ups dels v \<and> ?P (lv_row v) \<longleftrightarrow> row_live (set (fst hot')) (set (snd hot')) v" for v
    unfolding row_live_past[OF cover(4)] hot' by simp
  define rs where "rs = filter_live_rows (resolve_versions ?cols (fst hot') (snd hot'))"
  have "ordered_versions (set (fst hot'))" by (rule ordered_subset[OF ordered]) (simp add: hot' subset_eq)
  then have rs: "set rs = live_row ?cols ` {v. row_live ups dels v \<and> ?P (lv_row v)}" "distinct (map rv_row rs)"
    using resolve_versions_live[of "fst hot'" ?cols "snd hot'"] distinct_map_filter[OF resolve_versions_rows(1)]
    unfolding rs_def filter_live_rows_def live by simp_all
  have proj: "project_resolved (rq_user_schema rq) rs = Inr (map resolved_out rs)"
    by (rule project_live) (use rs(1) typed in \<open>auto simp: user_cols_of_def\<close>)
  have run: "stream_all_hot lib rq ids p ht log = Inr (filter (keeps predicate) (map resolved_out rs))"
  proof (cases "pl_hot p")
    case None
    then have "hot' = ([], [])" by (simp add: hot'_def hot_sources_def)
    then have "rs = []" using resolve_versions_rows(2)[of ?cols "[]" "[]"] by (simp add: rs_def filter_live_rows_def)
    then show ?thesis using None by (simp add: stream_all_hot_def)
  next
    case (Some hp)
    have "filter_live_rows (build_merge_resolved ?cols (Option.bind (hp_commit_seq hp) min_seq)
        (tighten_for_hot (rq_snapshot rq) (snd (extract_committed_at_bounds (hp_committed_at hp)))) ids ht log) = rs"
      using resolve_hot_sources[of p ?cols "rq_snapshot rq" ids ht log] Some unfolding rs_def hot'_def by (simp add: resolve_hot_def Let_def)
    then show ?thesis using Some cols proj pred no_filter_predicate[OF pred]
      by (cases predicate) (auto simp: stream_all_hot_def Let_def keeps_eta)
  qed
  have fst_out: "map fst (map resolved_out rs) = map rv_row rs" by (simp add: resolved_out_def)
  have "distinct (map fst (filter (keeps predicate) (map resolved_out rs)))"
    by (rule distinct_map_filter) (unfold fst_out, rule rs(2))
  moreover have "set (filter (keeps predicate) (map resolved_out rs)) = read_view ups dels ?cols predicate ids"
    unfolding set_filter set_map rs(1) read_view_def
    by (auto simp: keeps_def resolved_out_def live_row_def project_row_def version_row_def image_iff)
  ultimately show ?thesis using run by blast
qed

lemma planned_tiers:
  assumes inv: "table_inv content rows_of branch table ht log cat ups dels" and axis: "open_tx_uuid snap = None"
    and dl: "driver_reads dl content rows_of" and fork: "at_or_above_fork snap branch branch_store"
  shows "\<exists>p fence at cold batches.
     plan h now None branch_store catalog table branch (plan_as_of_micros snap) (plan_commit_seq_upper snap) retention ht cat =
       Inr (p, planned_floor now branch table retention cat, None) \<and> pl_base p = None \<and>
     cold_sources dl (pl_cold p) (cold_commit_seq_upper snap) None = Inr cold \<and> snapshot_rows dl p = Inr batches \<and>
     tiers_hold {v \<in> ups. visible snap v} {v \<in> dels. visible snap v} fence at (hot_sources p snap None ht log) cold (concat batches)"
proof (cases "latest_committed_table_persist_watermark branch table cat")
  case None
  define ci where "ci = \<lparr>ci_snapshotted_at = None, ci_snapshot_seq = 0, ci_snapshot_segments = [], ci_indexes = [], ci_upserts = [], ci_deletes = []\<rparr>"
  define p where "p = assemble_plan 0 None True (plan_as_of_micros snap) ci"
  have "plan h now None branch_store catalog table branch (plan_as_of_micros snap) (plan_commit_seq_upper snap) retention ht cat =
      Inr (p, planned_floor now branch table retention cat, None)"
    using plan_assembled[OF fork, of h None catalog table cat now retention ht ci None True None] None by (simp add: plan_inputs_of_def ci_def p_def)
  moreover have "pl_base p = None" "cold_sources dl (pl_cold p) n None = Inr ([], [])" "snapshot_rows dl p = Inr []" for n
    by (simp_all add: p_def assemble_plan_def plan_cold_storage_def cold_sources_def snapshot_rows_def plan_snapshot_leg_def)
  moreover have "pl_hot p = Some (plan_hot_storage None (plan_as_of_micros snap))" by (simp add: p_def assemble_plan_def)
  from tiers_before_persist[OF inv axis None this]
  have "tiers_hold {v \<in> ups. visible snap v} {v \<in> dels. visible snap v} None None (hot_sources p snap None ht log) ([], []) (concat [])" by simp
  ultimately show ?thesis by blast
next
  case (Some wm)
  obtain ci fence present at cold batches where
    run: "plan_inputs_of h None catalog table branch (plan_as_of_micros snap) (plan_commit_seq_upper snap) (wm + 1)
      (fst (snd (hot_min_and_snapshot_pick now branch table (plan_as_of_micros snap) (plan_commit_seq_upper snap) retention branch_store cat))) ht cat =
      Inr (ci, Some fence, present, None)"
    and tiers: "cold_sources dl (pl_cold (assemble_plan (wm + 1) (Some fence) present (plan_as_of_micros snap) ci)) (cold_commit_seq_upper snap) None = Inr cold"
      "snapshot_rows dl (assemble_plan (wm + 1) (Some fence) present (plan_as_of_micros snap) ci) = Inr batches"
      "tiers_hold {v \<in> ups. visible snap v} {v \<in> dels. visible snap v} (Some fence) at
         (hot_sources (assemble_plan (wm + 1) (Some fence) present (plan_as_of_micros snap) ci) snap None ht log) cold (concat batches)"
    using tiers_after_persist[OF inv axis dl Some] unfolding Let_def by blast
  have "plan h now None branch_store catalog table branch (plan_as_of_micros snap) (plan_commit_seq_upper snap) retention ht cat =
      Inr (assemble_plan (wm + 1) (Some fence) present (plan_as_of_micros snap) ci, planned_floor now branch table retention cat, None)"
    using plan_assembled[OF fork, of h None catalog table cat now retention ht ci "Some fence" present None] run Some by simp
  moreover have "pl_base (assemble_plan (wm + 1) (Some fence) present (plan_as_of_micros snap) ci) = None" by (simp add: assemble_plan_def)
  ultimately show ?thesis using tiers by blast
qed

lemma in_commit_order_subset: "in_commit_order vs \<Longrightarrow> ws \<subseteq> vs \<Longrightarrow> in_commit_order ws"
  unfolding in_commit_order_def by blast

lemma all_hot_cold_empty:
  assumes "is_all_hot p" "cold_sources dl (pl_cold p) n None = Inr cold" "snapshot_rows dl p = Inr batches"
  shows "cold = ([], []) \<and> batches = []"
proof -
  have "pl_base p = None" "Option.bind (pl_cold p) cp_persist = None" "Option.bind (pl_cold p) cp_snapshot = None"
    using assms(1) by (auto simp: is_all_hot_def split: if_splits option.splits)
  then show ?thesis using assms(2,3) by (simp add: cold_sources_def snapshot_rows_def plan_snapshot_leg_def)
qed


section \<open>Witnesses\<close>

definition demo_persist :: "uuid \<Rightarrow> log_kind \<Rightarrow> int \<Rightarrow> persist_row" where
  "demo_persist u k at = \<lparr>pm_uuid = u, pm_branch = ''b'', pm_table = ''t'', pm_persisted_at = at, pm_seq = None, pm_log_kind = k, pm_commit = Some 0\<rparr>"

definition demo_persist_segment :: "uuid \<Rightarrow> uuid \<Rightarrow> int \<Rightarrow> int \<Rightarrow> int \<Rightarrow> int \<Rightarrow> int \<Rightarrow> persist_seg_row" where
  "demo_persist_segment u parent lo hi lo_seq hi_seq row_count =
     \<lparr>ps_uuid = u, ps_persist = parent, ps_branch = ''b'', ps_table = ''t'', ps_chunk_idx = 0, ps_min_tx = lo, ps_max_tx = hi,
      ps_min_seq = lo_seq, ps_max_seq = hi_seq, ps_uri = u, ps_offset = None, ps_length = None, ps_row_count = row_count, ps_format = ''parquet'',
      ps_hash = [], ps_size = None, ps_statistics = None, ps_commit = Some 0, ps_sealed = False\<rparr>"

definition demo_snapshot :: "int \<Rightarrow> int \<Rightarrow> snapshot_row" where
  "demo_snapshot at sq = \<lparr>sm_uuid = ''n'', sm_branch = ''b'', sm_table = ''t'', sm_snapshotted_at = at, sm_seq = sq, sm_durable = False,
     sm_partition_keys = Some [], sm_clustering_keys = Some [], sm_commit = Some 0\<rparr>"

definition demo_snapshot_segment :: "int \<Rightarrow> snapshot_seg_row" where
  "demo_snapshot_segment n = \<lparr>ss_uuid = ''s'', ss_snapshot = ''n'', ss_branch = ''b'', ss_table = ''t'', ss_chunk_idx = 0, ss_uri = ''s'', ss_offset = 0,
     ss_length = 1, ss_size = None, ss_format = ''parquet'', ss_hash = [], ss_statistics = None, ss_row_count = n, ss_commit = Some 0\<rparr>"

lemmas demo_rows = demo_persist_def demo_persist_segment_def demo_snapshot_def demo_snapshot_segment_def

text \<open>A table with two persists, a snapshot between them and a purge after the second.\<close>

definition demo_read_catalog :: cold_catalog where
  "demo_read_catalog = empty_catalog
     \<lparr>cat_persists := [demo_persist ''P'' UpsertLog 5, demo_persist ''Q'' UpsertLog 9, demo_persist ''R'' DeleteLog 9],
      cat_persist_segs := [demo_persist_segment ''o'' ''P'' 5 5 0 0 2, demo_persist_segment ''p'' ''Q'' 9 9 1 1 1, demo_persist_segment ''q'' ''R'' 9 9 1 1 1],
      cat_snapshots := [demo_snapshot 5 0], cat_snapshot_segs := [demo_snapshot_segment 2],
      cat_purges := [\<lparr>pu_uuid = ''g'', pu_branch = ''b'', pu_table = ''t'', pu_commit_seq = Some 1, pu_aborted_seq = None, pu_commit = Some 0\<rparr>]\<rparr>"

definition demo_content :: "uuid \<Rightarrow> version list" where
  "demo_content u =
     (if u = ''o'' then [demo_version ''a'' 1 5 0 0, demo_version ''b'' 2 5 1 0] else if u = ''p'' then [demo_version ''c'' 3 9 3 1]
      else if u = ''q'' then [demo_version ''b'' 0 9 2 1] else [])"

definition content_driver :: "(uuid \<Rightarrow> version list) \<Rightarrow> (uuid \<Rightarrow> out_row list) \<Rightarrow> dl_driver" where
  "content_driver content rows_of =
     \<lparr>dl_log_rows = (\<lambda>segs. Inr (concat (map (\<lambda>s. content (seg_uuid s)) segs))), dl_snapshot_rows = (\<lambda>seg. Inr (rows_of (sg_uuid seg)))\<rparr>"

definition demo_rows_of :: "uuid \<Rightarrow> out_row list" where
  "demo_rows_of u = (if u = ''s'' then map version_row [demo_version ''a'' 1 5 0 0, demo_version ''b'' 2 5 1 0] else [])"

lemma listed_all:
  "(\<forall>s \<in> set segs. \<forall>k. listed branch table cat s = Some (k, s) \<longrightarrow> P k s) \<longleftrightarrow>
     list_all (\<lambda>s. case listed branch table cat s of None \<Rightarrow> True | Some (k, _) \<Rightarrow> P k s) segs"
  by (auto simp: list_all_iff listed_def split: option.splits)

lemma demo_listed:
  "listed ''b'' ''t'' demo_read_catalog (demo_persist_segment u p lo hi m n c) =
     (if p = ''P'' \<or> p = ''Q'' then Some (UpsertLog, demo_persist_segment u p lo hi m n c)
      else if p = ''R'' then Some (DeleteLog, demo_persist_segment u p lo hi m n c) else None)"
  by (simp add: listed_def persist_parent_def persist_key_def demo_read_catalog_def demo_rows)

lemma demo_read_segments:
  "cat_persist_segs demo_read_catalog = [demo_persist_segment ''o'' ''P'' 5 5 0 0 2, demo_persist_segment ''p'' ''Q'' 9 9 1 1 1, demo_persist_segment ''q'' ''R'' 9 9 1 1 1]"
  "cat_snapshot_segs demo_read_catalog = [demo_snapshot_segment 2]" "cat_sidecars demo_read_catalog = []"
  by (simp_all add: demo_read_catalog_def empty_catalog_def)

lemma demo_segment_sel [simp]:
  "ps_uuid (demo_persist_segment u p lo hi m n c) = u" "ps_min_tx (demo_persist_segment u p lo hi m n c) = lo"
  "ps_max_tx (demo_persist_segment u p lo hi m n c) = hi" "ps_min_seq (demo_persist_segment u p lo hi m n c) = m"
  "ps_row_count (demo_persist_segment u p lo hi m n c) = c" "ps_format (demo_persist_segment u p lo hi m n c) = ''parquet''"
  by (simp_all add: demo_persist_segment_def)

lemma all_log_kind: "(\<forall>k. P k) \<longleftrightarrow> P UpsertLog \<and> P DeleteLog"
  by (metis log_kind.exhaust)

lemma parquet_ok [simp]: "is_ok (format_from_str ''parquet'')"
  by (simp add: format_from_str_def)

lemma demo_watermarks:
  "latest_committed_table_persist_watermark ''b'' ''t'' demo_read_catalog = Some 9"
  "latest_committed_table_purge_seq_watermark ''b'' ''t'' demo_read_catalog = Some 1"
  "committed_snapshots ''b'' ''t'' None None demo_read_catalog = [demo_snapshot 5 0]"
  by (simp_all add: latest_committed_table_persist_watermark_def committed_persists_def sql_max_def latest_committed_table_purge_seq_watermark_def
      max_committed_purge_column_def committed_snapshots_def demo_read_catalog_def demo_rows map_filter_simps)

lemma demo_inv: "table_inv demo_content demo_rows_of ''b'' ''t'' demo_hot (demo_log [demo_commit ''z'' 12 2]) demo_read_catalog demo_upserts demo_deletes"
proof -
  have hot: "read_committed_upserts None None demo_hot (demo_log [demo_commit ''z'' 12 2]) = [demo_version ''a'' 4 12 4 2]"
    "read_committed_deletes None None demo_hot (demo_log [demo_commit ''z'' 12 2]) = []"
    by (simp_all add: read_committed_upserts_def read_committed_deletes_def build_committed_at_filter_def demo_hot_def demo_log_def demo_commit_def
        upsert_version_def demo_version_def)
  have "hot_holds demo_upserts demo_deletes (Some 1) demo_hot (demo_log [demo_commit ''z'' 12 2])"
    unfolding hot_holds_def hot by (auto simp: demo_upserts_def demo_deletes_def above_def)
  moreover have "segments_sound demo_content ''b'' ''t'' demo_read_catalog demo_upserts demo_deletes"
    unfolding segments_sound_def listed_all demo_read_segments
    by (simp add: demo_listed demo_content_def demo_upserts_def demo_deletes_def kind_versions_def)
  moreover have "segments_complete demo_content ''b'' ''t'' demo_read_catalog demo_upserts demo_deletes"
    unfolding segments_complete_def demo_watermarks demo_read_segments
    by (simp add: all_log_kind demo_listed demo_content_def demo_upserts_def demo_deletes_def kind_versions_def demo_snapshot_def)
  moreover have "no_straddle ''b'' ''t'' demo_read_catalog"
    unfolding no_straddle_def listed_all demo_watermarks demo_read_segments by (simp add: demo_listed demo_snapshot_def)
  moreover have "snapshots_sound demo_rows_of ''b'' ''t'' demo_read_catalog demo_upserts demo_deletes"
  proof -
    have segs: "snapshot_segment_rows ''b'' (demo_snapshot 5 0) demo_read_catalog = {demo_snapshot_segment 2}"
      unfolding snapshot_segment_rows_def demo_read_segments by (auto simp: demo_rows)
    have wf: "snapshot_rows_wf ''b'' demo_read_catalog" unfolding snapshot_rows_wf_def demo_read_segments by (simp add: demo_snapshot_segment_def)
    have at: "sm_snapshotted_at (demo_snapshot 5 0) = 5" "sm_seq (demo_snapshot 5 0) = 0" "ss_uuid (demo_snapshot_segment 2) = ''s''"
      "ss_row_count (demo_snapshot_segment 2) = 2" by (simp_all add: demo_rows)
    have rows: "set (demo_rows_of ''s'') = version_row ` {v. row_live {v \<in> demo_upserts. \<not> past (Some 5) v} {v \<in> demo_deletes. \<not> past (Some 5) v} v}"
      unfolding demo_live(1) Collect_mem_eq by (simp add: demo_rows_of_def)
    have seqs: "\<forall>v \<in> demo_upserts \<union> demo_deletes. \<not> past (Some 5) v \<longrightarrow> lv_seq v \<le> 0"
      by (simp add: demo_upserts_def demo_deletes_def past_def)
    show ?thesis unfolding snapshots_sound_def demo_watermarks using wf seqs
      by (simp add: segs at rows) (simp add: demo_rows_of_def version_row_def)
  qed
  moreover have "times_ok ''b'' ''t'' demo_read_catalog (demo_upserts \<union> demo_deletes)"
    unfolding times_ok_def demo_watermarks by (auto simp: demo_upserts_def demo_deletes_def demo_rows i64_max_def)
  ultimately show ?thesis unfolding table_inv_def demo_watermarks by blast
qed


end
