(* ===== verification/Straddle_Read.thy ===== *)
theory Straddle_Read
  imports Read_Plan
begin

text \<open>
  What a read does when a persist segment reaches across a snapshot, which \<open>table_inv\<close> of
  \<open>Read_Plan\<close> excludes and the code does not: a concrete table on which the planned read of
  \<open>penca-api/src/query\<close> returns a deleted row.
\<close>

text \<open>Row \<open>u\<close> is written, deleted, persisted and snapshotted; then row \<open>w\<close> is written and persisted before any purge, so
  that the second persist writes \<open>u\<close> again, into the segment of \<open>w\<close>.\<close>

definition straddle_catalog :: cold_catalog where
  "straddle_catalog = empty_catalog
     \<lparr>cat_persists := [demo_persist ''P'' UpsertLog 7, demo_persist ''R'' DeleteLog 7, demo_persist ''Q'' UpsertLog 20, demo_persist ''S'' DeleteLog 20],
      cat_persist_segs := [demo_persist_segment ''o'' ''P'' 5 5 0 0 1, demo_persist_segment ''q'' ''R'' 7 7 1 1 1,
        demo_persist_segment ''p'' ''Q'' 5 20 0 2 2, demo_persist_segment ''r'' ''S'' 7 7 1 1 1],
      cat_snapshots := [demo_snapshot 7 1], cat_snapshot_segs := [demo_snapshot_segment 0]\<rparr>"

definition straddle_content :: "uuid \<Rightarrow> version list" where
  "straddle_content x =
     (if x = ''o'' then [demo_version ''u'' 1 5 0 0] else if x = ''p'' then [demo_version ''u'' 1 5 0 0, demo_version ''w'' 2 20 2 2]
      else if x = ''q'' \<or> x = ''r'' then [demo_version ''u'' 0 7 1 1] else [])"

definition straddle_hot :: hot_table where
  "straddle_hot = \<lparr>ht_upserts = [\<lparr>up_version = ''1'', up_row = ''u'', up_tx = ''x'', up_wseq = 0, up_cols = [''v'' \<mapsto> Cell True (VInt 1)]\<rparr>,
       \<lparr>up_version = ''2'', up_row = ''w'', up_tx = ''z'', up_wseq = 2, up_cols = [''v'' \<mapsto> Cell True (VInt 2)]\<rparr>],
     ht_deletes = [\<lparr>dl_version = ''3'', dl_row = ''u'', dl_pk = [''v'' \<mapsto> Cell True (VInt 0)], dl_tx = ''y'', dl_wseq = 1\<rparr>], ht_write_seq = 3\<rparr>"

definition straddle_log :: tx_log where
  "straddle_log = demo_log [demo_commit ''x'' 5 0, demo_commit ''y'' 7 1, demo_commit ''z'' 20 2]"

definition straddle_upserts :: "version set" where
  "straddle_upserts = set [demo_version ''u'' 1 5 0 0, demo_version ''w'' 2 20 2 2]"

definition straddle_deletes :: "version set" where
  "straddle_deletes = set [demo_version ''u'' 0 7 1 1]"

lemma straddle_facts:
  "listed ''b'' ''t'' straddle_catalog (demo_persist_segment u p lo hi m n c) =
     (if p = ''P'' \<or> p = ''Q'' then Some (UpsertLog, demo_persist_segment u p lo hi m n c)
      else if p = ''R'' \<or> p = ''S'' then Some (DeleteLog, demo_persist_segment u p lo hi m n c) else None)"
  "cat_persist_segs straddle_catalog = [demo_persist_segment ''o'' ''P'' 5 5 0 0 1, demo_persist_segment ''q'' ''R'' 7 7 1 1 1,
     demo_persist_segment ''p'' ''Q'' 5 20 0 2 2, demo_persist_segment ''r'' ''S'' 7 7 1 1 1]"
  "cat_snapshot_segs straddle_catalog = [demo_snapshot_segment 0]" "cat_sidecars straddle_catalog = []" "cat_snapshot_indexes straddle_catalog = []"
  "cat_snapshots straddle_catalog = [demo_snapshot 7 1]"
  "latest_committed_table_persist_watermark ''b'' ''t'' straddle_catalog = Some 20"
  "latest_committed_table_purge_seq_watermark ''b'' ''t'' straddle_catalog = None"
  "committed_snapshots ''b'' ''t'' None None straddle_catalog = [demo_snapshot 7 1]"
  by (simp_all add: listed_def persist_parent_def persist_key_def latest_committed_table_persist_watermark_def committed_persists_def sql_max_def
      latest_committed_table_purge_seq_watermark_def max_committed_purge_column_def committed_snapshots_def straddle_catalog_def empty_catalog_def demo_rows map_filter_simps)

definition straddle_plan :: read_plan where
  "straddle_plan = assemble_plan 21 (Some 1) True i64_max
     \<lparr>ci_snapshotted_at = Some 7, ci_snapshot_seq = 1, ci_snapshot_segments = [], ci_indexes = [],
      ci_upserts = [\<lparr>seg_uuid = ''p'', seg_uri = ''p'', seg_format = Parquet, seg_row_count = 2, seg_size_bytes = 0, seg_metadata_json = ''{}'',
         seg_statistics = [], seg_offset = None, seg_length = None, seg_max_commit_seq_num = Some 2, seg_content_hash = []\<rparr>], ci_deletes = []\<rparr>"

lemma straddle_planned:
  "plan id 0 None [] ''c'' ''t'' ''b'' i64_max (Some 2) None straddle_hot straddle_catalog = Inr (straddle_plan, None, None)"
proof -
  have pick: "pick_snapshot ''b'' ''t'' (Some 20) (Some 2) straddle_catalog = Some (demo_snapshot 7 1)"
    by (simp add: pick_snapshot_def committed_snapshots_def straddle_facts sql_top_def demo_snapshot_def)
  have join: "snapshot_join_rows ''b'' n (demo_snapshot 7 1) straddle_catalog = [(demo_snapshot_segment 0, None, None)]" for n
    by (simp add: snapshot_join_rows_def straddle_facts index_parents_def index_children_def demo_rows)
  have snap: "read_snapshot_segments_for_table id ''c'' ''b'' ''t'' (Some 20) (Some 2) None straddle_catalog =
      Inr (no_snapshot\<lparr>sr_snapshotted_at := Some 7, sr_seq := Some 1, sr_partition_keys := Some [], sr_clustering_keys := Some []\<rparr>)"
    by (simp add: read_snapshot_segments_for_table_def pick join) (simp add: fold_join_row_def rbind_def push_index_def_def no_snapshot_def demo_rows)
  have segs: "read_persist_segments_for_window ''b'' ''t'' (Some 8) (Some 21) (Some 2) straddle_catalog =
      Inr ([\<lparr>seg_uuid = ''p'', seg_uri = ''p'', seg_format = Parquet, seg_row_count = 2, seg_size_bytes = 0, seg_metadata_json = ''{}'',
         seg_statistics = [], seg_offset = None, seg_length = None, seg_max_commit_seq_num = Some 2, seg_content_hash = []\<rparr>], [])"
    by (simp add: read_persist_segments_for_window_def read_and_classify_persist_segments_def listing_rows_def straddle_facts map_filter_simps
        persist_segment_overlap_clause_def i64_saturating_add_def i64_max_def i64_min_def rbind_def listed_segment_def)
      (simp add: demo_rows format_from_str_def)
  have bounds: "compute_snapshot_picker_as_of i64_max 21 = 20" "cold_committed_at_max i64_max 21 = 21" "i64_saturating_add 7 1 = 8"
    by (simp_all add: compute_snapshot_picker_as_of_def cold_committed_at_max_def i64_saturating_add_def i64_max_def i64_min_def)
  have fence: "phase_one_fence_and_existence ''b'' ''t'' 1 straddle_hot straddle_catalog = (1, True)"
    by (simp add: phase_one_fence_and_existence_def straddle_facts straddle_hot_def)
  have inputs: "plan_inputs_of id None ''c'' ''t'' ''b'' i64_max (Some 2) 21 pk straddle_hot straddle_catalog =
      Inr (\<lparr>ci_snapshotted_at = Some 7, ci_snapshot_seq = 1, ci_snapshot_segments = [], ci_indexes = [],
        ci_upserts = [\<lparr>seg_uuid = ''p'', seg_uri = ''p'', seg_format = Parquet, seg_row_count = 2, seg_size_bytes = 0, seg_metadata_json = ''{}'',
         seg_statistics = [], seg_offset = None, seg_length = None, seg_max_commit_seq_num = Some 2, seg_content_hash = []\<rparr>], ci_deletes = []\<rparr>,
        Some 1, True, None)" for pk
    by (simp add: plan_inputs_of_def list_snapshot_segments_def bounds snap segs fence rbind_def no_snapshot_def)
  show ?thesis
    by (simp add: plan_def hot_min_and_snapshot_pick_def straddle_facts read_branch_lineage_def inputs straddle_plan_def assemble_plan_def)
qed

lemma straddle_read:
  "\<exists>out. read_data demo_merge_lib (content_driver straddle_content (\<lambda>_. [])) id 0 None [] ''c'' ''t'' ''b'' None demo_request None straddle_hot
       straddle_log straddle_catalog = Inr out \<and> fst ` set out = {''u'', ''w''}"
proof -
  let ?dl = "content_driver straddle_content (\<lambda>_. [])" and ?rq = "demo_request\<lparr>rq_seeks := identity_seeks None, rq_order := ByCompletion\<rparr>"
  have rq: "rq_snapshot demo_request = LatestSeq 2" "user_cols_of ?rq = {''v''}"
    by (simp_all add: demo_request_def user_cols_of_def)
  have plan: "\<not> is_all_hot straddle_plan" "\<not> is_all_cold straddle_plan" "pl_base straddle_plan = None"
    by (simp_all add: straddle_plan_def assemble_plan_def is_all_hot_def is_all_cold_def plan_cold_storage_def cold_plan_of_def)
  have run: "read_data demo_merge_lib ?dl id 0 None [] ''c'' ''t'' ''b'' None demo_request None straddle_hot straddle_log straddle_catalog =
      stream_merged demo_merge_lib ?dl ?rq straddle_plan straddle_hot straddle_log"
    by (simp add: read_data_def rq straddle_planned read_dispatch_def plan)
  have cold: "cold_sources ?dl (pl_cold straddle_plan) (Some 2) None = Inr ([demo_version ''u'' 1 5 0 0], [])"
    by (simp add: cold_sources_def straddle_plan_def assemble_plan_def plan_cold_storage_def cold_plan_of_def content_driver_def straddle_content_def
      rbind_def cold_source_def extract_committed_at_bounds_def cold_visibility_clause_def row_uuid_in_clause_def Let_def i64_saturating_add_def i64_max_def i64_min_def)
  have snap: "snapshot_rows ?dl straddle_plan = Inr []"
    by (simp add: snapshot_rows_def plan_snapshot_leg_def straddle_plan_def assemble_plan_def plan_cold_storage_def cold_plan_of_def)
  have hot: "hot_sources straddle_plan (LatestSeq 2) None straddle_hot straddle_log = ([demo_version ''w'' 2 20 2 2], [])"
    by (simp add: hot_sources_def straddle_plan_def assemble_plan_def plan_hot_storage_def committed_tx_def hot_upsert_source_def hot_delete_source_def
      extract_committed_at_bounds_def read_snapshot_clause_def open_tx_union_clause_def straddle_log_def demo_log_def demo_commit_def straddle_hot_def
      upsert_version_def demo_version_def row_uuid_in_clause_def i64_max_def)
  have live: "row_live straddle_upserts (set []) v \<longleftrightarrow> v \<in> {demo_version ''u'' 1 5 0 0, demo_version ''w'' 2 20 2 2}" for v
    unfolding straddle_upserts_def row_live_list by (simp add: older_def)
  have "\<exists>out. stream_merged demo_merge_lib ?dl ?rq straddle_plan straddle_hot straddle_log = Inr out \<and> distinct (map fst out) \<and>
      set out = read_view straddle_upserts (set []) (user_cols_of ?rq) None None"
  proof (rule merged_read_rows[where cold = "([demo_version ''u'' 1 5 0 0], [])" and batches = "[]" and fence = "Some 1" and s_at = None])
    show "request_row_uuids ?rq = Inr None" by (rule identity_seeks_restrict) simp
    show "residual_filter demo_merge_lib (rq_filter ?rq) = Inr None" by (simp add: residual_filter_def demo_request_def)
    show "tiers_hold straddle_upserts (set []) (Some 1) None (hot_sources straddle_plan (rq_snapshot ?rq) None straddle_hot straddle_log)
        ([demo_version ''u'' 1 5 0 0], []) (concat [])"
      by (auto simp: rq hot tiers_hold_def straddle_upserts_def above_def past_def row_live_def)
    show "ordered_versions straddle_upserts" by (auto simp: ordered_versions_def straddle_upserts_def older_def)
    show "in_commit_order (straddle_upserts \<union> set [])" by (auto simp: in_commit_order_def straddle_upserts_def)
    show "\<forall>v. row_live straddle_upserts (set []) v \<longrightarrow> (\<forall>f \<in> set (rq_user_schema ?rq). field_nullable f \<or> \<not> is_null (lv_cols v (field_name f)))"
      unfolding live by (auto simp: demo_request_def is_null_def)
  qed (simp_all add: rq plan cold snap prune_sound_def cold_commit_seq_upper_def demo_request_def)
  moreover have "fst ` read_view straddle_upserts (set []) {''v''} None None = {''u'', ''w''}"
    unfolding read_view_def live Collect_mem_eq by (auto simp: project_row_def version_row_def row_uuid_in_clause_def image_iff)
  ultimately show ?thesis unfolding run rq(2) by metis
qed

lemma straddle_live: "row_live straddle_upserts straddle_deletes v \<longleftrightarrow> v = demo_version ''w'' 2 20 2 2"
  unfolding straddle_upserts_def straddle_deletes_def row_live_list by (simp add: older_def)

text \<open>C2: whatever else holds of a table, a segment that straddles a snapshot brings a deleted row back: every part of the
  table invariant but \<open>no_straddle\<close> holds, row \<open>u\<close> is deleted, and the read returns it.\<close>

theorem straddling_segment_resurrects:
  "hot_holds straddle_upserts straddle_deletes (latest_committed_table_purge_seq_watermark ''b'' ''t'' straddle_catalog) straddle_hot straddle_log \<and>
   segments_sound straddle_content ''b'' ''t'' straddle_catalog straddle_upserts straddle_deletes \<and>
   segments_complete straddle_content ''b'' ''t'' straddle_catalog straddle_upserts straddle_deletes \<and>
   snapshots_sound (\<lambda>_. []) ''b'' ''t'' straddle_catalog straddle_upserts straddle_deletes \<and>
   times_ok ''b'' ''t'' straddle_catalog (straddle_upserts \<union> straddle_deletes) \<and>
   \<not> (\<exists>v. row_live straddle_upserts straddle_deletes v \<and> lv_row v = ''u'') \<and>
   (\<exists>out. read_data demo_merge_lib (content_driver straddle_content (\<lambda>_. [])) id 0 None [] ''c'' ''t'' ''b'' None demo_request None straddle_hot
       straddle_log straddle_catalog = Inr out \<and> ''u'' \<in> fst ` set out)"
proof (intro conjI)
  have hot: "read_committed_upserts None None straddle_hot straddle_log = [demo_version ''u'' 1 5 0 0, demo_version ''w'' 2 20 2 2]"
    "read_committed_deletes None None straddle_hot straddle_log = [demo_version ''u'' 0 7 1 1]"
    by (simp_all add: read_committed_upserts_def read_committed_deletes_def build_committed_at_filter_def straddle_hot_def straddle_log_def demo_log_def
        demo_commit_def upsert_version_def delete_version_def demo_version_def)
  show "hot_holds straddle_upserts straddle_deletes (latest_committed_table_purge_seq_watermark ''b'' ''t'' straddle_catalog) straddle_hot straddle_log"
    unfolding hot_holds_def hot by (auto simp: straddle_upserts_def straddle_deletes_def)
  show "segments_sound straddle_content ''b'' ''t'' straddle_catalog straddle_upserts straddle_deletes"
    unfolding segments_sound_def listed_all straddle_facts(2)
    by (simp add: straddle_facts straddle_content_def straddle_upserts_def straddle_deletes_def kind_versions_def)
  show "segments_complete straddle_content ''b'' ''t'' straddle_catalog straddle_upserts straddle_deletes"
    unfolding segments_complete_def straddle_facts(2,7,8,9)
    by (simp add: all_log_kind straddle_facts straddle_content_def straddle_upserts_def straddle_deletes_def kind_versions_def demo_snapshot_def)
  show "times_ok ''b'' ''t'' straddle_catalog (straddle_upserts \<union> straddle_deletes)"
    unfolding times_ok_def straddle_facts(7,9) by (simp add: straddle_upserts_def straddle_deletes_def demo_snapshot_def i64_max_def)
  show "\<not> (\<exists>v. row_live straddle_upserts straddle_deletes v \<and> lv_row v = ''u'')" unfolding straddle_live by auto
  show "\<exists>out. read_data demo_merge_lib (content_driver straddle_content (\<lambda>_. [])) id 0 None [] ''c'' ''t'' ''b'' None demo_request None straddle_hot
       straddle_log straddle_catalog = Inr out \<and> ''u'' \<in> fst ` set out"
    by (rule ex_forward[OF straddle_read]) (erule conj_forward, assumption, erule ssubst, rule insertI1)
  have none: "\<not> row_live {v \<in> straddle_upserts. \<not> past (Some 7) v} {v \<in> straddle_deletes. \<not> past (Some 7) v} v" for v
    unfolding straddle_upserts_def straddle_deletes_def set_filter[symmetric] row_live_list by (simp add: older_def past_def)
  have segs: "snapshot_segment_rows ''b'' (demo_snapshot 7 1) straddle_catalog = {demo_snapshot_segment 0}"
    unfolding snapshot_segment_rows_def straddle_facts(3) by (auto simp: demo_rows)
  have wf: "snapshot_rows_wf ''b'' straddle_catalog" unfolding snapshot_rows_wf_def straddle_facts(3,4) by (simp add: demo_snapshot_segment_def)
  have seqs: "\<forall>v \<in> straddle_upserts \<union> straddle_deletes. \<not> past (Some 7) v \<longrightarrow> lv_seq v \<le> 1"
    by (simp add: straddle_upserts_def straddle_deletes_def past_def)
  have at: "sm_snapshotted_at (demo_snapshot 7 1) = 7" "sm_seq (demo_snapshot 7 1) = 1" by (simp_all add: demo_snapshot_def)
  show "snapshots_sound (\<lambda>_. []) ''b'' ''t'' straddle_catalog straddle_upserts straddle_deletes"
    unfolding snapshots_sound_def straddle_facts(9) using wf seqs by (simp add: segs at none)
qed

end
