(* ===== verification/Tx_Archive.thy ===== *)
theory Tx_Archive
  imports Tx_Log Cold_Catalog
begin

text \<open>
  The cold archive of the commit log (\<open>penca-api/src/lifecycle/persist_tx_log.rs\<close> over the statements of
  \<open>penca-storage-meta/src/tx_log.rs\<close>): committed transactions past the archive's watermark are
  written to one file per run, recorded in two phases, and leftovers of crashed runs are reclaimed
  first.  Database failures inside a run are not modelled; failures of the object store are.
\<close>

section \<open>Segment rows\<close>

record tx_log_segment =
  tg_uuid :: uuid
  tg_branch :: uuid
  tg_min_seq :: int
  tg_max_seq :: int
  tg_min_micros :: int
  tg_max_micros :: int
  tg_uri :: string
  tg_row_count :: int
  tg_format :: string
  tg_committed :: "int option"

definition tx_segment_key :: "uuid \<Rightarrow> uuid \<Rightarrow> tx_log_segment \<Rightarrow> bool" where
  "tx_segment_key branch u s = (tg_branch s = branch \<and> tg_uuid s = u)"

definition insert_tx_log_persist_segment :: "uuid \<Rightarrow> uuid \<Rightarrow> int \<times> int \<Rightarrow> int \<times> int \<Rightarrow> string \<Rightarrow> int \<Rightarrow> string \<Rightarrow>
    tx_log_segment list \<Rightarrow> tx_log_segment list" where
  "insert_tx_log_persist_segment branch u seq_bounds micros_bounds uri row_count format_text segs =
     sql_upsert (tx_segment_key branch u)
       (\<lambda>s. s\<lparr>tg_uri := uri, tg_row_count := row_count, tg_format := format_text, tg_min_seq := fst seq_bounds,
             tg_max_seq := snd seq_bounds, tg_min_micros := fst micros_bounds, tg_max_micros := snd micros_bounds\<rparr>)
       \<lparr>tg_uuid = u, tg_branch = branch, tg_min_seq = fst seq_bounds, tg_max_seq = snd seq_bounds,
        tg_min_micros = fst micros_bounds, tg_max_micros = snd micros_bounds, tg_uri = uri, tg_row_count = row_count,
        tg_format = format_text, tg_committed = None\<rparr> segs"

definition commit_tx_log_persist_segment :: "int \<Rightarrow> uuid \<Rightarrow> uuid \<Rightarrow> tx_log_segment list \<Rightarrow> tx_log_segment list" where
  "commit_tx_log_persist_segment now branch u segs =
     sql_update (tx_segment_key branch u) (\<lambda>s. s\<lparr>tg_committed := Some now\<rparr>) segs"

definition list_uncommitted_tx_log_segments :: "uuid \<Rightarrow> tx_log_segment list \<Rightarrow> (uuid \<times> string) list" where
  "list_uncommitted_tx_log_segments branch segs =
     map (\<lambda>s. (tg_uuid s, tg_uri s)) (filter (\<lambda>s. tg_branch s = branch \<and> tg_committed s = None) segs)"

definition delete_uncommitted_tx_log_persist_segment :: "uuid \<Rightarrow> uuid \<Rightarrow> tx_log_segment list \<Rightarrow> tx_log_segment list" where
  "delete_uncommitted_tx_log_persist_segment branch u segs =
     sql_delete (\<lambda>s. tx_segment_key branch u s \<and> tg_committed s = None) segs"

definition tx_log_persist_watermark :: "uuid \<Rightarrow> tx_log_segment list \<Rightarrow> int option" where
  "tx_log_persist_watermark branch segs =
     sql_max (map tg_max_seq (filter (\<lambda>s. tg_branch s = branch \<and> tg_committed s \<noteq> None) segs))"

definition read_committed_tx_log_segments :: "uuid \<Rightarrow> tx_log_segment list \<Rightarrow> tx_log_segment list" where
  "read_committed_tx_log_segments branch segs =
     sort_key tg_min_seq (filter (\<lambda>s. tg_branch s = branch \<and> tg_committed s \<noteq> None) segs)"

section \<open>The commit map\<close>

definition tx_log_arrow_schema :: "afield list" where
  "tx_log_arrow_schema = [AField ''commit_seq_num'' DtInt64 False, AField ''commit_micros'' DtInt64 False,
     AField ''author'' DtUtf8 False, AField ''comment'' DtUtf8 False]"

definition tx_log_batch :: "commit_row list \<Rightarrow> record_batch result" where
  "tx_log_batch cs =
     (case try_new tx_log_arrow_schema
        [(DtInt64, map (\<lambda>c. Cell True (VInt (ct_seq c))) cs), (DtInt64, map (\<lambda>c. Cell True (VInt (ct_micros c))) cs),
         (DtUtf8, map (\<lambda>c. Cell True (VBytes (ct_author c))) cs), (DtUtf8, map (\<lambda>c. Cell True (VBytes (ct_comment c))) cs)] of
        Inl e \<Rightarrow> Inl (Internal (''build tx_log batch: '' @ (case e of ArrowErr m \<Rightarrow> m | _ \<Rightarrow> [])))
      | Inr b \<Rightarrow> Inr b)"

definition tx_log_rows :: "int \<Rightarrow> int \<Rightarrow> tx_log \<Rightarrow> commit_row list" where
  "tx_log_rows w_txlog target log = sort_key ct_seq (filter (\<lambda>c. w_txlog < ct_seq c \<and> ct_seq c \<le> target) (tl_commits log))"

section \<open>The operation\<close>

type_synonym archive = "file_store \<times> tx_log_segment list"

definition reclaim_tx_log_segment :: "store_faults \<Rightarrow> uuid \<Rightarrow> uuid \<times> string \<Rightarrow> archive \<Rightarrow> archive" where
  "reclaim_tx_log_segment faults branch = (\<lambda>(u, uri) (store, segs).
     case delete_segment faults store uri True of
       Inl _ \<Rightarrow> (store, segs)
     | Inr store' \<Rightarrow> (store', delete_uncommitted_tx_log_persist_segment branch u segs))"

definition reclaim_tx_log_segments :: "store_faults \<Rightarrow> uuid \<Rightarrow> archive \<Rightarrow> archive" where
  "reclaim_tx_log_segments faults branch a =
     fold (reclaim_tx_log_segment faults branch) (list_uncommitted_tx_log_segments branch (snd a)) a"

text \<open>The two-phase write of the non-empty rows \<open>cs\<close>.\<close>

definition flush_tx_log :: "hash_fn \<Rightarrow> string \<Rightarrow> format \<Rightarrow> store_faults \<Rightarrow> int \<Rightarrow> uuid \<Rightarrow> uuid \<Rightarrow> commit_row list \<Rightarrow> archive \<Rightarrow>
    archive \<times> unit result" where
  "flush_tx_log h base fmt faults now catalog branch cs = (\<lambda>(store, segs).
     case tx_log_batch cs of
       Inl e \<Rightarrow> ((store, segs), Inl e)
     | Inr batch \<Rightarrow>
         let max_seq = ct_seq (last cs);
             u = tx_log_persist_segment_uuid h catalog branch max_seq;
             uri = tx_log_persist_segment_uri base catalog branch u (extension fmt);
             segs1 = insert_tx_log_persist_segment branch u (ct_seq (List.hd cs), max_seq)
               (Min (ct_micros ` set cs), Max (ct_micros ` set cs)) uri (int (length cs)) (extension fmt) segs in
         case write_cold_file faults store uri batch of
           Inl e \<Rightarrow>
             ((case delete_segment faults store uri True of Inl _ \<Rightarrow> store | Inr store' \<Rightarrow> store',
               delete_uncommitted_tx_log_persist_segment branch u segs1), Inl e)
         | Inr (store', _) \<Rightarrow> ((store', commit_tx_log_persist_segment now branch u segs1), Inr ()))"

definition persist_tx_log_locked :: "hash_fn \<Rightarrow> string \<Rightarrow> format \<Rightarrow> store_faults \<Rightarrow> int \<Rightarrow> uuid \<Rightarrow> uuid \<Rightarrow> int \<Rightarrow> tx_log \<Rightarrow>
    archive \<Rightarrow> archive \<times> unit result" where
  "persist_tx_log_locked h base fmt faults now catalog branch target log a =
     (let a1 = reclaim_tx_log_segments faults branch a;
          w_txlog = (case tx_log_persist_watermark branch (snd a1) of None \<Rightarrow> -1 | Some w \<Rightarrow> w);
          cs = tx_log_rows w_txlog target log in
      if target \<le> w_txlog then (a1, Inr ())
      else if cs = [] then (a1, Inr ())
      else flush_tx_log h base fmt faults now catalog branch cs a1)"

definition persist_tx_log :: "hash_fn \<Rightarrow> string \<Rightarrow> format \<Rightarrow> store_faults \<Rightarrow> int \<Rightarrow> uuid \<Rightarrow> uuid \<Rightarrow> int \<Rightarrow> tx_log \<Rightarrow> archive \<Rightarrow>
    archive \<times> unit result" where
  "persist_tx_log h base fmt faults now catalog branch target log a =
     (if target \<le> (case tx_log_persist_watermark branch (snd a) of None \<Rightarrow> -1 | Some w \<Rightarrow> w) then (a, Inr ())
      else persist_tx_log_locked h base fmt faults now catalog branch target log a)"

section \<open>What the archive holds\<close>

definition commit_map_row :: "commit_row \<Rightarrow> row" where
  "commit_map_row c = [Cell True (VInt (ct_seq c)), Cell True (VInt (ct_micros c)), Cell True (VBytes (ct_author c)),
     Cell True (VBytes (ct_comment c))]"

lemma tx_log_batch_rows: "tx_log_batch cs = Inr \<lparr>schema = tx_log_arrow_schema, rows = map commit_map_row cs\<rparr>"
proof -
  have "map (\<lambda>i. [Cell True (VInt (ct_seq (cs ! i))), Cell True (VInt (ct_micros (cs ! i))), Cell True (VBytes (ct_author (cs ! i))),
     Cell True (VBytes (ct_comment (cs ! i)))]) [0..<length cs] = map commit_map_row cs"
    by (rule nth_equalityI) (simp_all add: commit_map_row_def)
  moreover have "map (\<lambda>i. [map (\<lambda>c. Cell True (VInt (ct_seq c))) cs ! i, map (\<lambda>c. Cell True (VInt (ct_micros c))) cs ! i,
      map (\<lambda>c. Cell True (VBytes (ct_author c))) cs ! i, map (\<lambda>c. Cell True (VBytes (ct_comment c))) cs ! i]) [0..<length cs] =
    map (\<lambda>i. [Cell True (VInt (ct_seq (cs ! i))), Cell True (VInt (ct_micros (cs ! i))), Cell True (VBytes (ct_author (cs ! i))),
     Cell True (VBytes (ct_comment (cs ! i)))]) [0..<length cs]"
    by (rule map_cong) simp_all
  ultimately show ?thesis
    by (simp add: tx_log_batch_def try_new_def tx_log_arrow_schema_def list_all_iff)
qed

definition segment_holds :: "file_store \<Rightarrow> tx_log_segment \<Rightarrow> commit_row \<Rightarrow> bool" where
  "segment_holds store s c =
     (tg_min_seq s \<le> ct_seq c \<and> ct_seq c \<le> tg_max_seq s \<and>
      (case store (tg_uri s) of None \<Rightarrow> False | Some b \<Rightarrow> commit_map_row c \<in> set (rows b)))"

definition archived :: "uuid \<Rightarrow> archive \<Rightarrow> commit_row \<Rightarrow> bool" where
  "archived branch a c = (\<exists>s \<in> set (read_committed_tx_log_segments branch (snd a)). segment_holds (fst a) s c)"

text \<open>Every commit \<open>hist\<close> ever recorded is still in the hot log or in the archive, and in the archive
  when the archive's watermark covers it.\<close>

definition archive_holds :: "uuid \<Rightarrow> commit_row set \<Rightarrow> tx_log \<Rightarrow> archive \<Rightarrow> bool" where
  "archive_holds branch hist log a =
     (set (tl_commits log) \<subseteq> hist \<and> (\<forall>c \<in> hist. c \<in> set (tl_commits log) \<or> archived branch a c) \<and>
      (\<forall>w. tx_log_persist_watermark branch (snd a) = Some w \<longrightarrow> (\<forall>c \<in> hist. ct_seq c \<le> w \<longrightarrow> archived branch a c)))"

text \<open>The rows of a branch: the segment's identity and file are named after its last commit.\<close>

definition archive_wf :: "hash_fn \<Rightarrow> string \<Rightarrow> uuid \<Rightarrow> uuid \<Rightarrow> commit_row set \<Rightarrow> tx_log_segment list \<Rightarrow> bool" where
  "archive_wf h base catalog branch hist segs =
     (distinct (map (\<lambda>s. (tg_branch s, tg_uuid s)) segs) \<and>
      (\<forall>s \<in> set segs. tg_branch s = branch \<longrightarrow> tg_max_seq s \<in> ct_seq ` hist \<and>
         tg_uuid s = tx_log_persist_segment_uuid h catalog branch (tg_max_seq s) \<and>
         (\<exists>e. tg_uri s = tx_log_persist_segment_uri base catalog branch (tg_uuid s) e)))"

section \<open>Files and names\<close>

definition committed_tx_segments :: "uuid \<Rightarrow> tx_log_segment list \<Rightarrow> tx_log_segment list" where
  "committed_tx_segments branch segs = filter (\<lambda>s. tg_branch s = branch \<and> tg_committed s \<noteq> None) segs"

lemma archived_iff: "archived branch a c \<longleftrightarrow> (\<exists>s \<in> set (committed_tx_segments branch (snd a)). segment_holds (fst a) s c)"
  by (simp add: archived_def read_committed_tx_log_segments_def committed_tx_segments_def)

lemma watermark_committed: "tx_log_persist_watermark branch segs = sql_max (map tg_max_seq (committed_tx_segments branch segs))"
  by (simp add: tx_log_persist_watermark_def committed_tx_segments_def)

lemma archived_mono:
  assumes "set (committed_tx_segments branch (snd a)) \<subseteq> set (committed_tx_segments branch (snd a'))"
    and "\<forall>s \<in> set (committed_tx_segments branch (snd a)). fst a' (tg_uri s) = fst a (tg_uri s)" and "archived branch a c"
  shows "archived branch a' c"
  using assms unfolding archived_iff segment_holds_def by (metis (no_types, lifting) subsetD)

lemma tx_uri_inject:
  assumes "wf_uuid u" "wf_uuid v"
  shows "tx_log_persist_segment_uri base c b u e = tx_log_persist_segment_uri base c b v e' \<longleftrightarrow> u = v \<and> e = e'"
  using assms by (simp add: tx_log_persist_segment_uri_def append_eq_append_conv)

text \<open>What the naming of segments relies on: the identities of the recorded positions are distinct UUIDs.\<close>

definition tx_names_ok :: "hash_fn \<Rightarrow> uuid \<Rightarrow> uuid \<Rightarrow> commit_row set \<Rightarrow> bool" where
  "tx_names_ok h catalog branch hist =
     (inj_on (tx_log_persist_segment_uuid h catalog branch) (ct_seq ` hist) \<and>
      (\<forall>c \<in> hist. wf_uuid (tx_log_persist_segment_uuid h catalog branch (ct_seq c))))"

lemma segment_file_owner:
  assumes wf: "archive_wf h base catalog branch hist segs" and names: "tx_names_ok h catalog branch hist"
    and s: "s \<in> set segs" "tg_branch s = branch"
    and uri: "tg_uri s = tx_log_persist_segment_uri base catalog branch (tx_log_persist_segment_uuid h catalog branch n) e" and n: "n \<in> ct_seq ` hist"
  shows "tg_max_seq s = n"
proof -
  obtain e' where row: "tg_max_seq s \<in> ct_seq ` hist" "tg_uuid s = tx_log_persist_segment_uuid h catalog branch (tg_max_seq s)"
    "tg_uri s = tx_log_persist_segment_uri base catalog branch (tg_uuid s) e'" using wf s unfolding archive_wf_def by blast
  have wfs: "wf_uuid (tg_uuid s)" "wf_uuid (tx_log_persist_segment_uuid h catalog branch n)"
    using names row(1,2) n unfolding tx_names_ok_def by auto
  have "tg_uuid s = tx_log_persist_segment_uuid h catalog branch n" using uri row(3) tx_uri_inject[OF wfs] by simp
  then show ?thesis using names row(1,2) n unfolding tx_names_ok_def by (metis inj_onD)
qed

lemma same_file_same_row:
  assumes wf: "archive_wf h base catalog branch hist segs" and names: "tx_names_ok h catalog branch hist"
    and s: "s \<in> set segs" "tg_branch s = branch" and t: "t \<in> set segs" "tg_branch t = branch" and uri: "tg_uri s = tg_uri t"
  shows "s = t"
proof -
  obtain e where row: "tg_max_seq t \<in> ct_seq ` hist" "tg_uuid t = tx_log_persist_segment_uuid h catalog branch (tg_max_seq t)"
    "tg_uri t = tx_log_persist_segment_uri base catalog branch (tg_uuid t) e" using wf t unfolding archive_wf_def by blast
  have max: "tg_max_seq s = tg_max_seq t" by (rule segment_file_owner[OF wf names s _ row(1)]) (use uri row(2,3) in simp)
  have "tg_uuid s = tg_uuid t" using wf s max row(2) unfolding archive_wf_def by simp
  then have "(tg_branch s, tg_uuid s) = (tg_branch t, tg_uuid t)" using s t by simp
  then show ?thesis using wf s(1) t(1) unfolding archive_wf_def distinct_map by (metis (mono_tags, lifting) inj_onD)
qed

section \<open>Reclaiming\<close>

lemma delete_segment_store: "delete_segment faults store uri True = Inr store' \<Longrightarrow> store' = store(uri := None)"
  by (auto simp: delete_segment_def delete_with_missing_ok_def split: option.splits)

lemma committed_after_delete [simp]:
  "committed_tx_segments branch (delete_uncommitted_tx_log_persist_segment b u segs) = committed_tx_segments branch segs"
  by (auto simp: committed_tx_segments_def delete_uncommitted_tx_log_persist_segment_def sql_delete_def intro: filter_cong)

lemma archive_wf_delete:
  "archive_wf h base catalog branch hist segs \<Longrightarrow>
     archive_wf h base catalog branch hist (delete_uncommitted_tx_log_persist_segment b u segs)"
  unfolding archive_wf_def delete_uncommitted_tx_log_persist_segment_def sql_delete_def
  by (intro conjI distinct_map_filter) (simp_all only: set_filter mem_Collect_eq, blast)

text \<open>Steps that only drop uncommitted rows and files no committed segment names.\<close>

definition keeps_committed :: "hash_fn \<Rightarrow> string \<Rightarrow> uuid \<Rightarrow> uuid \<Rightarrow> commit_row set \<Rightarrow> archive \<Rightarrow> archive \<Rightarrow> bool" where
  "keeps_committed h base catalog branch hist a a' =
     (committed_tx_segments branch (snd a') = committed_tx_segments branch (snd a) \<and> archive_wf h base catalog branch hist (snd a') \<and>
      (\<forall>s \<in> set (committed_tx_segments branch (snd a)). fst a' (tg_uri s) = fst a (tg_uri s)))"

lemma reclaim_step:
  assumes wf: "archive_wf h base catalog branch hist (snd a)" and "\<forall>s \<in> set (committed_tx_segments branch (snd a)). tg_uri s \<noteq> uri"
  shows "keeps_committed h base catalog branch hist a (reclaim_tx_log_segment faults branch (u, uri) a)"
  using assms archive_wf_delete[OF wf]
  by (auto simp: keeps_committed_def reclaim_tx_log_segment_def split_beta dest: delete_segment_store split: sum.splits)

lemma reclaim_keeps:
  assumes wf: "archive_wf h base catalog branch hist (snd a)" and "\<forall>(u, uri) \<in> set ps. \<forall>s \<in> set (committed_tx_segments branch (snd a)). tg_uri s \<noteq> uri"
  shows "keeps_committed h base catalog branch hist a (fold (reclaim_tx_log_segment faults branch) ps a)"
  using assms
proof (induction ps arbitrary: a)
  case Nil
  then show ?case by (simp add: keeps_committed_def)
next
  case (Cons p ps)
  obtain u uri where p: "p = (u, uri)" by (cases p)
  define b where "b = reclaim_tx_log_segment faults branch (u, uri) a"
  have "\<forall>s \<in> set (committed_tx_segments branch (snd a)). tg_uri s \<noteq> uri" using Cons.prems(2) p by simp
  from reclaim_step[OF Cons.prems(1) this] have b: "keeps_committed h base catalog branch hist a b" unfolding b_def .
  then have "keeps_committed h base catalog branch hist b (fold (reclaim_tx_log_segment faults branch) ps b)"
    using Cons by (simp add: keeps_committed_def)
  then show ?case using b unfolding p fold.simps o_apply b_def[symmetric] by (simp add: keeps_committed_def)
qed

lemma reclaim_all:
  assumes wf: "archive_wf h base catalog branch hist (snd a)" and names: "tx_names_ok h catalog branch hist"
  shows "keeps_committed h base catalog branch hist a (reclaim_tx_log_segments faults branch a)"
  unfolding reclaim_tx_log_segments_def
proof (rule reclaim_keeps[OF wf], clarify)
  fix u t assume "(u, tg_uri t) \<in> set (list_uncommitted_tx_log_segments branch (snd a))" "t \<in> set (committed_tx_segments branch (snd a))"
  then obtain s where s: "s \<in> set (snd a)" "tg_branch s = branch" "tg_committed s = None" "tg_uri s = tg_uri t"
    and t: "t \<in> set (snd a)" "tg_branch t = branch" "tg_committed t \<noteq> None"
    by (auto simp: list_uncommitted_tx_log_segments_def committed_tx_segments_def)
  have "s = t" by (rule same_file_same_row[OF wf names s(1,2) t(1,2) s(4)])
  then show False using s(3) t(3) by simp
qed

lemma keeps_committed_holds:
  assumes "keeps_committed h base catalog branch hist a a'" "archive_holds branch hist log a"
  shows "archive_holds branch hist log a'"
proof -
  have arch: "archived branch a c \<Longrightarrow> archived branch a' c" for c
    by (rule archived_mono[of branch a a']) (use assms(1) in \<open>auto simp: keeps_committed_def\<close>)
  have wm: "tx_log_persist_watermark branch (snd a') = tx_log_persist_watermark branch (snd a)"
    using assms(1) by (simp add: watermark_committed keeps_committed_def)
  show ?thesis using assms(2) arch unfolding archive_holds_def wm by blast
qed

section \<open>Flushing\<close>

definition flushed_segment :: "hash_fn \<Rightarrow> string \<Rightarrow> format \<Rightarrow> int \<Rightarrow> uuid \<Rightarrow> uuid \<Rightarrow> commit_row list \<Rightarrow> tx_log_segment" where
  "flushed_segment h base fmt now catalog branch cs =
     (let u = tx_log_persist_segment_uuid h catalog branch (ct_seq (last cs)) in
      \<lparr>tg_uuid = u, tg_branch = branch, tg_min_seq = ct_seq (List.hd cs), tg_max_seq = ct_seq (last cs),
       tg_min_micros = Min (ct_micros ` set cs), tg_max_micros = Max (ct_micros ` set cs),
       tg_uri = tx_log_persist_segment_uri base catalog branch u (extension fmt), tg_row_count = int (length cs),
       tg_format = extension fmt, tg_committed = Some now\<rparr>)"

lemma sql_upsert_keys:
  assumes "\<And>r. key (f r) = key r" "\<And>r. hit r \<longleftrightarrow> key r = k" "key new = k" "distinct (map key tbl)"
  shows "distinct (map key (sql_upsert hit f new tbl))"
proof -
  have "map key (sql_update hit f tbl) = map key tbl" using assms(1) by (simp add: sql_update_def)
  then show ?thesis using assms(2,3,4) by (auto simp: sql_upsert_def)
qed

lemma sql_update_keys: "(\<And>r. key (f r) = key r) \<Longrightarrow> map key (sql_update hit f tbl) = map key tbl"
  by (simp add: sql_update_def)

lemma inserted_rows:
  fixes h base fmt now catalog branch cs segs
  defines "r \<equiv> flushed_segment h base fmt now catalog branch cs"
  defines "segs1 \<equiv> insert_tx_log_persist_segment branch (tg_uuid r) (ct_seq (List.hd cs), ct_seq (last cs))
      (Min (ct_micros ` set cs), Max (ct_micros ` set cs)) (tg_uri r) (int (length cs)) (extension fmt) segs"
  shows "set (commit_tx_log_persist_segment now branch (tg_uuid r) segs1) = {s \<in> set segs. \<not> tx_segment_key branch (tg_uuid r) s} \<union> {r}"
    and "{s \<in> set segs1. \<not> tx_segment_key branch (tg_uuid r) s} = {s \<in> set segs. \<not> tx_segment_key branch (tg_uuid r) s}"
    and "distinct (map (\<lambda>s. (tg_branch s, tg_uuid s)) segs) \<Longrightarrow> distinct (map (\<lambda>s. (tg_branch s, tg_uuid s)) segs1)"
proof -
  have r: "tg_uuid r = tx_log_persist_segment_uuid h catalog branch (ct_seq (last cs))" "tg_branch r = branch"
    by (simp_all add: r_def flushed_segment_def Let_def)
  show "{s \<in> set segs1. \<not> tx_segment_key branch (tg_uuid r) s} = {s \<in> set segs. \<not> tx_segment_key branch (tg_uuid r) s}"
    unfolding segs1_def insert_tx_log_persist_segment_def by (auto simp: set_sql_upsert tx_segment_key_def split: if_splits)
  moreover have "(\<lambda>s. s\<lparr>tg_committed := Some now\<rparr>) ` {s \<in> set segs1. tx_segment_key branch (tg_uuid r) s} = {r}"
  proof -
    have "s\<lparr>tg_committed := Some now\<rparr> = r" if s: "s \<in> set segs1" "tx_segment_key branch (tg_uuid r) s" for s
    proof -
      have "tg_branch s = branch" "tg_uuid s = tg_uuid r" using s(2) by (simp_all add: tx_segment_key_def)
      moreover have "tg_min_seq s = ct_seq (List.hd cs) \<and> tg_max_seq s = ct_seq (last cs) \<and> tg_min_micros s = Min (ct_micros ` set cs) \<and>
          tg_max_micros s = Max (ct_micros ` set cs) \<and> tg_uri s = tg_uri r \<and> tg_row_count s = int (length cs) \<and> tg_format s = extension fmt"
        using s unfolding segs1_def insert_tx_log_persist_segment_def set_sql_upsert by (auto split: if_splits)
      ultimately show ?thesis unfolding r_def flushed_segment_def Let_def by (intro tx_log_segment.equality) simp_all
    qed
    moreover have "\<exists>s \<in> set segs1. tx_segment_key branch (tg_uuid r) s"
    proof (cases "\<exists>s \<in> set segs. tx_segment_key branch (tg_uuid r) s")
      case True
      then obtain x where "x \<in> set segs" "tx_segment_key branch (tg_uuid r) x" by blast
      then show ?thesis unfolding segs1_def insert_tx_log_persist_segment_def set_sql_upsert if_P[OF True]
        by (intro bexI[OF _ UnI2[OF imageI[of x]]]) (simp_all add: tx_segment_key_def)
    next
      case False
      then show ?thesis unfolding segs1_def insert_tx_log_persist_segment_def set_sql_upsert if_not_P[OF False]
        by (intro bexI[OF _ UnI2[OF singletonI]]) (simp add: tx_segment_key_def)
    qed
    ultimately show ?thesis by blast
  qed
  ultimately show "set (commit_tx_log_persist_segment now branch (tg_uuid r) segs1) = {s \<in> set segs. \<not> tx_segment_key branch (tg_uuid r) s} \<union> {r}"
    unfolding commit_tx_log_persist_segment_def set_sql_update by simp
  show "distinct (map (\<lambda>s. (tg_branch s, tg_uuid s)) segs) \<Longrightarrow> distinct (map (\<lambda>s. (tg_branch s, tg_uuid s)) segs1)"
    unfolding segs1_def insert_tx_log_persist_segment_def
    by (rule sql_upsert_keys[where k = "(branch, tg_uuid r)"]) (auto simp: tx_segment_key_def)
qed

lemma flush_outcome:
  assumes wf: "archive_wf h base catalog branch hist (snd a)" and names: "tx_names_ok h catalog branch hist"
    and cs: "cs \<noteq> []" "set cs \<subseteq> hist" and new: "\<forall>s \<in> set (committed_tx_segments branch (snd a)). tg_max_seq s < ct_seq (last cs)"
    and run: "flush_tx_log h base fmt faults now catalog branch cs a = (a', r)"
  defines "seg \<equiv> flushed_segment h base fmt now catalog branch cs"
  shows "archive_wf h base catalog branch hist (snd a')"
    and "\<forall>s \<in> set (committed_tx_segments branch (snd a)). fst a' (tg_uri s) = fst a (tg_uri s)"
    and "r = Inr () \<Longrightarrow> set (committed_tx_segments branch (snd a')) = set (committed_tx_segments branch (snd a)) \<union> {seg}"
    and "r = Inr () \<Longrightarrow> fst a' (tg_uri seg) = Some \<lparr>schema = tx_log_arrow_schema, rows = map commit_map_row cs\<rparr>"
    and "r \<noteq> Inr () \<Longrightarrow> set (committed_tx_segments branch (snd a')) = set (committed_tx_segments branch (snd a))"
    and "put_fault faults (tg_uri seg) = None \<Longrightarrow> r = Inr ()"
proof -
  obtain store segs where a: "a = (store, segs)" by (cases a)
  let ?key = "tx_segment_key branch (tg_uuid seg)"
  define segs1 where "segs1 = insert_tx_log_persist_segment branch (tg_uuid seg) (ct_seq (List.hd cs), ct_seq (last cs))
      (Min (ct_micros ` set cs), Max (ct_micros ` set cs)) (tg_uri seg) (int (length cs)) (extension fmt) segs"
  note ins = inserted_rows[where h = h and base = base and fmt = fmt and now = now and catalog = catalog and branch = branch and cs = cs
      and segs = segs, folded seg_def, folded segs1_def]
  have sel: "tg_branch seg = branch" "tg_uuid seg = tx_log_persist_segment_uuid h catalog branch (ct_seq (last cs))" "tg_max_seq seg = ct_seq (last cs)"
    "tg_uri seg = tx_log_persist_segment_uri base catalog branch (tg_uuid seg) (extension fmt)" "tg_committed seg = Some now"
    by (simp_all add: seg_def flushed_segment_def Let_def)
  have last: "ct_seq (last cs) \<in> ct_seq ` hist" by (rule imageI[OF subsetD[OF cs(2) last_in_set[OF cs(1)]]])
  have rowwf: "tg_max_seq s \<in> ct_seq ` hist" "tg_uuid s = tx_log_persist_segment_uuid h catalog branch (tg_max_seq s)"
    if "s \<in> set segs" "tg_branch s = branch" for s using wf that unfolding a archive_wf_def by auto
  have fresh: "\<not> ?key s" "tg_uri s \<noteq> tg_uri seg" if "s \<in> set (committed_tx_segments branch segs)" for s
  proof -
    have s: "s \<in> set segs" "tg_branch s = branch" "tg_max_seq s \<noteq> ct_seq (last cs)"
      using that new by (auto simp: a committed_tx_segments_def)
    have "tg_uuid s \<noteq> tg_uuid seg"
      using rowwf[OF s(1,2)] s(3) last names unfolding sel(2) tx_names_ok_def by (metis inj_onD)
    then show "\<not> ?key s" by (simp add: tx_segment_key_def)
    show "tg_uri s \<noteq> tg_uri seg" using segment_file_owner[OF wf names _ s(2) _ last] s(1,3) unfolding sel(4) sel(2) a by auto
  qed
  have comm: "set (committed_tx_segments branch xs) = {s \<in> set xs. tg_branch s = branch \<and> tg_committed s \<noteq> None}" for xs
    by (auto simp: committed_tx_segments_def)
  have flush: "flush_tx_log h base fmt faults now catalog branch cs a =
      (case write_cold_file faults store (tg_uri seg) \<lparr>schema = tx_log_arrow_schema, rows = map commit_map_row cs\<rparr> of
           Inl e \<Rightarrow>
             ((case delete_segment faults store (tg_uri seg) True of Inl _ \<Rightarrow> store | Inr store' \<Rightarrow> store',
               delete_uncommitted_tx_log_persist_segment branch (tg_uuid seg) segs1), Inl e)
         | Inr (store', _) \<Rightarrow> ((store', commit_tx_log_persist_segment now branch (tg_uuid seg) segs1), Inr ()))"
    unfolding flush_tx_log_def a tx_log_batch_rows segs1_def sel(4) sel(2) by (simp add: Let_def)
  have keys1: "distinct (map (\<lambda>s. (tg_branch s, tg_uuid s)) segs1)" using wf ins(3) unfolding a archive_wf_def by simp
  have old: "tg_max_seq s \<in> ct_seq ` hist \<and> tg_uuid s = tx_log_persist_segment_uuid h catalog branch (tg_max_seq s) \<and>
      (\<exists>e. tg_uri s = tx_log_persist_segment_uri base catalog branch (tg_uuid s) e)" if "s \<in> set segs" "tg_branch s = branch" for s
    using wf that unfolding a archive_wf_def snd_conv by blast
  have new_row: "tg_max_seq seg \<in> ct_seq ` hist \<and> tg_uuid seg = tx_log_persist_segment_uuid h catalog branch (tg_max_seq seg) \<and>
      (\<exists>e. tg_uri seg = tx_log_persist_segment_uri base catalog branch (tg_uuid seg) e)"
    by (intro conjI exI[of _ "extension fmt"], unfold sel(3)) (rule last, rule sel(2), rule sel(4))
  have keys2: "distinct (map (\<lambda>s. (tg_branch s, tg_uuid s)) (commit_tx_log_persist_segment now branch (tg_uuid seg) segs1))"
    unfolding commit_tx_log_persist_segment_def
    by (subst sql_update_keys[where key = "\<lambda>s. (tg_branch s, tg_uuid s)"]) (simp, rule keys1)
  have "tg_committed s = None" if "s \<in> set segs1" "?key s" for s
  proof -
    have none: "tg_committed x = None" if "x \<in> set segs" "?key x" for x
    proof (rule ccontr)
      assume "tg_committed x \<noteq> None"
      then have "x \<in> set (committed_tx_segments branch segs)" using that by (simp add: comm tx_segment_key_def)
      then show False using fresh(1) that(2) by blast
    qed
    show ?thesis
    proof (cases "\<exists>x \<in> set segs. ?key x")
      case True
      then have "s \<in> {x \<in> set segs. \<not> ?key x} \<or> (\<exists>x \<in> set segs. ?key x \<and> tg_committed s = tg_committed x)"
        using that(1) unfolding segs1_def insert_tx_log_persist_segment_def set_sql_upsert if_P[OF True] by auto
      then show ?thesis using that(2) none by auto
    next
      case False
      then show ?thesis using that unfolding segs1_def insert_tx_log_persist_segment_def set_sql_upsert if_not_P[OF False] by auto
    qed
  qed
  then have dropped: "set (delete_uncommitted_tx_log_persist_segment branch (tg_uuid seg) segs1) = {s \<in> set segs. \<not> ?key s}"
    unfolding ins(2)[symmetric] delete_uncommitted_tx_log_persist_segment_def set_sql_delete by blast
  have keys3: "distinct (map (\<lambda>s. (tg_branch s, tg_uuid s)) (delete_uncommitted_tx_log_persist_segment branch (tg_uuid seg) segs1))"
    unfolding delete_uncommitted_tx_log_persist_segment_def sql_delete_def by (rule distinct_map_filter[OF keys1])
  have outcome: "(r = Inr () \<and> snd a' = commit_tx_log_persist_segment now branch (tg_uuid seg) segs1) \<or>
      (r \<noteq> Inr () \<and> snd a' = delete_uncommitted_tx_log_persist_segment branch (tg_uuid seg) segs1)"
    using run unfolding flush by (auto split: sum.splits)
  show "archive_wf h base catalog branch hist (snd a')"
    using outcome
  proof (elim disjE conjE)
    assume res: "snd a' = commit_tx_log_persist_segment now branch (tg_uuid seg) segs1"
    have rows: "tg_max_seq s \<in> ct_seq ` hist \<and> tg_uuid s = tx_log_persist_segment_uuid h catalog branch (tg_max_seq s) \<and>
      (\<exists>e. tg_uri s = tx_log_persist_segment_uri base catalog branch (tg_uuid s) e)" if "s \<in> {s \<in> set segs. \<not> ?key s} \<union> {seg}" "tg_branch s = branch" for s
      using that old new_row by blast
    show ?thesis unfolding archive_wf_def res ins(1) using keys2 rows by blast
  next
    assume res: "snd a' = delete_uncommitted_tx_log_persist_segment branch (tg_uuid seg) segs1"
    show ?thesis unfolding archive_wf_def res dropped using keys3 old by blast
  qed
  show "\<forall>s \<in> set (committed_tx_segments branch (snd a)). fst a' (tg_uri s) = fst a (tg_uri s)"
    using run fresh(2) unfolding flush by (auto simp: a write_cold_file_def write_file_def split: option.splits sum.splits dest!: delete_segment_store)
  show "r = Inr () \<Longrightarrow> fst a' (tg_uri seg) = Some \<lparr>schema = tx_log_arrow_schema, rows = map commit_map_row cs\<rparr>"
    using run unfolding flush by (auto simp: write_cold_file_def write_file_def split: option.splits)
  show "put_fault faults (tg_uri seg) = None \<Longrightarrow> r = Inr ()"
    using run unfolding flush by (auto simp: write_cold_file_def write_file_def split: option.splits)
  show "r = Inr () \<Longrightarrow> set (committed_tx_segments branch (snd a')) = set (committed_tx_segments branch (snd a)) \<union> {seg}"
    using outcome fresh(1) sel(1,5) unfolding comm by (auto simp: ins(1) a comm)
  show "r \<noteq> Inr () \<Longrightarrow> set (committed_tx_segments branch (snd a')) = set (committed_tx_segments branch (snd a))"
    using outcome fresh(1) unfolding comm by (auto simp: dropped a comm)
qed

lemma tx_log_rows_mem: "c \<in> set (tx_log_rows w target log) \<longleftrightarrow> c \<in> set (tl_commits log) \<and> w < ct_seq c \<and> ct_seq c \<le> target"
  by (auto simp: tx_log_rows_def)

lemma tx_log_rows_ends:
  assumes "c \<in> set (tx_log_rows w target log)"
  shows "ct_seq (List.hd (tx_log_rows w target log)) \<le> ct_seq c" "ct_seq c \<le> ct_seq (last (tx_log_rows w target log))"
proof -
  let ?cs = "tx_log_rows w target log"
  have sorted: "sorted (map ct_seq ?cs)" unfolding tx_log_rows_def by (rule sorted_sort_key)
  show "ct_seq (List.hd ?cs) \<le> ct_seq c" using sorted assms by (cases ?cs) auto
  show "ct_seq c \<le> ct_seq (last ?cs)" using sorted assms by (cases ?cs rule: rev_cases) (auto simp: sorted_append)
qed

lemma watermark_bound:
  "s \<in> set (committed_tx_segments branch segs) \<Longrightarrow> tg_max_seq s \<le> (case tx_log_persist_watermark branch segs of None \<Rightarrow> -1 | Some w \<Rightarrow> w)"
  using sql_max_ge[of "tg_max_seq s" "map tg_max_seq (committed_tx_segments branch segs)"] unfolding watermark_committed by auto

lemma locked_archives:
  assumes holds: "archive_holds branch hist log a" and wf: "archive_wf h base catalog branch hist (snd a)" and names: "tx_names_ok h catalog branch hist"
    and seqs: "\<forall>c \<in> hist. 0 \<le> ct_seq c" and run: "persist_tx_log_locked h base fmt faults now catalog branch target log a = (a', r)"
  shows "archive_holds branch hist log a' \<and> archive_wf h base catalog branch hist (snd a') \<and>
     (r = Inr () \<longrightarrow> (\<forall>c \<in> hist. ct_seq c \<le> target \<longrightarrow> archived branch a' c))"
proof -
  define a1 where "a1 = reclaim_tx_log_segments faults branch a"
  have keeps: "keeps_committed h base catalog branch hist a a1" unfolding a1_def by (rule reclaim_all[OF wf names])
  have holds1: "archive_holds branch hist log a1" by (rule keeps_committed_holds[OF keeps holds])
  have wf1: "archive_wf h base catalog branch hist (snd a1)" using keeps by (simp add: keeps_committed_def)
  define w where "w = (case tx_log_persist_watermark branch (snd a1) of None \<Rightarrow> -1 | Some w \<Rightarrow> w)"
  define cs where "cs = tx_log_rows w target log"
  have low: "archived branch a1 c" if "c \<in> hist" "ct_seq c \<le> w" for c
    using that holds1 seqs by (auto simp: archive_holds_def w_def split: option.splits)
  have rest: "archived branch a1 c \<or> c \<in> set cs" if "c \<in> hist" "ct_seq c \<le> target" for c
    using that low[of c] holds1 by (force simp: archive_holds_def cs_def tx_log_rows_mem)
  have run': "(if target \<le> w \<or> cs = [] then (a1, Inr ()) else flush_tx_log h base fmt faults now catalog branch cs a1) = (a', r)"
    using run unfolding persist_tx_log_locked_def a1_def[symmetric] w_def[symmetric] Let_def cs_def[symmetric] by (cases "target \<le> w"; cases "cs = []") simp_all
  show ?thesis
  proof (cases "target \<le> w \<or> cs = []")
    case True
    then have "a' = a1" using run' by simp
    then show ?thesis using holds1 wf1 low rest True by force
  next
    case False
    then have ne: "cs \<noteq> []" and flush: "flush_tx_log h base fmt faults now catalog branch cs a1 = (a', r)" using run' by auto
    have sub: "set cs \<subseteq> hist" using holds1 by (auto simp: cs_def tx_log_rows_mem archive_holds_def)
    have above_w: "w < ct_seq (last cs)" and "ct_seq (last cs) \<le> target" using last_in_set[OF ne] unfolding cs_def tx_log_rows_mem by simp_all
    have new: "\<forall>s \<in> set (committed_tx_segments branch (snd a1)). tg_max_seq s < ct_seq (last cs)"
    proof
      fix s assume "s \<in> set (committed_tx_segments branch (snd a1))"
      from watermark_bound[OF this, folded w_def] above_w show "tg_max_seq s < ct_seq (last cs)" by (rule le_less_trans)
    qed
    note out = flush_outcome[OF wf1 names ne sub new flush]
    have mono: "archived branch a1 c \<Longrightarrow> archived branch a' c" for c
    proof (rule archived_mono[of branch a1 a'])
      show "set (committed_tx_segments branch (snd a1)) \<subseteq> set (committed_tx_segments branch (snd a'))"
        using out(3,5) by (cases "r = Inr ()") blast+
    qed (rule out(2))
    show ?thesis
    proof (cases "r = Inr ()")
      case True
      let ?seg = "flushed_segment h base fmt now catalog branch cs"
      have "archived branch a' c" if "c \<in> set cs" for c
        unfolding archived_iff out(3)[OF True]
        using that out(4)[OF True] tx_log_rows_ends[of c w target log, folded cs_def]
        by (intro bexI[of _ ?seg]) (auto simp: segment_holds_def, auto simp: flushed_segment_def Let_def)
      then have all: "archived branch a' c" if "c \<in> hist" "ct_seq c \<le> target" for c using rest[OF that] mono by blast
      have bound: "tg_max_seq x \<le> target" if "x \<in> set (committed_tx_segments branch (snd a'))" for x
        using that new \<open>ct_seq (last cs) \<le> target\<close> unfolding out(3)[OF True] by (auto simp: flushed_segment_def Let_def)
      have "v \<le> target" if "tx_log_persist_watermark branch (snd a') = Some v" for v
        using sql_max_mem[OF that[unfolded watermark_committed]] bound by auto
      then have "archive_holds branch hist log a'" using holds1 mono all unfolding archive_holds_def by (meson order_trans)
      then show ?thesis using out(1) all by blast
    next
      case False
      have "tx_log_persist_watermark branch (snd a') = tx_log_persist_watermark branch (snd a1)"
      proof -
        have "set (map tg_max_seq (committed_tx_segments branch (snd a'))) = set (map tg_max_seq (committed_tx_segments branch (snd a1)))"
          unfolding set_map out(5)[OF False] ..
        then show ?thesis unfolding watermark_committed sql_max_def by (metis set_empty)
      qed
      then have "archive_holds branch hist log a'" using holds1 mono unfolding archive_holds_def by metis
      then show ?thesis using out(1) False by blast
    qed
  qed
qed

text \<open>C5: the archive loses no commit.  Whatever fails in the object store, a run of \<open>persist_tx_log\<close> keeps every commit
  ever recorded in the hot log or in a readable, committed archive segment, and in the archive up
  to the watermark the log's collection is clamped to; a successful run archives every commit up
  to its target, and a run fails only when the store refuses the file.\<close>

theorem persist_tx_log_archives:
  assumes holds: "archive_holds branch hist log a" and wf: "archive_wf h base catalog branch hist (snd a)" and names: "tx_names_ok h catalog branch hist"
    and seqs: "\<forall>c \<in> hist. 0 \<le> ct_seq c" and run: "persist_tx_log h base fmt faults now catalog branch target log a = (a', r)"
  shows "archive_holds branch hist log a' \<and> archive_wf h base catalog branch hist (snd a') \<and>
     (r = Inr () \<longrightarrow> (\<forall>c \<in> hist. ct_seq c \<le> target \<longrightarrow> archived branch a' c)) \<and>
     ((\<forall>uri. put_fault faults uri = None) \<longrightarrow> r = Inr ())"
proof -
  have total: "(\<forall>uri. put_fault faults uri = None) \<longrightarrow> r = Inr ()"
    using run by (auto simp: persist_tx_log_def persist_tx_log_locked_def flush_tx_log_def tx_log_batch_rows write_cold_file_def write_file_def
        Let_def split_beta split: if_splits)
  show ?thesis
  proof (cases "target \<le> (case tx_log_persist_watermark branch (snd a) of None \<Rightarrow> -1 | Some w \<Rightarrow> w)")
    case True
    then have "a' = a" using run by (simp add: persist_tx_log_def)
    moreover have "archived branch a c" if "c \<in> hist" "ct_seq c \<le> target" for c
      using that True holds seqs by (force simp: archive_holds_def split: option.splits)
    ultimately show ?thesis using holds wf total by blast
  next
    case False
    then have "persist_tx_log_locked h base fmt faults now catalog branch target log a = (a', r)" using run by (simp add: persist_tx_log_def)
    from locked_archives[OF holds wf names seqs this] show ?thesis using total by blast
  qed
qed

section \<open>Witness\<close>

theorem persist_tx_log_archives_witness:
  "(let c = demo_commit ''x'' 5 0;
        (a', r) = persist_tx_log (\<lambda>_. sample_uuid) ''s3'' Parquet no_faults 9 ''c'' ''b'' 0 (demo_log [c]) (\<lambda>_. None, []) in
    r = Inr () \<and> archived ''b'' a' c)"
proof -
  let ?c = "demo_commit ''x'' 5 0" and ?h = "\<lambda>_. sample_uuid"
  obtain a' r where run: "persist_tx_log ?h ''s3'' Parquet no_faults 9 ''c'' ''b'' 0 (demo_log [?c]) (\<lambda>_. None, []) = (a', r)" by (cases "persist_tx_log ?h ''s3'' Parquet no_faults 9 ''c'' ''b'' 0 (demo_log [?c]) (\<lambda>_. None, [])")
  have holds: "archive_holds ''b'' {?c} (demo_log [?c]) (\<lambda>_. None, [])"
    by (simp add: archive_holds_def demo_log_def tx_log_persist_watermark_def sql_max_def)
  have wf: "archive_wf ?h ''s3'' ''c'' ''b'' {?c} (snd (\<lambda>_. None, []))" by (simp add: archive_wf_def)
  have names: "tx_names_ok ?h ''c'' ''b'' {?c}"
    by (simp add: tx_names_ok_def tx_log_persist_segment_uuid_def row_uuid_for_pk_def deterministic_uuid_from_def Let_def sample_uuids_wf)
  have "r = Inr ()" "archived ''b'' a' ?c"
    using persist_tx_log_archives[OF holds wf names _ run] by (simp_all add: demo_commit_def no_faults_def)
  then show ?thesis using run by (simp add: Let_def)
qed

end
