(* ===== verification/Purge.thy ===== *)
theory Purge
  imports Read_Plan Tx_Archive
begin

text \<open>
  Purge of the hot logs (\<open>penca-api/src/lifecycle/purge.rs\<close>) and of the transaction log
  (\<open>penca-api/src/lifecycle/purge_tx_log.rs\<close>), with the watermark functions of
  \<open>penca-storage-meta/src/watermarks.rs\<close>: what may be dropped from the hot tier, and that reads and the
  archive do not notice.  A pass runs on one state of the transaction log; \<open>fault\<close> is a failure of the
  second phase's transaction, which rolls it back.
\<close>

section \<open>Watermarks\<close>

definition compute_purge_watermark :: "int option \<Rightarrow> int option \<Rightarrow> int option" where
  "compute_purge_watermark candidate last_purged =
     Option.bind candidate (\<lambda>c.
       case last_purged of Some lp \<Rightarrow> if c \<le> lp then None else Some c | None \<Rightarrow> Some c)"

fun branch_min_loop :: "int option \<Rightarrow> int option list \<Rightarrow> int option" where
  "branch_min_loop acc [] = acc"
| "branch_min_loop acc (v # vs) =
     (case v of None \<Rightarrow> None
      | Some x \<Rightarrow> branch_min_loop (Some (case acc of None \<Rightarrow> x | Some a \<Rightarrow> min a x)) vs)"

definition branch_min_watermark :: "int option list \<Rightarrow> int option" where
  "branch_min_watermark vals = branch_min_loop None vals"

record purge_tx_log_cutoffs =
  pu_cutoff :: "int option"
  pa_cutoff :: "int option"

definition compute_purge_tx_log_cutoffs :: "(uuid \<times> int option \<times> int option) list \<Rightarrow> purge_tx_log_cutoffs" where
  "compute_purge_tx_log_cutoffs table_watermarks =
     \<lparr>pu_cutoff = branch_min_watermark (map (\<lambda>(_, pu, _). pu) table_watermarks),
      pa_cutoff = branch_min_watermark (map (\<lambda>(_, _, pa). pa) table_watermarks)\<rparr>"

definition read_abort_seq_frontier :: "tx_log \<Rightarrow> int option" where
  "read_abort_seq_frontier log = Some (tl_abort_seq log)"

section \<open>Purge\<close>

definition purge_phase2 :: "int option \<Rightarrow> int option \<Rightarrow> tx_log \<Rightarrow> hot_table \<Rightarrow> hot_table" where
  "purge_phase2 pu_advance pa_advance log ht =
     (let ht1 = (case pu_advance of None \<Rightarrow> ht | Some pu \<Rightarrow> purge_committed_rows pu log ht) in
      case pa_advance of None \<Rightarrow> ht1 | Some pa \<Rightarrow> purge_aborted_rows pa log ht1)"

definition purge_advances :: "uuid \<Rightarrow> uuid \<Rightarrow> tx_log \<Rightarrow> cold_catalog \<Rightarrow> int option \<times> int option" where
  "purge_advances branch table log cat =
     (compute_purge_watermark (latest_committed_table_snapshot_seq_watermark branch table cat)
        (latest_committed_table_purge_seq_watermark branch table cat),
      compute_purge_watermark (read_abort_seq_frontier log)
        (case latest_committed_table_purge_aborted_seq_watermark branch table cat of None \<Rightarrow> Some 0 | Some pa \<Rightarrow> Some pa))"

definition purge_pass_uuid :: "hash_fn \<Rightarrow> uuid \<Rightarrow> uuid \<Rightarrow> uuid \<Rightarrow> int option \<times> int option \<Rightarrow> uuid" where
  "purge_pass_uuid h catalog branch table = (\<lambda>(pu_advance, pa_advance).
     table_purge_uuid h catalog branch table (case pu_advance of None \<Rightarrow> -1 | Some p \<Rightarrow> p) (case pa_advance of None \<Rightarrow> -1 | Some p \<Rightarrow> p))"

definition purge_locked :: "hash_fn \<Rightarrow> uuid \<Rightarrow> uuid \<Rightarrow> uuid \<Rightarrow> int \<Rightarrow> int \<Rightarrow> api_error option \<Rightarrow> tx_log \<Rightarrow> hot_table \<Rightarrow> cold_catalog \<Rightarrow>
    hot_table \<times> cold_catalog \<times> int option result" where
  "purge_locked h catalog branch table step1_now now fault log ht cat =
     (let ht1 = delete_expired_begin_hot_rows step1_now log ht;
          last_pu = latest_committed_table_purge_seq_watermark branch table cat;
          (pu_advance, pa_advance) = purge_advances branch table log cat in
      if pu_advance = None \<and> pa_advance = None then (ht1, cat, Inr last_pu)
      else
        let u = purge_pass_uuid h catalog branch table (pu_advance, pa_advance);
            cat1 = insert_table_purge u branch table pu_advance pa_advance cat in
        case fault of
          Some e \<Rightarrow> (ht1, delete_uncommitted_table_purge branch u cat1, Inl e)
        | None \<Rightarrow> (purge_phase2 pu_advance pa_advance log ht1, commit_table_purge now branch u cat1,
            Inr (case pu_advance of Some p \<Rightarrow> Some p | None \<Rightarrow> last_pu)))"

section \<open>Purge of the transaction log\<close>

definition purge_watermark_as_of :: "(purge_row \<Rightarrow> int option) \<Rightarrow> uuid \<Rightarrow> uuid \<Rightarrow> int \<Rightarrow> cold_catalog \<Rightarrow> int option" where
  "purge_watermark_as_of col branch table started cat =
     sql_max (List.map_filter col (filter (\<lambda>r. pu_branch r = branch \<and> pu_table r = table \<and>
       (case pu_commit r of None \<Rightarrow> False | Some t \<Rightarrow> t \<le> started)) (cat_purges cat)))"

definition settled_tables :: "int \<Rightarrow> tx_log \<Rightarrow> uuid list" where
  "settled_tables started log =
     remdups (map snd (filter (\<lambda>(tx, _). (\<exists>c \<in> set (tl_commits log). ct_tx c = tx \<and> ct_micros c \<le> started) \<or>
       (\<exists>a \<in> set (tl_aborts log). ab_tx a = tx \<and> ab_micros a \<le> started)) (tl_tables log)))"

definition tx_table_log_purge_watermarks_for_branch :: "uuid \<Rightarrow> int \<Rightarrow> tx_log \<Rightarrow> cold_catalog \<Rightarrow> (uuid \<times> int option \<times> int option) list" where
  "tx_table_log_purge_watermarks_for_branch branch started log cat =
     map (\<lambda>t. (t, purge_watermark_as_of pu_commit_seq branch t started cat, purge_watermark_as_of pu_aborted_seq branch t started cat))
       (settled_tables started log)"

definition committed_cutoff :: "int option \<Rightarrow> int option \<Rightarrow> int option" where
  "committed_cutoff pu w_txlog = (case (pu, w_txlog) of (Some p, Some w) \<Rightarrow> Some (min p w) | _ \<Rightarrow> pu)"

definition purge_tx_log_locked :: "uuid \<Rightarrow> int \<Rightarrow> int \<Rightarrow> int \<Rightarrow> tx_log_segment list \<Rightarrow> cold_catalog \<Rightarrow> tx_log \<Rightarrow> tx_log" where
  "purge_tx_log_locked branch started purge_sweep_interval hot_purge_grace segs cat log =
     (let cutoffs = compute_purge_tx_log_cutoffs (tx_table_log_purge_watermarks_for_branch branch started log cat) in
      delete_purge_tx_log_eligible (committed_cutoff (pu_cutoff cutoffs) (tx_log_persist_watermark branch segs)) (pa_cutoff cutoffs)
        started (max purge_sweep_interval hot_purge_grace) log)"

section \<open>Clearing hot rows\<close>

text \<open>The contract of a statement that clears the hot rows of doomed transactions: none of them has a commit
  above the watermark the statement is allowed to clear up to.\<close>

locale hot_clear =
  fixes clear :: "tx_log \<Rightarrow> hot_table \<Rightarrow> hot_table" and doomed :: "tx_log \<Rightarrow> uuid \<Rightarrow> bool" and bound :: "int option"
  assumes clears: "clear log ht = delete_hot_log_rows_for_tx_subquery (doomed log) ht"
    and covered: "tx_log_inv t log \<Longrightarrow> doomed log (ct_tx c) \<Longrightarrow> c \<in> set (tl_commits log) \<Longrightarrow> \<exists>pu. bound = Some pu \<and> ct_seq c \<le> pu"
begin

lemma still_readable:
  assumes log: "tx_log_inv t log" and "\<forall>pu. bound = Some pu \<longrightarrow> pu < lv_seq v"
  shows "v \<in> set (read_committed_upserts None None ht log) \<Longrightarrow> v \<in> set (read_committed_upserts None None (clear log ht) log)"
    and "v \<in> set (read_committed_deletes None None ht log) \<Longrightarrow> v \<in> set (read_committed_deletes None None (clear log ht) log)"
proof -
  assume "v \<in> set (read_committed_upserts None None ht log)"
  then obtain u c where u: "u \<in> set (ht_upserts ht)" "c \<in> set (tl_commits log)" "ct_tx c = up_tx u" "v = upsert_version u (ct_micros c) (ct_seq c)"
    unfolding read_committed_mem by blast
  have "\<not> doomed log (up_tx u)"
  proof
    assume "doomed log (up_tx u)"
    then obtain pu where "bound = Some pu" "ct_seq c \<le> pu" using covered[OF log _ u(2)] u(3) by auto
    then show False using assms(2) u(4) by (auto simp: upsert_version_def)
  qed
  then show "v \<in> set (read_committed_upserts None None (clear log ht) log)"
    using u unfolding read_committed_mem clears delete_hot_log_rows_for_tx_subquery_def by auto
next
  assume "v \<in> set (read_committed_deletes None None ht log)"
  then obtain d c where d: "d \<in> set (ht_deletes ht)" "c \<in> set (tl_commits log)" "ct_tx c = dl_tx d" "v = delete_version d (ct_micros c) (ct_seq c)"
    unfolding read_committed_mem by blast
  have "\<not> doomed log (dl_tx d)"
  proof
    assume "doomed log (dl_tx d)"
    then obtain pu where "bound = Some pu" "ct_seq c \<le> pu" using covered[OF log _ d(2)] d(3) by auto
    then show False using assms(2) d(4) by (auto simp: delete_version_def)
  qed
  then show "v \<in> set (read_committed_deletes None None (clear log ht) log)"
    using d unfolding read_committed_mem clears delete_hot_log_rows_for_tx_subquery_def by auto
qed

lemma reads_fewer:
  "set (read_committed_upserts None None (clear log ht) log) \<subseteq> set (read_committed_upserts None None ht log)"
  "set (read_committed_deletes None None (clear log ht) log) \<subseteq> set (read_committed_deletes None None ht log)"
  unfolding clears delete_hot_log_rows_for_tx_subquery_def
  by (intro subsetI, unfold read_committed_mem, simp, blast)+

text \<open>Clearing keeps the hot tier complete above any watermark that covers the cleared rows.\<close>

lemma keeps_hot:
  assumes log: "tx_log_inv t log" and holds: "hot_holds ups dels pu ht log"
    and up: "\<forall>p. pu = Some p \<longrightarrow> (\<exists>q. pu' = Some q \<and> p \<le> q)" "\<forall>p. bound = Some p \<longrightarrow> (\<exists>q. pu' = Some q \<and> p \<le> q)"
  shows "hot_holds ups dels pu' (clear log ht) log"
proof -
  have above: "above pu v" "\<forall>p. bound = Some p \<longrightarrow> p < lv_seq v" if "above pu' v" for v
    using that up by (cases pu; cases pu'; auto simp: above_def; fail)+
  show ?thesis unfolding hot_holds_def
  proof (intro conjI subsetI)
    fix v assume "v \<in> {v \<in> ups. above pu' v}"
    then have "v \<in> set (read_committed_upserts None None ht log)" "above pu' v" using holds above(1) by (auto simp: hot_holds_def)
    then show "v \<in> set (read_committed_upserts None None (clear log ht) log)" using still_readable(1)[OF log above(2)] by blast
  next
    fix v assume "v \<in> {v \<in> dels. above pu' v}"
    then have "v \<in> set (read_committed_deletes None None ht log)" "above pu' v" using holds above(1) by (auto simp: hot_holds_def)
    then show "v \<in> set (read_committed_deletes None None (clear log ht) log)" using still_readable(2)[OF log above(2)] by blast
  qed (use holds reads_fewer[of log ht] in \<open>auto simp: hot_holds_def\<close>)
qed

end

definition expired_tx :: "int \<Rightarrow> tx_log \<Rightarrow> uuid \<Rightarrow> bool" where
  "expired_tx now log tx =
     ((\<exists>b \<in> set (tl_begins log). bt_tx b = tx \<and> bt_expires b < now) \<and>
      (\<forall>c \<in> set (tl_commits log). ct_tx c \<noteq> tx) \<and> (\<forall>a \<in> set (tl_aborts log). ab_tx a \<noteq> tx))"

interpretation expired: hot_clear "delete_expired_begin_hot_rows now" "expired_tx now" None for now
  by unfold_locales (auto simp: delete_expired_begin_hot_rows_def expired_tx_def[abs_def])

interpretation committed: hot_clear "purge_committed_rows pu" "\<lambda>log tx. \<exists>c \<in> set (tl_commits log). ct_tx c = tx \<and> ct_seq c \<le> pu" "Some pu" for pu
  by unfold_locales (auto simp: purge_committed_rows_def tx_log_inv_def commit_order_def distinct_map dest: inj_onD)

interpretation aborted: hot_clear "purge_aborted_rows pa" "\<lambda>log tx. \<exists>a \<in> set (tl_aborts log). ab_tx a = tx \<and> ab_seq a < pa" None for pa
  by unfold_locales (simp add: purge_aborted_rows_def, metis tx_log_inv_def)

section \<open>Purge keeps reads\<close>

text \<open>The metadata row of the pass is new: a row with its identity is an uncommitted one of the same table.\<close>

definition purge_row_fresh :: "hash_fn \<Rightarrow> uuid \<Rightarrow> uuid \<Rightarrow> uuid \<Rightarrow> tx_log \<Rightarrow> cold_catalog \<Rightarrow> bool" where
  "purge_row_fresh h catalog branch table log cat =
     (\<forall>r \<in> set (cat_purges cat). pu_branch r = branch \<and> pu_uuid r = purge_pass_uuid h catalog branch table (purge_advances branch table log cat) \<longrightarrow>
        pu_table r = table \<and> pu_commit r = None)"

definition purge_rows :: "uuid \<Rightarrow> uuid \<Rightarrow> cold_catalog \<Rightarrow> purge_row set" where
  "purge_rows branch table cat = {r \<in> set (cat_purges cat). pu_branch r = branch \<and> pu_table r = table \<and> pu_commit r \<noteq> None}"

lemma sql_max_cong: "set xs = set ys \<Longrightarrow> sql_max xs = sql_max ys"
  unfolding sql_max_def by (metis set_empty)

lemma purge_seq_watermark:
  "purge_rows branch table cat' = purge_rows branch table cat \<Longrightarrow>
     latest_committed_table_purge_seq_watermark branch table cat' = latest_committed_table_purge_seq_watermark branch table cat"
  unfolding latest_committed_table_purge_seq_watermark_def max_committed_purge_column_def purge_rows_def
  by (rule sql_max_cong) (simp add: set_map_filter set_eq_iff)

lemma purge_seq_watermark_advance:
  assumes rows: "purge_rows branch table cat' = purge_rows branch table cat \<union> {r}" and r: "pu_commit_seq r = adv"
    and up: "\<forall>p w. adv = Some p \<and> latest_committed_table_purge_seq_watermark branch table cat = Some w \<longrightarrow> w < p"
  shows "latest_committed_table_purge_seq_watermark branch table cat' =
    (case adv of Some p \<Rightarrow> Some p | None \<Rightarrow> latest_committed_table_purge_seq_watermark branch table cat)"
proof -
  let ?xs = "\<lambda>cat. List.map_filter pu_commit_seq (filter (\<lambda>r. pu_branch r = branch \<and> pu_table r = table \<and> pu_commit r \<noteq> None) (cat_purges cat))"
  have set: "set (?xs c) = {n. \<exists>r \<in> purge_rows branch table c. pu_commit_seq r = Some n}" for c
    unfolding set_map_filter purge_rows_def set_filter ..
  have wm: "latest_committed_table_purge_seq_watermark branch table c = sql_max (?xs c)" for c
    unfolding latest_committed_table_purge_seq_watermark_def max_committed_purge_column_def ..
  have sets: "set (?xs cat') = set (?xs cat) \<union> set_option adv" unfolding set rows using r by (cases adv) auto
  show ?thesis
  proof (cases adv)
    case None
    then have "sql_max (?xs cat') = sql_max (?xs cat)" using sets by (intro sql_max_cong) simp
    then show ?thesis unfolding wm None option.case .
  next
    case (Some p)
    have "n \<le> p" if "n \<in> set (?xs cat)" for n using sql_max_ge[OF that] up Some unfolding wm by force
    then have "Max (insert p (set (?xs cat))) = p" by (intro Max_eqI) auto
    moreover have "set (?xs cat') = insert p (set (?xs cat))" using sets Some by auto
    ultimately show ?thesis using Some unfolding wm sql_max_def by auto
  qed
qed

lemma committed_purge_rows:
  fixes u branch table pu pa cat now
  assumes fresh: "\<forall>r \<in> set (cat_purges cat). pu_branch r = branch \<and> pu_uuid r = u \<longrightarrow> pu_table r = table \<and> pu_commit r = None"
  defines "cat1 \<equiv> insert_table_purge u branch table pu pa cat"
  shows "purge_rows branch table (commit_table_purge now branch u cat1) = purge_rows branch table cat \<union>
      {\<lparr>pu_uuid = u, pu_branch = branch, pu_table = table, pu_commit_seq = pu, pu_aborted_seq = pa, pu_commit = Some now\<rparr>}"
    and "purge_rows branch table (delete_uncommitted_table_purge branch u cat1) = purge_rows branch table cat"
proof -
  let ?key = "\<lambda>r. pu_branch r = branch \<and> pu_uuid r = u"
  let ?new = "\<lparr>pu_uuid = u, pu_branch = branch, pu_table = table, pu_commit_seq = pu, pu_aborted_seq = pa, pu_commit = None\<rparr>"
  have cat1: "cat_purges cat1 = sql_upsert ?key (\<lambda>r. r\<lparr>pu_commit_seq := pu, pu_aborted_seq := pa\<rparr>) ?new (cat_purges cat)"
    by (simp add: cat1_def insert_table_purge_def)
  have ins: "set (cat_purges cat1) = {r \<in> set (cat_purges cat). \<not> ?key r} \<union> {?new}"
  proof (cases "\<exists>r \<in> set (cat_purges cat). ?key r")
    case True
    have "r\<lparr>pu_commit_seq := pu, pu_aborted_seq := pa\<rparr> = ?new" if "r \<in> set (cat_purges cat)" "?key r" for r
      using that fresh by (intro purge_row.equality) simp_all
    then have "(\<lambda>r. r\<lparr>pu_commit_seq := pu, pu_aborted_seq := pa\<rparr>) ` {r \<in> set (cat_purges cat). ?key r} = {?new}"
      using True by (auto simp: image_iff)
    then show ?thesis unfolding cat1 set_sql_upsert if_P[OF True] by simp
  next
    case False
    show ?thesis unfolding cat1 set_sql_upsert if_not_P[OF False] ..
  qed
  have old: "purge_rows branch table cat = {r \<in> set (cat_purges cat). \<not> ?key r \<and> pu_branch r = branch \<and> pu_table r = table \<and> pu_commit r \<noteq> None}"
    using fresh by (auto simp: purge_rows_def)
  have com: "set (cat_purges (commit_table_purge now branch u cat1)) = {r \<in> set (cat_purges cat). \<not> ?key r} \<union> {?new\<lparr>pu_commit := Some now\<rparr>}"
  proof -
    have "cat_purges (commit_table_purge now branch u cat1) = sql_update ?key (\<lambda>r. r\<lparr>pu_commit := Some now\<rparr>) (cat_purges cat1)"
      by (simp add: commit_table_purge_def)
    moreover have "(\<lambda>r. r\<lparr>pu_commit := Some now\<rparr>) ` {r \<in> {r \<in> set (cat_purges cat). \<not> ?key r} \<union> {?new}. ?key r} = {?new\<lparr>pu_commit := Some now\<rparr>}"
    proof -
      have "{r \<in> {r \<in> set (cat_purges cat). \<not> ?key r} \<union> {?new}. ?key r} = {?new}" by auto
      then show ?thesis by (simp only: image_insert image_empty)
    qed
    moreover have "{r \<in> {r \<in> set (cat_purges cat). \<not> ?key r} \<union> {?new}. \<not> ?key r} = {r \<in> set (cat_purges cat). \<not> ?key r}" by auto
    ultimately show ?thesis unfolding set_sql_update ins by (simp only: set_sql_update ins)
  qed
  show "purge_rows branch table (commit_table_purge now branch u cat1) = purge_rows branch table cat \<union>
      {\<lparr>pu_uuid = u, pu_branch = branch, pu_table = table, pu_commit_seq = pu, pu_aborted_seq = pa, pu_commit = Some now\<rparr>}"
    unfolding old unfolding purge_rows_def com by auto
  show "purge_rows branch table (delete_uncommitted_table_purge branch u cat1) = purge_rows branch table cat"
  proof -
    have "cat_purges (delete_uncommitted_table_purge branch u cat1) = sql_delete (\<lambda>r. pu_branch r = branch \<and> pu_uuid r = u \<and> pu_commit r = None) (cat_purges cat1)"
      by (simp add: delete_uncommitted_table_purge_def)
    then have "set (cat_purges (delete_uncommitted_table_purge branch u cat1)) = {r \<in> {r \<in> set (cat_purges cat). \<not> ?key r} \<union> {?new}.
        \<not> (pu_branch r = branch \<and> pu_uuid r = u \<and> pu_commit r = None)}" by (simp only: set_sql_delete ins)
    also have "\<dots> = {r \<in> set (cat_purges cat). \<not> ?key r}"
    proof -
      have "{r \<in> {r \<in> A. \<not> ?key r} \<union> {n}. \<not> (pu_branch r = branch \<and> pu_uuid r = u \<and> pu_commit r = None)} = {r \<in> A. \<not> ?key r}"
        if "pu_branch n = branch" "pu_uuid n = u" "pu_commit n = None" for A n using that by auto
      from this[of ?new] show ?thesis by (simp only: purge_row.select_convs simp_thms)
    qed
    finally show ?thesis unfolding old unfolding purge_rows_def by auto
  qed
qed

lemma purges_frame:
  "latest_committed_table_persist_watermark branch table (cat\<lparr>cat_purges := ps\<rparr>) = latest_committed_table_persist_watermark branch table cat"
  "listed branch table (cat\<lparr>cat_purges := ps\<rparr>) = listed branch table cat"
  "committed_snapshots branch table t n (cat\<lparr>cat_purges := ps\<rparr>) = committed_snapshots branch table t n cat"
  "snapshot_segment_rows branch snap (cat\<lparr>cat_purges := ps\<rparr>) = snapshot_segment_rows branch snap cat"
  "snapshot_rows_wf branch (cat\<lparr>cat_purges := ps\<rparr>) = snapshot_rows_wf branch cat"
  "cat_persist_segs (cat\<lparr>cat_purges := ps\<rparr>) = cat_persist_segs cat"
  by (simp_all add: latest_committed_table_persist_watermark_def committed_persists_def listed_def[abs_def] persist_parent_def[abs_def] committed_snapshots_def
      snapshot_segment_rows_def snapshot_rows_wf_def cong: if_cong option.case_cong)

text \<open>A new set of purge rows keeps the invariant when the hot logs hold what the new watermark asks for, and a
  snapshot covers it.\<close>

lemma table_inv_purges:
  assumes inv: "table_inv content rows_of branch table ht log cat ups dels"
    and hot: "hot_holds ups dels (latest_committed_table_purge_seq_watermark branch table (cat\<lparr>cat_purges := ps\<rparr>)) ht' log'"
    and covered: "\<forall>pu. latest_committed_table_purge_seq_watermark branch table (cat\<lparr>cat_purges := ps\<rparr>) = Some pu \<longrightarrow>
      latest_committed_table_purge_seq_watermark branch table cat = Some pu \<or> (\<exists>s \<in> set (committed_snapshots branch table None None cat). pu \<le> sm_seq s)"
  shows "table_inv content rows_of branch table ht' log' (cat\<lparr>cat_purges := ps\<rparr>) ups dels"
proof -
  have "segments_complete content branch table (cat\<lparr>cat_purges := ps\<rparr>) ups dels"
    unfolding segments_complete_def purges_frame
  proof (intro allI ballI impI)
    fix k v assume v: "v \<in> kind_versions k ups dels"
      and cov: "(\<exists>pu. latest_committed_table_purge_seq_watermark branch table (cat\<lparr>cat_purges := ps\<rparr>) = Some pu \<and> lv_seq v \<le> pu) \<or>
         (\<exists>s \<in> set (committed_snapshots branch table None None cat). lv_seq v \<le> sm_seq s)"
    have "(\<exists>pu. latest_committed_table_purge_seq_watermark branch table cat = Some pu \<and> lv_seq v \<le> pu) \<or>
         (\<exists>s \<in> set (committed_snapshots branch table None None cat). lv_seq v \<le> sm_seq s)"
      using cov covered by (meson order_trans)
    then show "(\<exists>wm. latest_committed_table_persist_watermark branch table cat = Some wm \<and> lv_micros v \<le> wm) \<and>
        (\<exists>s \<in> set (cat_persist_segs cat). listed branch table cat s = Some (k, s) \<and> v \<in> set (content (ps_uuid s)))"
      using inv v unfolding table_inv_def segments_complete_def by blast
  qed
  moreover have "segments_sound content branch table (cat\<lparr>cat_purges := ps\<rparr>) ups dels" "no_straddle branch table (cat\<lparr>cat_purges := ps\<rparr>)"
    "snapshots_sound rows_of branch table (cat\<lparr>cat_purges := ps\<rparr>) ups dels" "times_ok branch table (cat\<lparr>cat_purges := ps\<rparr>) (ups \<union> dels)"
    using inv unfolding table_inv_def segments_sound_def no_straddle_def snapshots_sound_def times_ok_def purges_frame by blast+
  ultimately show ?thesis using hot unfolding table_inv_def by blast
qed

lemma purge_phase2_hot:
  assumes log: "tx_log_inv t log" and hot: "hot_holds ups dels pu ht log" and up: "\<forall>p w. adv = Some p \<and> pu = Some w \<longrightarrow> w < p"
  shows "hot_holds ups dels (case adv of Some p \<Rightarrow> Some p | None \<Rightarrow> pu) (purge_phase2 adv pa log ht) log"
proof -
  let ?pu = "case adv of Some p \<Rightarrow> Some p | None \<Rightarrow> pu"
  have "hot_holds ups dels ?pu (case adv of None \<Rightarrow> ht | Some p \<Rightarrow> purge_committed_rows p log ht) log"
  proof (cases adv)
    case (Some p)
    have "hot_holds ups dels (Some p) (purge_committed_rows p log ht) log"
      by (rule committed.keeps_hot[OF log hot]) (use up Some in \<open>auto intro: less_imp_le\<close>)
    then show ?thesis using Some by simp
  qed (use hot in simp)
  from aborted.keeps_hot[OF log this] this show ?thesis by (cases pa) (simp_all add: purge_phase2_def Let_def)
qed

lemma compute_purge_watermark_advances:
  "compute_purge_watermark cand lp = Some p \<Longrightarrow> cand = Some p \<and> (\<forall>w. lp = Some w \<longrightarrow> w < p)"
  by (auto simp: compute_purge_watermark_def split: bind_splits option.splits if_splits)


section \<open>Collecting the transaction log\<close>

lemma branch_min_loop_lower:
  "branch_min_loop acc vs = Some m \<Longrightarrow> (\<forall>v \<in> set vs. \<exists>x. v = Some x \<and> m \<le> x) \<and> (\<forall>a. acc = Some a \<longrightarrow> m \<le> a) \<and> (acc \<noteq> None \<or> vs \<noteq> [])"
proof (induction acc vs rule: branch_min_loop.induct)
  case (2 acc v vs)
  then obtain x where x: "v = Some x" by (cases v) auto
  with 2 show ?case by (cases acc) auto
qed simp

lemma branch_min_lower:
  "branch_min_watermark vs = Some m \<Longrightarrow> vs \<noteq> [] \<and> (\<forall>v \<in> set vs. \<exists>x. v = Some x \<and> m \<le> x)"
  unfolding branch_min_watermark_def by (drule branch_min_loop_lower) simp

lemma purge_as_of_row:
  assumes "purge_watermark_as_of pu_commit_seq branch table started cat = Some x"
  shows "\<exists>r \<in> set (cat_purges cat). \<exists>m. pu_branch r = branch \<and> pu_table r = table \<and> pu_commit r = Some m \<and> m \<le> started \<and> pu_commit_seq r = Some x"
  using sql_max_mem[OF assms[unfolded purge_watermark_as_of_def]] by (auto simp: set_map_filter split: option.splits)

lemma purge_as_of_latest:
  assumes "purge_watermark_as_of pu_commit_seq branch table started cat = Some x"
  shows "\<exists>q. latest_committed_table_purge_seq_watermark branch table cat = Some q \<and> x \<le> q"
proof -
  obtain r m where "r \<in> set (cat_purges cat)" "pu_branch r = branch" "pu_table r = table" "pu_commit r = Some m" "pu_commit_seq r = Some x"
    using purge_as_of_row[OF assms] by blast
  then have "x \<in> set (List.map_filter pu_commit_seq (filter (\<lambda>r. pu_branch r = branch \<and> pu_table r = table \<and> pu_commit r \<noteq> None) (cat_purges cat)))"
    by (auto simp: set_map_filter)
  from sql_max_ge[OF this] show ?thesis unfolding latest_committed_table_purge_seq_watermark_def max_committed_purge_column_def .
qed

text \<open>Every hot row of a committed transaction is recorded for its table, and a committed purge only covers commits
  from before it.\<close>

definition writes_recorded :: "uuid \<Rightarrow> hot_table \<Rightarrow> tx_log \<Rightarrow> bool" where
  "writes_recorded table ht log =
     (\<forall>c \<in> set (tl_commits log). ct_tx c \<in> up_tx ` set (ht_upserts ht) \<union> dl_tx ` set (ht_deletes ht) \<longrightarrow> (ct_tx c, table) \<in> set (tl_tables log))"

definition purges_follow_commits :: "uuid \<Rightarrow> tx_log \<Rightarrow> cold_catalog \<Rightarrow> bool" where
  "purges_follow_commits branch log cat =
     (\<forall>r \<in> set (cat_purges cat). \<forall>c \<in> set (tl_commits log). pu_branch r = branch \<longrightarrow>
        (case (pu_commit r, pu_commit_seq r) of (Some m, Some pu) \<Rightarrow> ct_seq c \<le> pu \<longrightarrow> ct_micros c \<le> m | _ \<Rightarrow> True))"

definition branch_cutoff :: "uuid \<Rightarrow> int \<Rightarrow> tx_log \<Rightarrow> cold_catalog \<Rightarrow> int option" where
  "branch_cutoff branch started log cat =
     pu_cutoff (compute_purge_tx_log_cutoffs (tx_table_log_purge_watermarks_for_branch branch started log cat))"

lemma cutoff_below_purges:
  assumes cut: "branch_cutoff branch started log cat = Some p" and order: "purges_follow_commits branch log cat"
    and c: "c \<in> set (tl_commits log)" "(ct_tx c, table) \<in> set (tl_tables log)" "ct_seq c \<le> p"
  shows "\<exists>q. latest_committed_table_purge_seq_watermark branch table cat = Some q \<and> ct_seq c \<le> q"
proof -
  let ?S = "settled_tables started log"
  have vals: "map (\<lambda>(_, pu, _). pu) (tx_table_log_purge_watermarks_for_branch branch started log cat) =
      map (\<lambda>t. purge_watermark_as_of pu_commit_seq branch t started cat) ?S"
    by (simp add: tx_table_log_purge_watermarks_for_branch_def)
  have low: "?S \<noteq> []" "\<forall>t \<in> set ?S. \<exists>x. purge_watermark_as_of pu_commit_seq branch t started cat = Some x \<and> p \<le> x"
    using branch_min_lower[OF cut[unfolded branch_cutoff_def compute_purge_tx_log_cutoffs_def purge_tx_log_cutoffs.simps vals]] by auto
  then obtain t0 x where "purge_watermark_as_of pu_commit_seq branch t0 started cat = Some x" "p \<le> x" using list.set_sel(1)[OF low(1)] by blast
  moreover from purge_as_of_row[OF this(1)] obtain r m where "r \<in> set (cat_purges cat)" "pu_branch r = branch" "pu_commit r = Some m" "m \<le> started"
    "pu_commit_seq r = Some x" by blast
  ultimately have "ct_micros c \<le> started" using order c(1,3) unfolding purges_follow_commits_def by force
  then have "table \<in> set ?S" using c(1,2) by (force simp: settled_tables_def)
  then obtain y where "purge_watermark_as_of pu_commit_seq branch table started cat = Some y" "p \<le> y" using low(2) by blast
  with purge_as_of_latest[OF this(1)] c(3) show ?thesis by force
qed

lemma collected_commits:
  assumes log: "tx_log_inv t log" and c: "c \<in> set (tl_commits log)" and gone: "c \<notin> set (tl_commits (purge_tx_log_locked branch started sweep grace segs cat log))"
  shows "\<exists>p. branch_cutoff branch started log cat = Some p \<and> ct_seq c \<le> p \<and> (\<forall>w. tx_log_persist_watermark branch segs = Some w \<longrightarrow> ct_seq c \<le> w)"
proof -
  let ?n = "committed_cutoff (branch_cutoff branch started log cat) (tx_log_persist_watermark branch segs)"
  let ?pa = "pa_cutoff (compute_purge_tx_log_cutoffs (tx_table_log_purge_watermarks_for_branch branch started log cat))"
  have "ct_tx c \<in> set (purge_tx_log_eligible ?n ?pa started (max sweep grace) log)"
    using c gone by (simp add: purge_tx_log_locked_def delete_purge_tx_log_eligible_def branch_cutoff_def Let_def)
  moreover have "ct_tx c \<notin> ab_tx ` set (tl_aborts log)" using log c unfolding tx_log_inv_def by blast
  ultimately obtain n d where d: "?n = Some n" "d \<in> set (tl_commits log)" "ct_tx d = ct_tx c" "ct_seq d \<le> n"
    using eligible_commit[OF _ _ imageI[OF c]] by blast
  have "d = c" using log d(2,3) c by (auto simp: tx_log_inv_def commit_order_def distinct_map dest: inj_onD)
  then show ?thesis using d(1,4) by (auto simp: committed_cutoff_def split: option.splits)
qed


section \<open>Witnesses\<close>

definition purge_demo_log :: tx_log where
  "purge_demo_log = demo_log [demo_commit ''x'' 5 0, demo_commit ''y'' 9 1, demo_commit ''z'' 12 2]"

definition demo_upsert :: "uuid \<Rightarrow> uuid \<Rightarrow> int \<Rightarrow> int \<Rightarrow> upsert_row" where
  "demo_upsert u tx n c = \<lparr>up_version = u, up_row = u, up_tx = tx, up_wseq = n, up_cols = [''v'' \<mapsto> Cell True (VInt c)]\<rparr>"

definition purge_demo_hot :: hot_table where
  "purge_demo_hot = \<lparr>ht_upserts = [demo_upsert ''a'' ''x'' 0 1, demo_upsert ''b'' ''x'' 1 2, demo_upsert ''c'' ''y'' 3 3, demo_upsert ''a'' ''z'' 4 4],
     ht_deletes = [\<lparr>dl_version = ''b'', dl_row = ''b'', dl_pk = [''v'' \<mapsto> Cell True (VInt 0)], dl_tx = ''y'', dl_wseq = 2\<rparr>], ht_write_seq = 5\<rparr>"

lemma purge_demo_inv:
  "table_inv demo_content demo_rows_of ''b'' ''t'' purge_demo_hot purge_demo_log (demo_read_catalog\<lparr>cat_purges := []\<rparr>) demo_upserts demo_deletes"
proof (rule table_inv_purges[OF demo_inv])
  have wm: "latest_committed_table_purge_seq_watermark ''b'' ''t'' (demo_read_catalog\<lparr>cat_purges := []\<rparr>) = None"
    by (simp add: latest_committed_table_purge_seq_watermark_def max_committed_purge_column_def map_filter_simps)
  have hot: "read_committed_upserts None None purge_demo_hot purge_demo_log =
      [demo_version ''a'' 1 5 0 0, demo_version ''b'' 2 5 1 0, demo_version ''c'' 3 9 3 1, demo_version ''a'' 4 12 4 2]"
    "read_committed_deletes None None purge_demo_hot purge_demo_log = [demo_version ''b'' 0 9 2 1]"
    by (simp_all add: read_committed_upserts_def read_committed_deletes_def build_committed_at_filter_def purge_demo_hot_def purge_demo_log_def demo_log_def
        demo_commit_def demo_upsert_def upsert_version_def delete_version_def demo_version_def)
  show "hot_holds demo_upserts demo_deletes (latest_committed_table_purge_seq_watermark ''b'' ''t'' (demo_read_catalog\<lparr>cat_purges := []\<rparr>)) purge_demo_hot purge_demo_log"
    unfolding wm hot_holds_def hot by (auto simp: demo_upserts_def demo_deletes_def)
qed (simp add: latest_committed_table_purge_seq_watermark_def max_committed_purge_column_def map_filter_simps sql_max_def[of "[]"])


text \<open>The commit at position 1 is purged from the table and archived; the one at position 2 is not.\<close>

definition collect_demo_log :: tx_log where
  "collect_demo_log = (demo_log [demo_commit ''y'' 9 1, demo_commit ''z'' 12 2])\<lparr>tl_tables := [(''y'', ''t''), (''z'', ''t'')], tl_commit_seq := 3\<rparr>"

definition collect_demo_catalog :: cold_catalog where
  "collect_demo_catalog = demo_read_catalog\<lparr>cat_purges := [\<lparr>pu_uuid = ''g'', pu_branch = ''b'', pu_table = ''t'', pu_commit_seq = Some 1,
     pu_aborted_seq = None, pu_commit = Some 10\<rparr>]\<rparr>"

definition collect_demo_archive :: archive where
  "collect_demo_archive = (\<lambda>_. Some \<lparr>schema = tx_log_arrow_schema, rows = [commit_map_row (demo_commit ''y'' 9 1)]\<rparr>,
     [\<lparr>tg_uuid = ''s'', tg_branch = ''b'', tg_min_seq = 1, tg_max_seq = 1, tg_min_micros = 9, tg_max_micros = 9, tg_uri = ''s'', tg_row_count = 1,
       tg_format = ''parquet'', tg_committed = Some 10\<rparr>])"

lemma collect_demo_inv:
  "table_inv demo_content demo_rows_of ''b'' ''t'' demo_hot collect_demo_log collect_demo_catalog demo_upserts demo_deletes"
  unfolding collect_demo_catalog_def
proof (rule table_inv_purges[OF demo_inv])
  let ?cat = "demo_read_catalog\<lparr>cat_purges := [\<lparr>pu_uuid = ''g'', pu_branch = ''b'', pu_table = ''t'', pu_commit_seq = Some 1,
     pu_aborted_seq = None, pu_commit = Some 10\<rparr>]\<rparr>"
  have wm: "latest_committed_table_purge_seq_watermark ''b'' ''t'' ?cat = Some 1"
    by (simp add: latest_committed_table_purge_seq_watermark_def max_committed_purge_column_def map_filter_simps sql_max_def)
  have hot: "read_committed_upserts None None demo_hot collect_demo_log = [demo_version ''a'' 4 12 4 2]" "read_committed_deletes None None demo_hot collect_demo_log = []"
    by (simp_all add: read_committed_upserts_def read_committed_deletes_def build_committed_at_filter_def demo_hot_def collect_demo_log_def demo_log_def demo_commit_def
        upsert_version_def demo_version_def)
  show "hot_holds demo_upserts demo_deletes (latest_committed_table_purge_seq_watermark ''b'' ''t'' ?cat) demo_hot collect_demo_log"
    unfolding wm hot_holds_def hot by (auto simp: demo_upserts_def demo_deletes_def above_def)
  show "\<forall>pu. latest_committed_table_purge_seq_watermark ''b'' ''t'' ?cat = Some pu \<longrightarrow>
      latest_committed_table_purge_seq_watermark ''b'' ''t'' demo_read_catalog = Some pu \<or>
      (\<exists>s \<in> set (committed_snapshots ''b'' ''t'' None None demo_read_catalog). pu \<le> sm_seq s)"
    unfolding wm demo_watermarks by simp
qed


end
