(* ===== verification/Spec2Isabelle.thy ===== *)
theory Spec2Isabelle
  imports Naming Pack_Stream Segment_Index Compact_Scope Fork_Copy Straddle_Read Purge
begin

text \<open>
  Verification of the storage core of Penca, a branchable store with a transactional hot tier and an
  immutable cold tier.

  \<^bold>\<open>The program.\<close>  A write goes to two Postgres log tables per table and branch (upserts and deletes)
  under a transaction; CommitTx gives the transaction the next position of the branch's gapless
  commit order.  Persist copies committed hot rows into cold segment files, Snapshot merges them
  into a clustered baseline, Purge removes hot rows the cold tier holds, Compact merges small
  segment files, and a fork copies references to the parent's segments.  A read is planned
  against the metadata tables and merged on the fly: hot log above the fence, persist segments
  at or below it, the snapshot for rows no log names.

  \<^bold>\<open>The theories.\<close>
  \<^item> \<open>Penca_Prelude\<close>: the result type with its bind, map and fold, comparison, saturating i64
    arithmetic, and list lemmas the components share.
  \<^item> \<open>Canonical_Types\<close> (\<open>penca-core/src/types\<close>), \<open>Chunker\<close> (\<open>lifecycle/chunker.rs\<close>): canonical
    types, the byte cost of a row, greedy chunking of a batch.
  \<^item> \<open>Naming\<close> (\<open>penca-core/src/naming\<close>, \<open>log_kind.rs\<close>): deterministic UUIDs, object URIs, physical
    relation names.
  \<^item> \<open>Batch_Util\<close>, \<open>Segment_Packer\<close>, \<open>Partition_Merger\<close>, \<open>Pack_Stream\<close> (\<open>lifecycle/batch_util.rs\<close>,
    \<open>lifecycle/packer.rs\<close>): partitioning, the segment packer, the merge of prior and delta rows of a
    partition, and the packing of a snapshot's partition stream.
  \<^item> \<open>Cold_Files\<close> (\<open>penca-format\<close> reader and writer, \<open>penca-storage-cold\<close>): writing and reading of
    segment files, schema shaping, commit ceilings.  \<open>Segment_Index\<close> (\<open>penca-format/src/index\<close>):
    sidecar indexes.
  \<^item> \<open>Cold_Catalog\<close> (\<open>penca-storage-meta\<close>: \<open>persist.rs\<close>, \<open>snapshot.rs\<close>, \<open>compact.rs\<close>, \<open>purge.rs\<close>,
    \<open>segment_index.rs\<close>; DDL of \<open>penca-db/src/dialect/pg.rs\<close>): the cold metadata tables of a catalog as
    one record, one definition per SQL function.
  \<^item> \<open>Compact_Plan\<close>, \<open>Compact_Scope\<close> (\<open>lifecycle/compact_plan.rs\<close>, \<open>lifecycle/compact.rs\<close>): planning
    of a wave and the compaction of one scope.
  \<^item> \<open>Segment_Listing\<close> (\<open>query/meta_plan.rs\<close>): the segments a read fetches.  \<open>Fork_Copy\<close>
    (\<open>penca-storage-meta/src/fork_copy.rs\<close>): the cold references of a fork.
  \<^item> \<open>Tx_Log\<close> (\<open>penca-storage-hot/src/tx.rs\<close>, transaction handlers of \<open>write/mod.rs\<close>,
    \<open>query/meta_resolve.rs\<close>): the transaction log as a step relation over the handlers.
  \<^item> \<open>Hot_Log\<close> (\<open>penca-storage-hot/src/data.rs\<close>, \<open>pk_batch.rs\<close>, WriteData of \<open>write/mod.rs\<close>): the data
    logs.
  \<^item> \<open>Merge_Read\<close> (\<open>penca-merge\<close>, \<open>penca-sql\<close>, \<open>penca-core/src/plan.rs\<close>): merge-on-read.
  \<^item> \<open>Read_Plan\<close> (\<open>query/meta_plan.rs\<close>, ReadData of \<open>query/mod.rs\<close> and \<open>query/cold_read.rs\<close>): the plan of a
    read and its dispatch.  \<open>table_inv\<close> collects what the lifecycle owes a read; \<open>Straddle_Read\<close> shows
    what happens when a persist segment straddles a snapshot, the part of \<open>table_inv\<close> the code
    does not ensure.
  \<^item> \<open>Tx_Archive\<close> (\<open>lifecycle/persist_tx_log.rs\<close>, \<open>penca-storage-meta/src/tx_log.rs\<close>): the cold archive of the
    commit log.  \<open>Purge\<close> (\<open>lifecycle/purge.rs\<close>, \<open>lifecycle/purge_tx_log.rs\<close>, \<open>watermarks.rs\<close>): the purge of
    the hot logs and of the transaction log.

  \<^bold>\<open>What is shown.\<close>  Reads: a planned read returns exactly the newest live version of every row as of
  its snapshot, from whichever tiers serve it, and what an open transaction sees of its own
  writes; purging the hot logs and the transaction log keeps the invariant reads rely on, and no
  commit is lost between the hot log and its archive.  Writes: a change is its deletes, then its
  upserts; the commit order is gapless and agrees with visibility.  Cold data: chunking, packing
  and partition merging keep every row once and in order; written files read back; compaction
  changes no segment's content and terminates; a fork reads as its parent did at the fork
  position; names, URIs and identities do not collide unless the hash does.

  \<^bold>\<open>Conventions.\<close>  An \<open>i64\<close> is an \<open>int\<close> (saturating where the source saturates), a \<open>usize\<close> a \<open>nat\<close>; a UUID
  is its text, and the name-based hash is a parameter \<open>h\<close>.  A fallible function returns
  \<open>api_error + 'a\<close>.  A table is the list of its rows, a transaction of SQL statements is the
  composition of their definitions; \<open>now\<close> is the start of the enclosing transaction and \<open>clock\<close> the
  value of \<open>clock_timestamp()\<close>.  Arrow kernels, the hash, the IPC decoder, the SQL engine of the data
  lake and the object store are parameters, with what is relied on as named hypotheses.  There is
  no fuel: loops are structural or have termination proofs.

  \<^bold>\<open>Not modelled.\<close>  Transport and configuration (\<open>penca-server-grpc\<close>, \<open>penca-sql-server\<close>,
  \<open>penca-lifecycle-scheduler\<close>), the DataFusion providers (\<open>penca-datafusion\<close>, most of \<open>penca-dl\<close>), the
  Postgres driver and row codec, content digests, and the Python packages: they are I/O, glue over
  third-party traits, or byte formats.  DDL handlers and name resolution of the system tables are
  not modelled.  Advisory locks are modelled by the atomicity of the operation they protect.
\<close>

end
